theory Spec2Isabelle
  imports Complex_Main "HOL-Library.Multiset"
begin

section \<open>Data model\<close>

text \<open>
  The types of \<^verbatim>\<open>src/app/utils/scheduler.ts\<close> (lines 1-27). The fields
  \<^verbatim>\<open>arrivalTime\<close>, \<^verbatim>\<open>burstTime\<close> and \<^verbatim>\<open>priority\<close> and the quantum have the type
  \<^verbatim>\<open>number\<close>, a double. The specification takes them to be integers (its data model,
  and a clock that is an integer), and the model covers these inputs: a number is an
  \<^typ>\<open>int\<close>, and \<open>+\<close>, \<open>-\<close> and the comparisons are those of the integers, which is what
  the code computes as long as no number leaves the range in which doubles represent
  every integer (magnitudes of at most \<open>2 ^ 53\<close>). Nothing in the code rounds its input,
  and the forms of the user interface pass on a fraction that is typed in: a run on a
  fractional arrival time, burst time or quantum, or one whose clock passes
  \<open>2 ^ 53\<close>, is not a run of this model. The theorems whose statements depend on the
  arithmetic name the range for which they are proved. The two averages are quotients;
  they are modelled as exact rationals, where the code has the nearest double.
  The field \<^verbatim>\<open>id\<close> is written \<open>id'\<close> because \<open>id\<close> is the identity function of HOL.
  \<^verbatim>\<open>GanttBlock\<close> and \<^verbatim>\<open>ProcessResult\<close> both have fields \<^verbatim>\<open>startTime\<close> and
  \<^verbatim>\<open>endTime\<close>: the unqualified names are those of \<open>ProcessResult\<close>, the fields of a
  block are written \<open>GanttBlock.startTime\<close> and \<open>GanttBlock.endTime\<close>.
  The \<^verbatim>\<open>decisionLog\<close> of the output is left out: the solvers only ever append
  strings to it and never read it back, so it has no influence on any other field.
\<close>

record Process =
  id' :: string
  arrivalTime :: int
  burstTime :: int
  priority :: int

record GanttBlock =
  processId :: string
  startTime :: int
  endTime :: int

record ProcessResult = Process +
  startTime :: int
  endTime :: int
  turnaroundTime :: int
  waitingTime :: int

record SchedulerOutput =
  results :: "ProcessResult list"
  ganttChart :: "GanttBlock list"
  averageTurnaroundTime :: rat
  averageWaitingTime :: rat

text \<open>
  The local variables of the solvers. Every solver declares a subset of them; the
  others keep their initial value. \<open>idx = -1\<close> of the source is \<open>None\<close> in the
  model, and \<open>completed\<close>, a counter, is a natural number.
\<close>

record state =
  currentTime :: int
  completed :: nat
  isCompleted :: "bool list"
  remainingTime :: "int list"
  results :: "ProcessResult list"
  ganttChart :: "GanttBlock list"
  lastProcessId :: string
  queue :: "nat list"
  visited :: "bool list"
  q0 :: "nat list"
  q1 :: "nat list"
  q2 :: "nat list"

definition init_state :: state where
  "init_state = \<lparr>currentTime = 0, completed = 0, isCompleted = [], remainingTime = [],
     results = [], ganttChart = [], lastProcessId = [], queue = [], visited = [],
     q0 = [], q1 = [], q2 = []\<rparr>"

text \<open>The only exception a solver can raise: a property read on \<^verbatim>\<open>undefined\<close>.\<close>

datatype error = TypeError

section \<open>Loops\<close>

text \<open>
  One iteration of a \<^verbatim>\<open>while\<close> body either falls through to the next test of the
  condition, leaves the loop by \<^verbatim>\<open>break\<close>, or throws. A loop that does not stop has
  the value \<open>None\<close>.
\<close>

datatype 's outcome = Next 's | Break 's | Throw error

partial_function (option) while_loop ::
  "('s \<Rightarrow> bool) \<Rightarrow> ('s \<Rightarrow> 's outcome) \<Rightarrow> 's \<Rightarrow> (error + 's) option" where
  "while_loop b c s =
     (if b s then
        (case c s of
           Next s' \<Rightarrow> while_loop b c s'
         | Break s' \<Rightarrow> Some (Inr s')
         | Throw e \<Rightarrow> Some (Inl e))
      else Some (Inr s))"

declare while_loop.simps [code]

section \<open>Sorting and averages\<close>

text \<open>
  \<^verbatim>\<open>Array.prototype.sort\<close> with a comparator is a stable sort: an element is put
  before the first element that it does not follow.
\<close>

fun insertJS :: "('a \<Rightarrow> 'a \<Rightarrow> int) \<Rightarrow> 'a \<Rightarrow> 'a list \<Rightarrow> 'a list" where
  "insertJS cmp x [] = [x]"
| "insertJS cmp x (y # ys) = (if cmp x y \<le> 0 then x # y # ys else y # insertJS cmp x ys)"

definition sortJS :: "('a \<Rightarrow> 'a \<Rightarrow> int) \<Rightarrow> 'a list \<Rightarrow> 'a list" where
  "sortJS cmp xs = foldr (insertJS cmp) xs []"

definition byArrival :: "Process \<Rightarrow> Process \<Rightarrow> int" where
  "byArrival a b = arrivalTime a - arrivalTime b"

text \<open>
  \<^verbatim>\<open>total / results.length || 0\<close>: the quotient, and 0 when it is \<^verbatim>\<open>NaN\<close> (0/0) or 0.
  The quotient is the exact rational; the code has the double nearest to it.
\<close>

definition average :: "int \<Rightarrow> nat \<Rightarrow> rat" where
  "average tot n = (if n = 0 then 0 else of_int tot / of_nat n)"

text \<open>
  \<^verbatim>\<open>calculateAverages\<close> (lines 45-55). The comparison
  \<^verbatim>\<open>a.id.localeCompare(b.id, undefined, {numeric: true})\<close> belongs to the platform and is
  the parameter \<open>lc\<close>.
\<close>

definition calculateAverages ::
  "(string \<Rightarrow> string \<Rightarrow> int) \<Rightarrow> ProcessResult list \<Rightarrow> GanttBlock list \<Rightarrow> SchedulerOutput" where
  "calculateAverages lc rs g =
     (let totalTAT = sum_list (map turnaroundTime rs);
          totalWT = sum_list (map waitingTime rs)
      in \<lparr>SchedulerOutput.results = sortJS (\<lambda>a b. lc (id' a) (id' b)) rs,
          SchedulerOutput.ganttChart = g,
          averageTurnaroundTime = average totalTAT (length rs),
          averageWaitingTime = average totalWT (length rs)\<rparr>)"

definition finish :: "(string \<Rightarrow> string \<Rightarrow> int) \<Rightarrow> (error + state) option \<Rightarrow> (error + SchedulerOutput) option" where
  "finish lc r = map_option (map_sum (\<lambda>e. e) (\<lambda>s. calculateAverages lc (results s) (ganttChart s))) r"

text \<open>The object \<^verbatim>\<open>{...p, startTime, endTime, turnaroundTime, waitingTime}\<close>.\<close>

definition mkResult :: "Process \<Rightarrow> int \<Rightarrow> int \<Rightarrow> int \<Rightarrow> int \<Rightarrow> ProcessResult" where
  "mkResult p s e tat wt =
     \<lparr>id' = id' p, arrivalTime = arrivalTime p, burstTime = burstTime p, priority = priority p,
      startTime = s, endTime = e, turnaroundTime = tat, waitingTime = wt\<rparr>"

definition mkBlock :: "string \<Rightarrow> int \<Rightarrow> int \<Rightarrow> GanttBlock" where
  "mkBlock p s e = \<lparr>processId = p, GanttBlock.startTime = s, GanttBlock.endTime = e\<rparr>"

section \<open>FCFS\<close>

text \<open>\<^verbatim>\<open>solveFCFS\<close> (lines 57-86): the body of the \<^verbatim>\<open>forEach\<close>, then the solver.\<close>

definition fcfs_step :: "state \<Rightarrow> Process \<Rightarrow> state" where
  "fcfs_step s p =
     (let t = (if currentTime s < arrivalTime p then arrivalTime p else currentTime s);
          startT = t;
          endT = startT + burstTime p
      in s\<lparr>results := results s @ [mkResult p startT endT (endT - arrivalTime p) (startT - arrivalTime p)],
           ganttChart := ganttChart s @ [mkBlock (id' p) startT endT],
           currentTime := endT\<rparr>)"

definition solveFCFS :: "(string \<Rightarrow> string \<Rightarrow> int) \<Rightarrow> Process list \<Rightarrow> SchedulerOutput" where
  "solveFCFS lc processes =
     (let sortedP = sortJS byArrival processes;
          s = foldl fcfs_step init_state sortedP
      in calculateAverages lc (results s) (ganttChart s))"

section \<open>Selection scans\<close>

text \<open>
  The \<^verbatim>\<open>for\<close> loop that SJF, SRTF, both Priority solvers, LJF and LRTF run over the
  indices: it keeps \<open>(idx, best)\<close>, where \<open>best\<close> is \<^verbatim>\<open>minBurst\<close>, \<^verbatim>\<open>minTime\<close>,
  \<^verbatim>\<open>highestPriority\<close>, \<^verbatim>\<open>maxBurst\<close> or \<^verbatim>\<open>maxTime\<close>. \<open>None\<close> as \<open>best\<close> is
  \<^verbatim>\<open>Infinity\<close>. On a tie the source reads \<^verbatim>\<open>sorted[idx].arrivalTime\<close>, which throws
  when \<open>idx\<close> is still -1.
\<close>

fun below :: "int \<Rightarrow> int option \<Rightarrow> bool" where
  "below k None = True"
| "below k (Some m) = (k < m)"

fun above :: "int \<Rightarrow> int option \<Rightarrow> bool" where
  "above k None = False"
| "above k (Some m) = (k > m)"

definition pick ::
  "(int \<Rightarrow> int option \<Rightarrow> bool) \<Rightarrow> (nat \<Rightarrow> bool) \<Rightarrow> (nat \<Rightarrow> int) \<Rightarrow> (nat \<Rightarrow> int) \<Rightarrow>
   error + (nat option \<times> int option) \<Rightarrow> nat \<Rightarrow> error + (nat option \<times> int option)" where
  "pick better ready key arr acc i =
     (case acc of
        Inl e \<Rightarrow> Inl e
      | Inr (idx, best) \<Rightarrow>
          if ready i then
            if better (key i) best then Inr (Some i, Some (key i))
            else if best = Some (key i) then
              (case idx of
                 None \<Rightarrow> Inl TypeError
               | Some j \<Rightarrow> if arr i < arr j then Inr (Some i, best) else Inr (idx, best))
            else Inr (idx, best)
          else Inr (idx, best))"

definition scan ::
  "(int \<Rightarrow> int option \<Rightarrow> bool) \<Rightarrow> int option \<Rightarrow> (nat \<Rightarrow> bool) \<Rightarrow> (nat \<Rightarrow> int) \<Rightarrow> (nat \<Rightarrow> int) \<Rightarrow>
   nat \<Rightarrow> error + nat option" where
  "scan better init ready key arr n =
     (case foldl (pick better ready key arr) (Inr (None, init)) [0..<n] of
        Inl e \<Rightarrow> Inl e
      | Inr (idx, best) \<Rightarrow> Inr idx)"

definition selectSJF :: "Process list \<Rightarrow> state \<Rightarrow> error + nat option" where
  "selectSJF sortedP s =
     scan below None (\<lambda>i. arrivalTime (sortedP ! i) \<le> currentTime s \<and> \<not> isCompleted s ! i)
       (\<lambda>i. burstTime (sortedP ! i)) (\<lambda>i. arrivalTime (sortedP ! i)) (length sortedP)"

definition selectPriorityNP :: "Process list \<Rightarrow> state \<Rightarrow> error + nat option" where
  "selectPriorityNP sortedP s =
     scan below None (\<lambda>i. arrivalTime (sortedP ! i) \<le> currentTime s \<and> \<not> isCompleted s ! i)
       (\<lambda>i. priority (sortedP ! i)) (\<lambda>i. arrivalTime (sortedP ! i)) (length sortedP)"

definition selectLJF :: "Process list \<Rightarrow> state \<Rightarrow> error + nat option" where
  "selectLJF sortedP s =
     scan above (Some (- 1)) (\<lambda>i. arrivalTime (sortedP ! i) \<le> currentTime s \<and> \<not> isCompleted s ! i)
       (\<lambda>i. burstTime (sortedP ! i)) (\<lambda>i. arrivalTime (sortedP ! i)) (length sortedP)"

definition selectSRTF :: "Process list \<Rightarrow> state \<Rightarrow> error + nat option" where
  "selectSRTF processes s =
     scan below None (\<lambda>i. arrivalTime (processes ! i) \<le> currentTime s \<and> remainingTime s ! i > 0)
       (\<lambda>i. remainingTime s ! i) (\<lambda>i. arrivalTime (processes ! i)) (length processes)"

definition selectPriorityP :: "Process list \<Rightarrow> state \<Rightarrow> error + nat option" where
  "selectPriorityP processes s =
     scan below None (\<lambda>i. arrivalTime (processes ! i) \<le> currentTime s \<and> remainingTime s ! i > 0)
       (\<lambda>i. priority (processes ! i)) (\<lambda>i. arrivalTime (processes ! i)) (length processes)"

definition selectLRTF :: "Process list \<Rightarrow> state \<Rightarrow> error + nat option" where
  "selectLRTF processes s =
     scan above (Some (- 1)) (\<lambda>i. arrivalTime (processes ! i) \<le> currentTime s \<and> remainingTime s ! i > 0)
       (\<lambda>i. remainingTime s ! i) (\<lambda>i. arrivalTime (processes ! i)) (length processes)"

text \<open>
  HRRN (lines 482-496) compares the quotients \<^verbatim>\<open>(waitingTime + burst) / burst\<close> and has
  no tie-break. A JavaScript quotient of two integers is a number, an infinity or
  \<^verbatim>\<open>NaN\<close>; the number is taken exactly, where the code has the nearest double. The
  two agree on which of two quotients is the greater as long as the numerators and
  denominators stay below \<open>2 ^ 26\<close>; beyond that, two different quotients can round to
  the same double, and the code then keeps the earlier process where the model takes
  the later one.
\<close>

datatype jsnum = Num rat | PosInf | NegInf | NaN

definition js_div :: "int \<Rightarrow> int \<Rightarrow> jsnum" where
  "js_div a b =
     (if b \<noteq> 0 then Num (of_int a / of_int b)
      else if a > 0 then PosInf else if a < 0 then NegInf else NaN)"

fun js_gt :: "jsnum \<Rightarrow> jsnum \<Rightarrow> bool" where
  "js_gt (Num x) (Num y) = (x > y)"
| "js_gt PosInf (Num y) = True"
| "js_gt PosInf NegInf = True"
| "js_gt (Num x) NegInf = True"
| "js_gt a b = False"

definition pickHRRN :: "Process list \<Rightarrow> state \<Rightarrow> nat option \<times> jsnum \<Rightarrow> nat \<Rightarrow> nat option \<times> jsnum" where
  "pickHRRN sortedP s acc i =
     (if arrivalTime (sortedP ! i) \<le> currentTime s \<and> \<not> isCompleted s ! i then
        (let waitingT = currentTime s - arrivalTime (sortedP ! i);
             ratio = js_div (waitingT + burstTime (sortedP ! i)) (burstTime (sortedP ! i))
         in if js_gt ratio (snd acc) then (Some i, ratio) else acc)
      else acc)"

definition selectHRRN :: "Process list \<Rightarrow> state \<Rightarrow> error + nat option" where
  "selectHRRN sortedP s = Inr (fst (foldl (pickHRRN sortedP s) (None, Num (- 1)) [0..<length sortedP]))"

section \<open>The non-preemptive solvers\<close>

text \<open>
  \<^verbatim>\<open>solveSJF\<close> (lines 88-136), \<^verbatim>\<open>solvePriorityNP\<close> (202-249), \<^verbatim>\<open>solveLJF\<close> (372-418)
  and \<^verbatim>\<open>solveHRRN\<close> (471-517) are the same loop around four different scans;
  \<open>np_run\<close> is the branch that runs the selected process to completion.
\<close>

definition np_run :: "Process list \<Rightarrow> nat \<Rightarrow> state \<Rightarrow> state" where
  "np_run sortedP idx s =
     (let p = sortedP ! idx;
          startT = currentTime s;
          endT = startT + burstTime p
      in s\<lparr>results := results s @ [mkResult p startT endT (endT - arrivalTime p) (startT - arrivalTime p)],
           ganttChart := ganttChart s @ [mkBlock (id' p) startT endT],
           isCompleted := (isCompleted s)[idx := True],
           completed := completed s + 1,
           currentTime := endT\<rparr>)"

definition np_body :: "(Process list \<Rightarrow> state \<Rightarrow> error + nat option) \<Rightarrow> Process list \<Rightarrow> state \<Rightarrow> state outcome" where
  "np_body select sortedP s =
     (case select sortedP s of
        Inl e \<Rightarrow> Throw e
      | Inr None \<Rightarrow> Next (s\<lparr>currentTime := currentTime s + 1\<rparr>)
      | Inr (Some idx) \<Rightarrow> Next (np_run sortedP idx s))"

definition np_loop :: "(Process list \<Rightarrow> state \<Rightarrow> error + nat option) \<Rightarrow> Process list \<Rightarrow> (error + state) option" where
  "np_loop select processes =
     (let n = length processes;
          sortedP = sortJS byArrival processes
      in while_loop (\<lambda>s. completed s < n) (np_body select sortedP)
           (init_state\<lparr>isCompleted := replicate n False\<rparr>))"

definition solveSJF :: "(string \<Rightarrow> string \<Rightarrow> int) \<Rightarrow> Process list \<Rightarrow> (error + SchedulerOutput) option" where
  "solveSJF lc processes = finish lc (np_loop selectSJF processes)"

definition solvePriorityNP :: "(string \<Rightarrow> string \<Rightarrow> int) \<Rightarrow> Process list \<Rightarrow> (error + SchedulerOutput) option" where
  "solvePriorityNP lc processes = finish lc (np_loop selectPriorityNP processes)"

definition solveLJF :: "(string \<Rightarrow> string \<Rightarrow> int) \<Rightarrow> Process list \<Rightarrow> (error + SchedulerOutput) option" where
  "solveLJF lc processes = finish lc (np_loop selectLJF processes)"

definition solveHRRN :: "(string \<Rightarrow> string \<Rightarrow> int) \<Rightarrow> Process list \<Rightarrow> (error + SchedulerOutput) option" where
  "solveHRRN lc processes = finish lc (np_loop selectHRRN processes)"

section \<open>Helpers shared by the solvers that keep \<^verbatim>\<open>remainingTime\<close>\<close>

text \<open>
  \<^verbatim>\<open>remainingTime = processes.map(p => p.burstTime)\<close> and
  \<^verbatim>\<open>results = processes.map(p => ({...p, startTime: -1, endTime: 0, ...}))\<close>.
\<close>

definition init_run :: "Process list \<Rightarrow> state" where
  "init_run processes =
     init_state\<lparr>remainingTime := map burstTime processes,
                results := map (\<lambda>p. mkResult p (- 1) 0 0 0) processes\<rparr>"

text \<open>\<^verbatim>\<open>if (results[idx].startTime === -1) results[idx].startTime = currentTime\<close>.\<close>

definition mark_start :: "nat \<Rightarrow> state \<Rightarrow> state" where
  "mark_start idx s =
     (if startTime (results s ! idx) = - 1
      then s\<lparr>results := (results s)[idx := (results s ! idx)\<lparr>startTime := currentTime s\<rparr>]\<rparr>
      else s)"

text \<open>The three assignments that record a completion.\<close>

definition finalize :: "int \<Rightarrow> int \<Rightarrow> int \<Rightarrow> ProcessResult \<Rightarrow> ProcessResult" where
  "finalize t arr burst r = r\<lparr>endTime := t, turnaroundTime := t - arr, waitingTime := (t - arr) - burst\<rparr>"

text \<open>
  A slice of \<open>d\<close> time units for \<open>idx\<close> in Round Robin, MLQ and MLFQ: one new block,
  \<^verbatim>\<open>remainingTime[idx] -= d\<close>, \<^verbatim>\<open>currentTime += d\<close>.
\<close>

definition run :: "Process list \<Rightarrow> nat \<Rightarrow> int \<Rightarrow> state \<Rightarrow> state" where
  "run processes idx d s =
     s\<lparr>ganttChart := ganttChart s @ [mkBlock (id' (processes ! idx)) (currentTime s) (currentTime s + d)],
       remainingTime := (remainingTime s)[idx := remainingTime s ! idx - d],
       currentTime := currentTime s + d\<rparr>"

text \<open>
  The completion branch of Round Robin, MLQ and MLFQ, which reads the arrival and the
  burst from \<^verbatim>\<open>processes[idx]\<close>.
\<close>

definition complete :: "Process list \<Rightarrow> nat \<Rightarrow> state \<Rightarrow> state" where
  "complete processes idx s =
     s\<lparr>completed := completed s + 1,
       results := (results s)[idx := finalize (currentTime s) (arrivalTime (processes ! idx))
                                      (burstTime (processes ! idx)) (results s ! idx)]\<rparr>"

section \<open>The preemptive solvers\<close>

text \<open>
  \<^verbatim>\<open>solveSRTF\<close> (lines 138-200), \<^verbatim>\<open>solvePriorityP\<close> (251-303) and \<^verbatim>\<open>solveLRTF\<close>
  (420-469) are the same loop around three scans. SRTF and Priority (Preemptive) set
  \<^verbatim>\<open>lastProcessId = ""\<close> when a process finishes, LRTF does not: this is the flag
  \<open>reset\<close>. Extending the last block of an empty chart reads \<^verbatim>\<open>endTime\<close> of
  \<^verbatim>\<open>undefined\<close> and throws. \<open>pre_tick\<close> is the unit of time given to the selected process.
\<close>

definition extend_last :: "GanttBlock list \<Rightarrow> GanttBlock list" where
  "extend_last g = butlast g @ [(last g)\<lparr>GanttBlock.endTime := GanttBlock.endTime (last g) + 1\<rparr>]"

definition pre_tick :: "bool \<Rightarrow> Process list \<Rightarrow> nat \<Rightarrow> state \<Rightarrow> state" where
  "pre_tick reset processes idx s =
     (let s1 = (if lastProcessId s \<noteq> id' (processes ! idx)
                then s\<lparr>ganttChart := ganttChart s @
                          [mkBlock (id' (processes ! idx)) (currentTime s) (currentTime s + 1)],
                       lastProcessId := id' (processes ! idx)\<rparr>
                else s\<lparr>ganttChart := extend_last (ganttChart s)\<rparr>);
          s2 = mark_start idx s1;
          s3 = s2\<lparr>remainingTime := (remainingTime s2)[idx := remainingTime s2 ! idx - 1],
                  currentTime := currentTime s2 + 1\<rparr>
      in if remainingTime s3 ! idx = 0
         then s3\<lparr>completed := completed s3 + 1,
                 results := (results s3)[idx := finalize (currentTime s3)
                     (arrivalTime (results s3 ! idx)) (burstTime (results s3 ! idx))
                     (results s3 ! idx)],
                 lastProcessId := (if reset then [] else lastProcessId s3)\<rparr>
         else s3)"

definition pre_body :: "bool \<Rightarrow> (Process list \<Rightarrow> state \<Rightarrow> error + nat option) \<Rightarrow> Process list \<Rightarrow> state \<Rightarrow> state outcome" where
  "pre_body reset select processes s =
     (case select processes s of
        Inl e \<Rightarrow> Throw e
      | Inr None \<Rightarrow> Next (s\<lparr>currentTime := currentTime s + 1\<rparr>)
      | Inr (Some idx) \<Rightarrow>
          if lastProcessId s = id' (processes ! idx) \<and> ganttChart s = [] then Throw TypeError
          else Next (pre_tick reset processes idx s))"

definition pre_loop :: "bool \<Rightarrow> (Process list \<Rightarrow> state \<Rightarrow> error + nat option) \<Rightarrow> Process list \<Rightarrow> (error + state) option" where
  "pre_loop reset select processes =
     while_loop (\<lambda>s. completed s < length processes) (pre_body reset select processes)
       (init_run processes)"

definition solveSRTF :: "(string \<Rightarrow> string \<Rightarrow> int) \<Rightarrow> Process list \<Rightarrow> (error + SchedulerOutput) option" where
  "solveSRTF lc processes = finish lc (pre_loop True selectSRTF processes)"

definition solvePriorityP :: "(string \<Rightarrow> string \<Rightarrow> int) \<Rightarrow> Process list \<Rightarrow> (error + SchedulerOutput) option" where
  "solvePriorityP lc processes = finish lc (pre_loop True selectPriorityP processes)"

definition solveLRTF :: "(string \<Rightarrow> string \<Rightarrow> int) \<Rightarrow> Process list \<Rightarrow> (error + SchedulerOutput) option" where
  "solveLRTF lc processes = finish lc (pre_loop False selectLRTF processes)"

section \<open>Round Robin\<close>

text \<open>
  \<^verbatim>\<open>solveRR\<close> (lines 305-370). \<open>rr_seed\<close> is the body of the \<^verbatim>\<open>forEach\<close> before the
  loop, \<open>rr_next\<close> the body of the search for the earliest unvisited arrival (\<open>None\<close> is
  \<^verbatim>\<open>nextArr = Infinity, nextIdx = -1\<close>), \<open>rr_admit\<close> the body of the \<^verbatim>\<open>for\<close> loop after a
  slice (lines 350-356), \<open>rr_slice\<close> lines 340-367, \<open>rr_forward\<close> the fast-forward of
  lines 333-335.
\<close>

definition rr_seed :: "Process list \<Rightarrow> state \<Rightarrow> nat \<Rightarrow> state" where
  "rr_seed processes s i =
     (if arrivalTime (processes ! i) = 0
      then s\<lparr>queue := queue s @ [i], visited := (visited s)[i := True]\<rparr>
      else s)"

definition rr_next :: "Process list \<Rightarrow> state \<Rightarrow> (int \<times> nat) option \<Rightarrow> nat \<Rightarrow> (int \<times> nat) option" where
  "rr_next processes s acc i =
     (if \<not> visited s ! i \<and>
         (case acc of None \<Rightarrow> True | Some (nextArr, nextIdx) \<Rightarrow> arrivalTime (processes ! i) < nextArr)
      then Some (arrivalTime (processes ! i), i)
      else acc)"

definition rr_admit :: "Process list \<Rightarrow> state \<Rightarrow> nat \<Rightarrow> state" where
  "rr_admit processes s i =
     (if \<not> visited s ! i \<and> arrivalTime (processes ! i) \<le> currentTime s \<and> remainingTime s ! i > 0
      then s\<lparr>queue := queue s @ [i], visited := (visited s)[i := True]\<rparr>
      else s)"

definition rr_slice :: "Process list \<Rightarrow> int \<Rightarrow> state \<Rightarrow> state" where
  "rr_slice processes timeQuantum s =
     (let idx = hd (queue s);
          s1 = mark_start idx (s\<lparr>queue := tl (queue s)\<rparr>);
          execTime = min timeQuantum (remainingTime s1 ! idx);
          s2 = run processes idx execTime s1;
          s3 = foldl (rr_admit processes) s2 [0..<length processes]
      in if remainingTime s3 ! idx > 0
         then s3\<lparr>queue := queue s3 @ [idx]\<rparr>
         else complete processes idx s3)"

definition rr_forward :: "state \<Rightarrow> int \<Rightarrow> nat \<Rightarrow> state" where
  "rr_forward s nextArr nextIdx =
     s\<lparr>currentTime := nextArr, queue := queue s @ [nextIdx],
       visited := (visited s)[nextIdx := True]\<rparr>"

definition rr_body :: "Process list \<Rightarrow> int \<Rightarrow> state \<Rightarrow> state outcome" where
  "rr_body processes timeQuantum s =
     (if queue s = [] then
        (case foldl (rr_next processes s) None [0..<length processes] of
           Some (nextArr, nextIdx) \<Rightarrow>
             Next (rr_slice processes timeQuantum (rr_forward s nextArr nextIdx))
         | None \<Rightarrow> Break s)
      else Next (rr_slice processes timeQuantum s))"

definition rr_init :: "Process list \<Rightarrow> state" where
  "rr_init processes =
     foldl (rr_seed processes) ((init_run processes)\<lparr>visited := replicate (length processes) False\<rparr>)
       [0..<length processes]"

definition rr_loop :: "Process list \<Rightarrow> int \<Rightarrow> (error + state) option" where
  "rr_loop processes timeQuantum =
     while_loop (\<lambda>s. completed s < length processes) (rr_body processes timeQuantum)
       (rr_init processes)"

definition solveRR :: "(string \<Rightarrow> string \<Rightarrow> int) \<Rightarrow> Process list \<Rightarrow> int \<Rightarrow> (error + SchedulerOutput) option" where
  "solveRR lc processes timeQuantum = finish lc (rr_loop processes timeQuantum)"

section \<open>Multilevel Queue\<close>

text \<open>
  \<^verbatim>\<open>solveMLQ\<close> (lines 519-595); \<open>mlq_admit\<close> is the body of both classifying loops,
  \<open>mlq_high\<close> the branch for a non-empty \<^verbatim>\<open>q1\<close> (lines 548-572), \<open>mlq_low\<close> the branch
  for a non-empty \<^verbatim>\<open>q2\<close> (lines 573-589).
\<close>

definition mlq_admit :: "Process list \<Rightarrow> state \<Rightarrow> nat \<Rightarrow> state" where
  "mlq_admit processes s i =
     (if \<not> visited s ! i \<and> arrivalTime (processes ! i) \<le> currentTime s
      then (if priority (processes ! i) \<le> 2
            then s\<lparr>q1 := q1 s @ [i], visited := (visited s)[i := True]\<rparr>
            else s\<lparr>q2 := q2 s @ [i], visited := (visited s)[i := True]\<rparr>)
      else s)"

definition mlq_high :: "Process list \<Rightarrow> int \<Rightarrow> state \<Rightarrow> state" where
  "mlq_high processes timeQuantum s0 =
     (let idx = hd (q1 s0);
          s1 = mark_start idx (s0\<lparr>q1 := tl (q1 s0)\<rparr>);
          exec = min timeQuantum (remainingTime s1 ! idx);
          s2 = run processes idx exec s1;
          s3 = foldl (mlq_admit processes) s2 [0..<length processes]
      in if remainingTime s3 ! idx > 0 then s3\<lparr>q1 := q1 s3 @ [idx]\<rparr>
         else complete processes idx s3)"

definition mlq_low :: "Process list \<Rightarrow> state \<Rightarrow> state" where
  "mlq_low processes s0 =
     (let idx = hd (q2 s0);
          s1 = mark_start idx s0;
          s2 = run processes idx 1 s1
      in if remainingTime s2 ! idx = 0 then (complete processes idx s2)\<lparr>q2 := tl (q2 s2)\<rparr>
         else s2)"

definition mlq_body :: "Process list \<Rightarrow> int \<Rightarrow> state \<Rightarrow> state outcome" where
  "mlq_body processes timeQuantum s =
     (let s0 = foldl (mlq_admit processes) s [0..<length processes]
      in if q1 s0 \<noteq> [] then Next (mlq_high processes timeQuantum s0)
         else if q2 s0 \<noteq> [] then Next (mlq_low processes s0)
         else Next (s0\<lparr>currentTime := currentTime s0 + 1\<rparr>))"

definition init_visit :: "Process list \<Rightarrow> state" where
  "init_visit processes = (init_run processes)\<lparr>visited := replicate (length processes) False\<rparr>"

definition mlq_loop :: "Process list \<Rightarrow> int \<Rightarrow> (error + state) option" where
  "mlq_loop processes timeQuantum =
     while_loop (\<lambda>s. completed s < length processes) (mlq_body processes timeQuantum)
       (init_visit processes)"

definition solveMLQ :: "(string \<Rightarrow> string \<Rightarrow> int) \<Rightarrow> Process list \<Rightarrow> int \<Rightarrow> (error + SchedulerOutput) option" where
  "solveMLQ lc processes timeQuantum = finish lc (mlq_loop processes timeQuantum)"

section \<open>Multilevel Feedback Queue\<close>

text \<open>
  \<^verbatim>\<open>solveMLFQ\<close> (lines 597-667). \<open>mlfq_admit\<close> is the body of both arrival loops,
  \<open>mlfq_dispatch\<close> lines 628-661 for a process taken from level \<open>queueLevel\<close>. At level 2
  the process stays at the head of \<^verbatim>\<open>q2\<close> and the quantum is not used.
\<close>

definition mlfq_admit :: "Process list \<Rightarrow> state \<Rightarrow> nat \<Rightarrow> state" where
  "mlfq_admit processes s i =
     (if \<not> visited s ! i \<and> arrivalTime (processes ! i) \<le> currentTime s
      then s\<lparr>q0 := q0 s @ [i], visited := (visited s)[i := True]\<rparr>
      else s)"

definition mlfq_dispatch :: "Process list \<Rightarrow> nat \<Rightarrow> nat \<Rightarrow> int \<Rightarrow> state \<Rightarrow> state" where
  "mlfq_dispatch processes idx queueLevel quantum s =
     (let s1 = mark_start idx s;
          runTime = (if queueLevel = 2 then 1 else min (remainingTime s1 ! idx) quantum);
          s2 = run processes idx runTime s1;
          s3 = foldl (mlfq_admit processes) s2 [0..<length processes]
      in if remainingTime s3 ! idx = 0 then
           (let s4 = complete processes idx s3
            in if queueLevel = 2 then s4\<lparr>q2 := tl (q2 s4)\<rparr> else s4)
         else if queueLevel = 0 then s3\<lparr>q1 := q1 s3 @ [idx]\<rparr>
         else if queueLevel = 1 then s3\<lparr>q2 := q2 s3 @ [idx]\<rparr>
         else s3)"

definition mlfq_body :: "Process list \<Rightarrow> int \<Rightarrow> state \<Rightarrow> state outcome" where
  "mlfq_body processes timeQuantum s =
     (let s0 = foldl (mlfq_admit processes) s [0..<length processes]
      in if q0 s0 \<noteq> [] then
           Next (mlfq_dispatch processes (hd (q0 s0)) 0 timeQuantum (s0\<lparr>q0 := tl (q0 s0)\<rparr>))
         else if q1 s0 \<noteq> [] then
           Next (mlfq_dispatch processes (hd (q1 s0)) 1 (timeQuantum * 2) (s0\<lparr>q1 := tl (q1 s0)\<rparr>))
         else if q2 s0 \<noteq> [] then
           Next (mlfq_dispatch processes (hd (q2 s0)) 2 0 s0)
         else Next (s0\<lparr>currentTime := currentTime s0 + 1\<rparr>))"

definition mlfq_loop :: "Process list \<Rightarrow> int \<Rightarrow> (error + state) option" where
  "mlfq_loop processes timeQuantum =
     while_loop (\<lambda>s. completed s < length processes) (mlfq_body processes timeQuantum)
       (init_visit processes)"

definition solveMLFQ :: "(string \<Rightarrow> string \<Rightarrow> int) \<Rightarrow> Process list \<Rightarrow> int \<Rightarrow> (error + SchedulerOutput) option" where
  "solveMLFQ lc processes timeQuantum = finish lc (mlfq_loop processes timeQuantum)"

section \<open>The dispatcher\<close>

text \<open>
  \<^verbatim>\<open>solve\<close> (lines 669-684). At run time the algorithm is a string, and the
  \<^verbatim>\<open>default\<close> branch of the \<^verbatim>\<open>switch\<close> takes every string that is not one of the eleven
  names.
\<close>

definition solve ::
  "(string \<Rightarrow> string \<Rightarrow> int) \<Rightarrow> string \<Rightarrow> Process list \<Rightarrow> int \<Rightarrow> (error + SchedulerOutput) option" where
  "solve lc algorithm processes timeQuantum =
     (if algorithm = ''FCFS'' then Some (Inr (solveFCFS lc processes))
      else if algorithm = ''SJF (Non-Preemptive)'' then solveSJF lc processes
      else if algorithm = ''SRTF (Preemptive)'' then solveSRTF lc processes
      else if algorithm = ''Priority (Non-Preemptive)'' then solvePriorityNP lc processes
      else if algorithm = ''Priority (Preemptive)'' then solvePriorityP lc processes
      else if algorithm = ''Round Robin'' then solveRR lc processes timeQuantum
      else if algorithm = ''LJF (Non-Preemptive)'' then solveLJF lc processes
      else if algorithm = ''LRTF (Preemptive)'' then solveLRTF lc processes
      else if algorithm = ''HRRN'' then solveHRRN lc processes
      else if algorithm = ''Multilevel Queue'' then solveMLQ lc processes timeQuantum
      else if algorithm = ''Multilevel Feedback Queue (MLFQ)'' then solveMLFQ lc processes timeQuantum
      else Some (Inr (solveFCFS lc processes)))"

section \<open>The solver module without a decision log\<close>

text \<open>
  \<^verbatim>\<open>src/unnamed/part_001\<close> is the same module without the log, with one more
  difference: its \<^verbatim>\<open>solveSRTF\<close> (lines 118-163) and \<^verbatim>\<open>solvePriorityP\<close> (207-252) never
  reset \<^verbatim>\<open>lastProcessId\<close>. Its other nine solvers are, statement for statement, the
  ones above.
\<close>

definition solveSRTF_nolog :: "(string \<Rightarrow> string \<Rightarrow> int) \<Rightarrow> Process list \<Rightarrow> (error + SchedulerOutput) option" where
  "solveSRTF_nolog lc processes = finish lc (pre_loop False selectSRTF processes)"

definition solvePriorityP_nolog :: "(string \<Rightarrow> string \<Rightarrow> int) \<Rightarrow> Process list \<Rightarrow> (error + SchedulerOutput) option" where
  "solvePriorityP_nolog lc processes = finish lc (pre_loop False selectPriorityP processes)"

definition solve_nolog ::
  "(string \<Rightarrow> string \<Rightarrow> int) \<Rightarrow> string \<Rightarrow> Process list \<Rightarrow> int \<Rightarrow> (error + SchedulerOutput) option" where
  "solve_nolog lc algorithm processes timeQuantum =
     (if algorithm = ''FCFS'' then Some (Inr (solveFCFS lc processes))
      else if algorithm = ''SJF (Non-Preemptive)'' then solveSJF lc processes
      else if algorithm = ''SRTF (Preemptive)'' then solveSRTF_nolog lc processes
      else if algorithm = ''Priority (Non-Preemptive)'' then solvePriorityNP lc processes
      else if algorithm = ''Priority (Preemptive)'' then solvePriorityP_nolog lc processes
      else if algorithm = ''Round Robin'' then solveRR lc processes timeQuantum
      else if algorithm = ''LJF (Non-Preemptive)'' then solveLJF lc processes
      else if algorithm = ''LRTF (Preemptive)'' then solveLRTF lc processes
      else if algorithm = ''HRRN'' then solveHRRN lc processes
      else if algorithm = ''Multilevel Queue'' then solveMLQ lc processes timeQuantum
      else if algorithm = ''Multilevel Feedback Queue (MLFQ)'' then solveMLFQ lc processes timeQuantum
      else Some (Inr (solveFCFS lc processes)))"

section \<open>Inputs of the examples\<close>

text \<open>The constant \<^verbatim>\<open>ALGORITHMS\<close> (lines 29-41).\<close>

definition ALGORITHMS :: "string list" where
  "ALGORITHMS = [''FCFS'', ''SJF (Non-Preemptive)'', ''SRTF (Preemptive)'',
     ''Priority (Non-Preemptive)'', ''Priority (Preemptive)'', ''Round Robin'',
     ''LJF (Non-Preemptive)'', ''LRTF (Preemptive)'', ''HRRN'', ''Multilevel Queue'',
     ''Multilevel Feedback Queue (MLFQ)'']"

text \<open>
  A concrete comparison for the closed examples: by code unit. On identifiers made of
  one letter and one digit it orders as the numeric-aware collation does.
\<close>

fun codeUnitCompare :: "string \<Rightarrow> string \<Rightarrow> int" where
  "codeUnitCompare [] [] = 0"
| "codeUnitCompare [] (y # ys) = - 1"
| "codeUnitCompare (x # xs) [] = 1"
| "codeUnitCompare (x # xs) (y # ys) =
     (if (of_char x :: nat) < of_char y then - 1
      else if (of_char y :: nat) < of_char x then 1
      else codeUnitCompare xs ys)"

definition mkProcess :: "string \<Rightarrow> int \<Rightarrow> int \<Rightarrow> int \<Rightarrow> Process" where
  "mkProcess i a b p = \<lparr>id' = i, arrivalTime = a, burstTime = b, priority = p\<rparr>"

text \<open>The four processes of the examples of the specification: P1(0,5) P2(2,3) P3(4,1) P4(6,4).\<close>

definition spec_example :: "Process list" where
  "spec_example =
     [mkProcess ''P1'' 0 5 2, mkProcess ''P2'' 2 3 1, mkProcess ''P3'' 4 1 3, mkProcess ''P4'' 6 4 2]"

section \<open>Invariants and measures of the loops\<close>

text \<open>The relations between the fields of the result of a finished process.\<close>

definition result_ok :: "ProcessResult \<Rightarrow> bool" where
  "result_ok r \<longleftrightarrow>
     turnaroundTime r = endTime r - arrivalTime r \<and>
     waitingTime r = turnaroundTime r - burstTime r \<and>
     0 \<le> waitingTime r"

text \<open>
  The counters of the solvers that keep \<^verbatim>\<open>remainingTime\<close>: a remaining time lies
  between 0 and the burst time, and \<open>completed\<close> counts the processes that have none left.
\<close>

definition count_inv :: "Process list \<Rightarrow> state \<Rightarrow> bool" where
  "count_inv ps s \<longleftrightarrow>
     length (remainingTime s) = length ps \<and>
     (\<forall>i<length ps. 0 \<le> remainingTime s ! i \<and> remainingTime s ! i \<le> burstTime (ps ! i)) \<and>
     completed s = card {i. i < length ps \<and> remainingTime s ! i = 0}"

text \<open>
  The results of these solvers: they keep the arrival and burst times of the input, the
  result of a finished process is well formed, and what a process has run, it has run
  after its arrival.
\<close>

definition wait_inv :: "Process list \<Rightarrow> state \<Rightarrow> bool" where
  "wait_inv ps s \<longleftrightarrow>
     length (results s) = length ps \<and>
     (\<forall>i<length ps.
        arrivalTime (results s ! i) = arrivalTime (ps ! i) \<and>
        burstTime (results s ! i) = burstTime (ps ! i) \<and>
        (remainingTime s ! i = 0 \<longrightarrow> result_ok (results s ! i)) \<and>
        (remainingTime s ! i < burstTime (ps ! i) \<longrightarrow>
           arrivalTime (ps ! i) + (burstTime (ps ! i) - remainingTime s ! i) \<le> currentTime s))"

text \<open>
  What a slice of \<open>d\<close> time units for \<open>idx\<close> does to the clock, the remaining times, the
  counter and the results, apart from what the solver does to its queues and its chart.
\<close>

definition after_slice :: "Process list \<Rightarrow> nat \<Rightarrow> int \<Rightarrow> state \<Rightarrow> state" where
  "after_slice ps idx d s =
     (let s1 = run ps idx d (mark_start idx s)
      in if remainingTime s1 ! idx = 0 then complete ps idx s1 else s1)"

text \<open>Two states that agree on these four fields.\<close>

definition same_run :: "state \<Rightarrow> state \<Rightarrow> bool" where
  "same_run s s' \<longleftrightarrow>
     remainingTime s = remainingTime s' \<and> results s = results s' \<and>
     currentTime s = currentTime s' \<and> completed s = completed s'"

text \<open>The time that a chart gives to the process named \<open>p\<close>.\<close>

definition block_time :: "string \<Rightarrow> GanttBlock list \<Rightarrow> int" where
  "block_time p g =
     sum_list (map (\<lambda>b. GanttBlock.endTime b - GanttBlock.startTime b) (filter (\<lambda>b. processId b = p) g))"

text \<open>
  No block starts before an earlier one has ended, and every block ends after it starts.
\<close>

definition chart_ok :: "GanttBlock list \<Rightarrow> bool" where
  "chart_ok g \<longleftrightarrow>
     sorted_wrt (\<lambda>a b. GanttBlock.endTime a \<le> GanttBlock.startTime b) g \<and>
     (\<forall>b\<in>set g. GanttBlock.startTime b < GanttBlock.endTime b)"

text \<open>
  The chart of a solver that keeps \<^verbatim>\<open>remainingTime\<close>: it lies in the past, names
  processes of the input, and gives each process the time it has run.
\<close>

definition gantt_inv :: "Process list \<Rightarrow> state \<Rightarrow> bool" where
  "gantt_inv ps s \<longleftrightarrow>
     chart_ok (ganttChart s) \<and>
     (\<forall>b\<in>set (ganttChart s). GanttBlock.endTime b \<le> currentTime s \<and> processId b \<in> id' ` set ps) \<and>
     (\<forall>i<length ps. block_time (id' (ps ! i)) (ganttChart s) = burstTime (ps ! i) - remainingTime s ! i)"

text \<open>The test of the admission loop of Round Robin.\<close>

definition rr_newcomer :: "Process list \<Rightarrow> state \<Rightarrow> nat \<Rightarrow> bool" where
  "rr_newcomer ps s i \<longleftrightarrow>
     \<not> visited s ! i \<and> arrivalTime (ps ! i) \<le> currentTime s \<and> remainingTime s ! i > 0"

text \<open>
  The queue of Round Robin holds, once each, the visited processes that have time
  remaining; a process not yet visited has not run.
\<close>

definition rr_queue_inv :: "Process list \<Rightarrow> state \<Rightarrow> bool" where
  "rr_queue_inv ps s \<longleftrightarrow>
     length (visited s) = length ps \<and> distinct (queue s) \<and>
     (\<forall>i\<in>set (queue s). i < length ps \<and> visited s ! i \<and> 0 < remainingTime s ! i) \<and>
     (\<forall>i<length ps. visited s ! i \<and> 0 < remainingTime s ! i \<longrightarrow> i \<in> set (queue s)) \<and>
     (\<forall>i<length ps. \<not> visited s ! i \<longrightarrow> remainingTime s ! i = burstTime (ps ! i))"

text \<open>The visited processes are those that have arrived.\<close>

definition rr_arrival_inv :: "Process list \<Rightarrow> state \<Rightarrow> bool" where
  "rr_arrival_inv ps s \<longleftrightarrow>
     (\<forall>i<length ps. if visited s ! i then arrivalTime (ps ! i) \<le> currentTime s
                     else currentTime s < arrivalTime (ps ! i))"

text \<open>The state in which the admission loop of a slice runs.\<close>

definition rr_ran :: "Process list \<Rightarrow> int \<Rightarrow> state \<Rightarrow> state" where
  "rr_ran ps q s =
     run ps (hd (queue s)) (min q (remainingTime s ! hd (queue s)))
       (mark_start (hd (queue s)) (s\<lparr>queue := tl (queue s)\<rparr>))"

text \<open>The total remaining time, which every slice decreases.\<close>

definition work_left :: "state \<Rightarrow> nat" where
  "work_left s = nat (sum_list (remainingTime s))"

text \<open>The invariant that makes the loop of Round Robin terminate.\<close>

definition rr_inv1 :: "Process list \<Rightarrow> state \<Rightarrow> bool" where
  "rr_inv1 ps s \<longleftrightarrow> count_inv ps s \<and> rr_queue_inv ps s"

text \<open>The invariant of Round Robin for inputs without negative arrival times.\<close>

definition rr_inv2 :: "Process list \<Rightarrow> state \<Rightarrow> bool" where
  "rr_inv2 ps s \<longleftrightarrow> rr_inv1 ps s \<and> wait_inv ps s \<and> rr_arrival_inv ps s"

text \<open>
  The queues \<open>Q\<close> of MLQ and MLFQ, taken together, hold once each the visited processes
  that have time remaining; a process not yet visited has not run.
\<close>

definition queued_inv :: "Process list \<Rightarrow> state \<Rightarrow> nat list \<Rightarrow> bool" where
  "queued_inv ps s Q \<longleftrightarrow>
     length (visited s) = length ps \<and> distinct Q \<and>
     set Q = {i. i < length ps \<and> visited s ! i \<and> 0 < remainingTime s ! i} \<and>
     (\<forall>i<length ps. \<not> visited s ! i \<longrightarrow> remainingTime s ! i = burstTime (ps ! i))"

text \<open>A visited process has arrived; after an admission loop the others have not.\<close>

definition visited_arrived :: "Process list \<Rightarrow> state \<Rightarrow> bool" where
  "visited_arrived ps s \<longleftrightarrow> (\<forall>i<length ps. visited s ! i \<longrightarrow> arrivalTime (ps ! i) \<le> currentTime s)"

definition all_admitted :: "Process list \<Rightarrow> state \<Rightarrow> bool" where
  "all_admitted ps s \<longleftrightarrow> (\<forall>i<length ps. \<not> visited s ! i \<longrightarrow> currentTime s < arrivalTime (ps ! i))"

text \<open>The latest arrival time, and 0 when no process arrives later than that.\<close>

definition max_arrival :: "Process list \<Rightarrow> int" where
  "max_arrival ps = foldr (\<lambda>p m. max (arrivalTime p) m) ps 0"

text \<open>The test of the admission loops of MLQ and MLFQ.\<close>

definition newcomer :: "Process list \<Rightarrow> state \<Rightarrow> nat \<Rightarrow> bool" where
  "newcomer ps s i \<longleftrightarrow> \<not> visited s ! i \<and> arrivalTime (ps ! i) \<le> currentTime s"

text \<open>The time until the latest arrival, which every idle tick decreases.\<close>

definition idle_left :: "Process list \<Rightarrow> state \<Rightarrow> nat" where
  "idle_left ps s = nat (max_arrival ps - currentTime s)"

text \<open>
  The state in which the admission loop of a slice of \<^verbatim>\<open>q1\<close> runs.
\<close>

definition mlq_ran :: "Process list \<Rightarrow> int \<Rightarrow> state \<Rightarrow> state" where
  "mlq_ran ps q s0 =
     run ps (hd (q1 s0)) (min q (remainingTime s0 ! hd (q1 s0)))
       (mark_start (hd (q1 s0)) (s0\<lparr>q1 := tl (q1 s0)\<rparr>))"

text \<open>
  The invariant of the loops of MLQ and MLFQ, \<open>Q\<close> being the queues of the solver.
\<close>

definition queue_level_inv :: "Process list \<Rightarrow> (state \<Rightarrow> nat list) \<Rightarrow> state \<Rightarrow> bool" where
  "queue_level_inv ps Q s \<longleftrightarrow>
     count_inv ps s \<and> queued_inv ps s (Q s) \<and> wait_inv ps s \<and> visited_arrived ps s \<and>
     (distinct (map id' ps) \<longrightarrow> gantt_inv ps s)"

text \<open>The length of the slice that \<open>mlfq_dispatch\<close> grants, and the state in which its admission loop runs.\<close>

definition mlfq_runTime :: "nat \<Rightarrow> int \<Rightarrow> nat \<Rightarrow> state \<Rightarrow> int" where
  "mlfq_runTime queueLevel quantum idx s =
     (if queueLevel = 2 then 1 else min (remainingTime s ! idx) quantum)"

definition mlfq_ran :: "Process list \<Rightarrow> nat \<Rightarrow> nat \<Rightarrow> int \<Rightarrow> state \<Rightarrow> state" where
  "mlfq_ran ps idx queueLevel quantum s =
     run ps idx (mlfq_runTime queueLevel quantum idx s) (mark_start idx s)"

text \<open>
  What a scan has found after \<open>k\<close> indices: nothing, or a ready index below \<open>k\<close>.
\<close>

definition scan_ok :: "(nat \<Rightarrow> bool) \<Rightarrow> nat \<Rightarrow> nat option \<Rightarrow> bool" where
  "scan_ok ready k idx \<longleftrightarrow> (case idx of None \<Rightarrow> True | Some i \<Rightarrow> i < k \<and> ready i)"

text \<open>
  The test of the scans of the preemptive solvers, and what the loop needs of a scan.
\<close>

definition pre_ready :: "Process list \<Rightarrow> state \<Rightarrow> nat \<Rightarrow> bool" where
  "pre_ready ps s i \<longleftrightarrow> arrivalTime (ps ! i) \<le> currentTime s \<and> 0 < remainingTime s ! i"

definition pre_select_ok :: "(Process list \<Rightarrow> state \<Rightarrow> error + nat option) \<Rightarrow> bool" where
  "pre_select_ok select \<longleftrightarrow>
     (\<forall>ps s. \<exists>r. select ps s = Inr r \<and>
        (case r of None \<Rightarrow> \<forall>j<length ps. \<not> pre_ready ps s j
         | Some i \<Rightarrow> i < length ps \<and> pre_ready ps s i))"

text \<open>No two neighbouring blocks name the same process and touch.\<close>

fun merged :: "GanttBlock list \<Rightarrow> bool" where
  "merged [] = True"
| "merged [b] = True"
| "merged (a # b # g) =
     (\<not> (processId a = processId b \<and> GanttBlock.endTime a = GanttBlock.startTime b) \<and> merged (b # g))"

text \<open>
  The chart of a preemptive solver: the last block is the one of \<^verbatim>\<open>lastProcessId\<close>,
  and it ends now when that process is still running.
\<close>

definition pre_gantt_inv :: "Process list \<Rightarrow> state \<Rightarrow> bool" where
  "pre_gantt_inv ps s \<longleftrightarrow>
     gantt_inv ps s \<and> merged (ganttChart s) \<and>
     (lastProcessId s \<noteq> [] \<longrightarrow>
        ganttChart s \<noteq> [] \<and> processId (last (ganttChart s)) = lastProcessId s) \<and>
     (\<forall>j<length ps. lastProcessId s = id' (ps ! j) \<longrightarrow>
        arrivalTime (ps ! j) \<le> currentTime s \<and>
        (0 < remainingTime s ! j \<longrightarrow> GanttBlock.endTime (last (ganttChart s)) = currentTime s)) \<and>
     (\<forall>j<length ps. ganttChart s \<noteq> [] \<and> processId (last (ganttChart s)) = id' (ps ! j) \<and>
        0 < remainingTime s ! j \<and> GanttBlock.endTime (last (ganttChart s)) = currentTime s \<longrightarrow>
        lastProcessId s = id' (ps ! j))"

text \<open>
  The invariants of the loop of the preemptive solvers, without and with the chart.
\<close>

definition pre_inv :: "Process list \<Rightarrow> state \<Rightarrow> bool" where
  "pre_inv ps s \<longleftrightarrow> count_inv ps s \<and> wait_inv ps s"

definition pre_inv_total :: "Process list \<Rightarrow> state \<Rightarrow> bool" where
  "pre_inv_total ps s \<longleftrightarrow>
     pre_inv ps s \<and> (ganttChart s = [] \<longrightarrow> lastProcessId s = []) \<and>
     (distinct (map id' ps) \<longrightarrow> pre_gantt_inv ps s)"

text \<open>
  The test of the scans of the non-preemptive solvers, and what the loop needs of a scan.
\<close>

definition np_ready :: "Process list \<Rightarrow> state \<Rightarrow> nat \<Rightarrow> bool" where
  "np_ready sortedP s i \<longleftrightarrow> arrivalTime (sortedP ! i) \<le> currentTime s \<and> \<not> isCompleted s ! i"

definition np_select_ok :: "(Process list \<Rightarrow> state \<Rightarrow> error + nat option) \<Rightarrow> Process list \<Rightarrow> bool" where
  "np_select_ok select sortedP \<longleftrightarrow>
     (\<forall>s. (select sortedP s = Inr None \<and> (\<forall>j<length sortedP. \<not> np_ready sortedP s j)) \<or>
          (\<exists>idx. select sortedP s = Inr (Some idx) \<and> idx < length sortedP \<and> np_ready sortedP s idx))"

text \<open>
  The loop of the non-preemptive solvers: \<open>completed\<close> counts the flags, every result
  is well formed, and the chart holds one block, of the length of its burst time, for each
  finished process.
\<close>

definition np_inv :: "Process list \<Rightarrow> state \<Rightarrow> bool" where
  "np_inv sortedP s \<longleftrightarrow>
     length (isCompleted s) = length sortedP \<and>
     completed s = card {i. i < length sortedP \<and> isCompleted s ! i} \<and>
     length (results s) = completed s \<and>
     (\<forall>r\<in>set (results s). result_ok r)"

definition np_gantt_inv :: "Process list \<Rightarrow> state \<Rightarrow> bool" where
  "np_gantt_inv sortedP s \<longleftrightarrow>
     chart_ok (ganttChart s) \<and>
     (\<forall>b\<in>set (ganttChart s). GanttBlock.endTime b \<le> currentTime s) \<and>
     (\<forall>i<length sortedP. block_time (id' (sortedP ! i)) (ganttChart s) =
        (if isCompleted s ! i then burstTime (sortedP ! i) else 0)) \<and>
     distinct (map processId (ganttChart s)) \<and>
     set (map processId (ganttChart s)) = {id' (sortedP ! i) |i. i < length sortedP \<and> isCompleted s ! i}"

text \<open>The number of processes still to run.\<close>

definition np_left :: "Process list \<Rightarrow> state \<Rightarrow> nat" where
  "np_left sortedP s = length sortedP - completed s"

definition np_inv_total :: "Process list \<Rightarrow> state \<Rightarrow> bool" where
  "np_inv_total sortedP s \<longleftrightarrow>
     np_inv sortedP s \<and> (distinct (map id' sortedP) \<longrightarrow> np_gantt_inv sortedP s)"

text \<open>
  The invariant of the \<^verbatim>\<open>forEach\<close> of FCFS over the prefix \<open>xs\<close> of the sorted list.
\<close>

definition fcfs_inv :: "Process list \<Rightarrow> state \<Rightarrow> bool" where
  "fcfs_inv xs s \<longleftrightarrow>
     length (results s) = length xs \<and> (\<forall>r\<in>set (results s). result_ok r) \<and>
     chart_ok (ganttChart s) \<and> (\<forall>b\<in>set (ganttChart s). GanttBlock.endTime b \<le> currentTime s) \<and>
     map processId (ganttChart s) = map id' xs \<and>
     (distinct (map id' xs) \<longrightarrow> (\<forall>p\<in>set xs. block_time (id' p) (ganttChart s) = burstTime p))"

text \<open>
  The bound on the clock: the latest arrival time (at least 0, where the clock
  starts) plus all the burst times.

  It is also the measure of the range in which the integers of the model compute what
  the doubles of the code compute. On an input with integer fields, arrival times of
  at least 0 and burst times of at least 1, every number that a solver adds to or
  subtracts from another (the clock, a remaining time, a slice, a start, end,
  turnaround or waiting time) is an integer of a magnitude of at most this bound; the
  priorities and the quantum are only compared, and the quantum doubled. Sums,
  differences and comparisons of such doubles are exact below \<open>2 ^ 53\<close>. The quotients
  that HRRN compares have a numerator and a denominator between 1 and the bound: when
  the bound is below \<open>2 ^ 26\<close>, two different quotients \<open>a / b > c / d\<close> differ by at
  least \<open>(a / b) / (a * d)\<close>, which is more than the spacing of the doubles around
  them, so that the rounded quotients are in the same order as the exact ones. The
  theorems on the times and on the chart that \<open>solve\<close> returns are therefore stated for
  inputs whose bound is below \<open>2 ^ 26\<close>. The input contract of the specification (at most
  20 processes, arrival times of at most 100 and burst times of at most 100) keeps the
  bound at 2100 or less.
\<close>

definition time_bound :: "Process list \<Rightarrow> int" where
  "time_bound ps = max_arrival ps + sum_list (map burstTime ps)"

text \<open>
  A valid input: distinct and non-empty identifiers, no negative arrival time, burst
  times of at least 1, a quantum of at least 1.
\<close>

definition valid_input :: "Process list \<Rightarrow> int \<Rightarrow> bool" where
  "valid_input ps q \<longleftrightarrow>
     distinct (map id' ps) \<and>
     (\<forall>p\<in>set ps. id' p \<noteq> [] \<and> 0 \<le> arrivalTime p \<and> 1 \<le> burstTime p) \<and>
     1 \<le> q"

text \<open>
  A finished chart for \<open>ps\<close>: every process has all its burst time, the blocks are in
  order, and each names a process of the input.
\<close>

definition chart_of :: "Process list \<Rightarrow> GanttBlock list \<Rightarrow> bool" where
  "chart_of ps g \<longleftrightarrow>
     (\<forall>p\<in>set ps. block_time (id' p) g = burstTime p) \<and> chart_ok g \<and>
     (\<forall>b\<in>set g. processId b \<in> id' ` set ps)"

text \<open>
  Outputs for the four processes of the examples, used in the closed instances below.
\<close>

definition srtf_example_output :: SchedulerOutput where
  "srtf_example_output =
     \<lparr>SchedulerOutput.results =
        [mkResult (mkProcess ''P1'' 0 5 2) 0 5 5 0,
         mkResult (mkProcess ''P2'' 2 3 1) 6 9 7 4,
         mkResult (mkProcess ''P3'' 4 1 3) 5 6 2 1,
         mkResult (mkProcess ''P4'' 6 4 2) 9 13 7 3],
      SchedulerOutput.ganttChart =
        [mkBlock ''P1'' 0 5, mkBlock ''P3'' 5 6, mkBlock ''P2'' 6 9, mkBlock ''P4'' 9 13],
      averageTurnaroundTime = 21 / 4,
      averageWaitingTime = 2\<rparr>"

definition mlfq_example_output :: SchedulerOutput where
  "mlfq_example_output =
     \<lparr>SchedulerOutput.results =
        [mkResult (mkProcess ''P1'' 0 5 2) 0 8 8 3,
         mkResult (mkProcess ''P2'' 2 3 1) 2 11 9 6,
         mkResult (mkProcess ''P3'' 4 1 3) 4 5 1 0,
         mkResult (mkProcess ''P4'' 6 4 2) 8 13 7 3],
      SchedulerOutput.ganttChart =
        [mkBlock ''P1'' 0 2, mkBlock ''P2'' 2 4, mkBlock ''P3'' 4 5, mkBlock ''P1'' 5 8,
         mkBlock ''P4'' 8 10, mkBlock ''P2'' 10 11, mkBlock ''P4'' 11 13],
      averageTurnaroundTime = 25 / 4,
      averageWaitingTime = 3\<rparr>"

definition lrtf_example_output :: SchedulerOutput where
  "lrtf_example_output =
     \<lparr>SchedulerOutput.results =
        [mkResult (mkProcess ''P1'' 0 5 2) 0 10 10 5,
         mkResult (mkProcess ''P2'' 2 3 1) 3 11 9 6,
         mkResult (mkProcess ''P3'' 4 1 3) 11 12 8 7,
         mkResult (mkProcess ''P4'' 6 4 2) 6 13 7 3],
      SchedulerOutput.ganttChart =
        [mkBlock ''P1'' 0 3, mkBlock ''P2'' 3 4, mkBlock ''P1'' 4 5, mkBlock ''P2'' 5 6,
         mkBlock ''P4'' 6 9, mkBlock ''P1'' 9 10, mkBlock ''P2'' 10 11, mkBlock ''P3'' 11 12,
         mkBlock ''P4'' 12 13],
      averageTurnaroundTime = 17 / 2,
      averageWaitingTime = 21 / 4\<rparr>"

text \<open>Three processes that are not listed in the order of their arrival.\<close>

definition rr_unsorted_example :: "Process list" where
  "rr_unsorted_example = [mkProcess ''A'' 0 5 0, mkProcess ''B'' 3 1 0, mkProcess ''C'' 1 1 0]"

text \<open>
  The state at the head of the loop of \<^verbatim>\<open>solveMLFQ\<close> after \<open>k\<close> iterations; \<open>None\<close> when
  the loop has ended before.
\<close>

fun mlfq_run :: "Process list \<Rightarrow> int \<Rightarrow> nat \<Rightarrow> state option" where
  "mlfq_run ps q 0 = Some (init_visit ps)"
| "mlfq_run ps q (Suc k) =
     (case mlfq_run ps q k of
        None \<Rightarrow> None
      | Some s \<Rightarrow>
          if completed s < length ps
          then (case mlfq_body ps q s of Next s' \<Rightarrow> Some s' | Break s' \<Rightarrow> None | Throw e \<Rightarrow> None)
          else None)"

text \<open>
  A process \<open>i\<close> that is in neither of the lower queues and has run not at all or
  to its end; and the result of such a process.
\<close>

definition short_inv :: "Process list \<Rightarrow> nat \<Rightarrow> state \<Rightarrow> bool" where
  "short_inv ps i s \<longleftrightarrow>
     length (remainingTime s) = length ps \<and>
     (\<forall>j\<in>set (q0 s @ q1 s @ q2 s). j < length ps) \<and>
     i \<notin> set (q1 s) \<and> i \<notin> set (q2 s) \<and>
     (remainingTime s ! i = burstTime (ps ! i) \<or> remainingTime s ! i = 0)"

definition once_inv :: "Process list \<Rightarrow> nat \<Rightarrow> state \<Rightarrow> bool" where
  "once_inv ps i s \<longleftrightarrow>
     (0 < remainingTime s ! i \<longrightarrow> startTime (results s ! i) = - 1) \<and>
     (remainingTime s ! i = 0 \<longrightarrow>
        endTime (results s ! i) = startTime (results s ! i) + burstTime (ps ! i))"

definition priority_example_output :: SchedulerOutput where
  "priority_example_output =
     \<lparr>SchedulerOutput.results =
        [mkResult (mkProcess ''P1'' 0 5 2) 0 8 8 3,
         mkResult (mkProcess ''P2'' 2 3 1) 2 5 3 0,
         mkResult (mkProcess ''P3'' 4 1 3) 12 13 9 8,
         mkResult (mkProcess ''P4'' 6 4 2) 8 12 6 2],
      SchedulerOutput.ganttChart =
        [mkBlock ''P1'' 0 2, mkBlock ''P2'' 2 5, mkBlock ''P1'' 5 8, mkBlock ''P4'' 8 12,
         mkBlock ''P3'' 12 13],
      averageTurnaroundTime = 13 / 2,
      averageWaitingTime = 13 / 4\<rparr>"

text \<open>
  The states of the two versions of a preemptive loop, \<open>s\<close> of the one that resets
  \<^verbatim>\<open>lastProcessId\<close> and \<open>t\<close> of the one that does not: they agree on everything else, and
  where they differ \<open>s\<close> holds the empty string and \<open>t\<close> the identifier of a finished
  process.
\<close>

definition log_rel :: "Process list \<Rightarrow> state \<Rightarrow> state \<Rightarrow> bool" where
  "log_rel ps s t \<longleftrightarrow>
     (\<exists>l. t = s\<lparr>lastProcessId := l\<rparr> \<and>
        (lastProcessId s = l \<or>
         (lastProcessId s = [] \<and> (\<exists>j<length ps. l = id' (ps ! j) \<and> remainingTime s ! j = 0))))"

definition time_inv :: "Process list \<Rightarrow> state \<Rightarrow> bool" where
  "time_inv ps s \<longleftrightarrow>
     length (results s) = length ps \<and>
     currentTime s + sum_list (remainingTime s) \<le> time_bound ps \<and>
     (\<forall>i<length ps. remainingTime s ! i = 0 \<longrightarrow> endTime (results s ! i) \<le> time_bound ps)"

text \<open>
  The burst times of the processes that a non-preemptive solver has still to run, and its clock.
\<close>

definition pending :: "Process list \<Rightarrow> state \<Rightarrow> int" where
  "pending sortedP s =
     (\<Sum>i\<in>{i. i < length sortedP \<and> \<not> isCompleted s ! i}. burstTime (sortedP ! i))"

definition np_time_inv :: "Process list \<Rightarrow> state \<Rightarrow> bool" where
  "np_time_inv sortedP s \<longleftrightarrow>
     currentTime s + pending sortedP s \<le> time_bound sortedP \<and>
     (\<forall>r\<in>set (results s). endTime r \<le> time_bound sortedP)"

section \<open>Properties of the loop combinator\<close>

lemma while_loop_exit: "\<not> b s \<Longrightarrow> while_loop b c s = Some (Inr s)"
  by (subst while_loop.simps) simp

lemma while_loop_invariant:
  assumes run: "while_loop b c s = Some (Inr t)"
    and init: "I s"
    and step: "\<And>u u'. I u \<Longrightarrow> b u \<Longrightarrow> c u = Next u' \<Longrightarrow> I u'"
    and brk: "\<And>u u'. I u \<Longrightarrow> b u \<Longrightarrow> c u = Break u' \<Longrightarrow> Q u'"
    and exit: "\<And>u. I u \<Longrightarrow> \<not> b u \<Longrightarrow> Q u"
  shows "Q t"
proof -
  have "b0 = b \<longrightarrow> c0 = c \<longrightarrow> I s0 \<longrightarrow> r = Inr t \<longrightarrow> Q t"
    if "while_loop b0 c0 s0 = Some r" for b0 c0 s0 r
  proof (rule while_loop.raw_induct [where P = "\<lambda>b0 c0 s0 r. b0 = b \<longrightarrow> c0 = c \<longrightarrow> I s0 \<longrightarrow> r = Inr t \<longrightarrow> Q t", OF _ that])
    fix w b1 c1 s1 r1
    assume 1: "\<And>b0 c0 s0 r. w b0 c0 s0 = Some r \<Longrightarrow> b0 = b \<longrightarrow> c0 = c \<longrightarrow> I s0 \<longrightarrow> r = Inr t \<longrightarrow> Q t"
      "(if b1 s1 then case c1 s1 of Next s' \<Rightarrow> w b1 c1 s' | Break s' \<Rightarrow> Some (Inr s') | Throw e \<Rightarrow> Some (Inl e)
        else Some (Inr s1)) = Some r1"
    show "b1 = b \<longrightarrow> c1 = c \<longrightarrow> I s1 \<longrightarrow> r1 = Inr t \<longrightarrow> Q t"
    proof (intro impI)
      assume eq: "b1 = b" "c1 = c" and inv: "I s1" and r: "r1 = Inr t"
      show "Q t"
      proof (cases "b s1")
        case False
        with 1(2) eq r have "s1 = t" by simp
        with exit [OF inv False] show ?thesis by simp
      next
        case True
        show ?thesis
        proof (cases "c s1")
          case (Next u')
          with 1(2) eq True have "w b c u' = Some r1" by simp
          from 1(1) [OF this] eq step [OF inv True Next] r show ?thesis by simp
        next
          case (Break u')
          with 1(2) eq True r have "u' = t" by simp
          with brk [OF inv True Break] show ?thesis by simp
        next
          case (Throw e)
          with 1(2) eq True r show ?thesis by simp
        qed
      qed
    qed
  qed
  from this [OF run] init show ?thesis by simp
qed

lemma while_loop_total:
  assumes wf: "wf R"
    and init: "I s"
    and step: "\<And>u. I u \<Longrightarrow> b u \<Longrightarrow> \<exists>u'. c u = Next u' \<and> I u' \<and> (u', u) \<in> R"
  shows "\<exists>t. while_loop b c s = Some (Inr t) \<and> I t \<and> \<not> b t"
  using wf init
proof (induction s rule: wf_induct_rule)
  case (less u)
  show ?case
  proof (cases "b u")
    case False
    with less.prems show ?thesis by (subst while_loop.simps) simp
  next
    case True
    from step [OF less.prems True] obtain u' where u': "c u = Next u'" "I u'" "(u', u) \<in> R"
      by blast
    from less.IH [OF u'(3) u'(2)] obtain t where "while_loop b c u' = Some (Inr t)" "I t" "\<not> b t"
      by blast
    with True u'(1) show ?thesis by (subst while_loop.simps) simp
  qed
qed

lemma while_loop_halts:
  assumes wf: "wf R"
    and init: "I s"
    and step: "\<And>u u'. I u \<Longrightarrow> b u \<Longrightarrow> c u = Next u' \<Longrightarrow> I u' \<and> (u', u) \<in> R"
  shows "\<exists>r. while_loop b c s = Some r"
  using wf init
proof (induction s rule: wf_induct_rule)
  case (less u)
  show ?case
  proof (cases "b u")
    case False
    then show ?thesis by (subst while_loop.simps) simp
  next
    case True
    show ?thesis
    proof (cases "c u")
      case (Next u')
      from step [OF less.prems True Next] less.IH [of u']
      obtain r where "while_loop b c u' = Some r" by blast
      with True Next show ?thesis by (subst while_loop.simps) simp
    next
      case (Break u')
      with True show ?thesis by (subst while_loop.simps) simp
    next
      case (Throw e)
      with True show ?thesis by (subst while_loop.simps) simp
    qed
  qed
qed

lemma while_loop_sim_Some:
  assumes run: "while_loop b c s = Some r"
    and rel: "R s t"
    and cond: "\<And>u v. R u v \<Longrightarrow> b u = b' v"
    and step: "\<And>u v. R u v \<Longrightarrow> b u \<Longrightarrow> rel_outcome R (c u) (c' v)"
  shows "\<exists>r'. while_loop b' c' t = Some r' \<and> rel_sum (=) R r r'"
proof -
  have "b0 = b \<longrightarrow> c0 = c \<longrightarrow> (\<forall>t. R s0 t \<longrightarrow> (\<exists>r'. while_loop b' c' t = Some r' \<and> rel_sum (=) R r0 r'))"
    if "while_loop b0 c0 s0 = Some r0" for b0 c0 s0 r0
  proof (rule while_loop.raw_induct [where P = "\<lambda>b0 c0 s0 r0. b0 = b \<longrightarrow> c0 = c \<longrightarrow>
      (\<forall>t. R s0 t \<longrightarrow> (\<exists>r'. while_loop b' c' t = Some r' \<and> rel_sum (=) R r0 r'))", OF _ that])
    fix w b1 c1 s1 r1
    assume 1: "\<And>b0 c0 s0 r0. w b0 c0 s0 = Some r0 \<Longrightarrow> b0 = b \<longrightarrow> c0 = c \<longrightarrow>
      (\<forall>t. R s0 t \<longrightarrow> (\<exists>r'. while_loop b' c' t = Some r' \<and> rel_sum (=) R r0 r'))"
      "(if b1 s1 then case c1 s1 of Next s' \<Rightarrow> w b1 c1 s' | Break s' \<Rightarrow> Some (Inr s') | Throw e \<Rightarrow> Some (Inl e)
        else Some (Inr s1)) = Some r1"
    show "b1 = b \<longrightarrow> c1 = c \<longrightarrow>
      (\<forall>t. R s1 t \<longrightarrow> (\<exists>r'. while_loop b' c' t = Some r' \<and> rel_sum (=) R r1 r'))"
    proof (intro impI allI)
      fix t1
      assume eq: "b1 = b" "c1 = c" and rel1: "R s1 t1"
      show "\<exists>r'. while_loop b' c' t1 = Some r' \<and> rel_sum (=) R r1 r'"
      proof (cases "b s1")
        case False
        with cond [OF rel1] have "\<not> b' t1" by simp
        then have "while_loop b' c' t1 = Some (Inr t1)" by (subst while_loop.simps) simp
        moreover from 1(2) eq False have "r1 = Inr s1" by simp
        ultimately show ?thesis using rel1 by simp
      next
        case True
        with cond [OF rel1] have b': "b' t1" by simp
        from step [OF rel1 True] show ?thesis
        proof (cases rule: outcome.rel_cases)
          case (Next x y)
          with 1(2) eq True have "w b c x = Some r1" by simp
          from 1(1) [OF this] eq Next(3)
          obtain r' where "while_loop b' c' y = Some r'" "rel_sum (=) R r1 r'" by blast
          with b' Next(2) show ?thesis by (subst while_loop.simps) simp
        next
          case (Break x y)
          with 1(2) eq True have "r1 = Inr x" by simp
          moreover from b' Break(2) have "while_loop b' c' t1 = Some (Inr y)"
            by (subst while_loop.simps) simp
          ultimately show ?thesis using Break(3) by simp
        next
          case (Throw x y)
          with 1(2) eq True have "r1 = Inl x" by simp
          moreover from b' Throw(2) have "while_loop b' c' t1 = Some (Inl y)"
            by (subst while_loop.simps) simp
          ultimately show ?thesis using Throw(3) by simp
        qed
      qed
    qed
  qed
  from this [OF run] rel show ?thesis by simp
qed

lemma while_loop_sim:
  assumes rel: "R s t"
    and cond: "\<And>u v. R u v \<Longrightarrow> b u = b' v"
    and step: "\<And>u v. R u v \<Longrightarrow> b u \<Longrightarrow> rel_outcome R (c u) (c' v)"
  shows "rel_option (rel_sum (=) R) (while_loop b c s) (while_loop b' c' t)"
proof (cases "while_loop b c s")
  case (Some r)
  have "\<exists>r'. while_loop b' c' t = Some r' \<and> rel_sum (=) R r r'"
    by (rule while_loop_sim_Some [of b c s r R t b' c', OF Some rel cond step])
  with Some show ?thesis by auto
next
  case None
  show ?thesis
  proof (cases "while_loop b' c' t")
    case (Some r')
    have rel': "R\<inverse>\<inverse> t s" using rel by simp
    have cond': "\<And>u v. R\<inverse>\<inverse> u v \<Longrightarrow> b' u = b v" using cond by auto
    have step': "\<And>u v. R\<inverse>\<inverse> u v \<Longrightarrow> b' u \<Longrightarrow> rel_outcome R\<inverse>\<inverse> (c' u) (c v)"
    proof -
      fix u v assume "R\<inverse>\<inverse> u v" "b' u"
      then have "R v u" "b v" using cond by auto
      from step [OF this] show "rel_outcome R\<inverse>\<inverse> (c' u) (c v)"
        by (simp add: outcome.rel_flip)
    qed
    have "\<exists>r. while_loop b c s = Some r \<and> rel_sum (=) R\<inverse>\<inverse> r' r"
      by (rule while_loop_sim_Some [of b' c' t r' "R\<inverse>\<inverse>" s b c, OF Some rel' cond' step'])
    with None show ?thesis by auto
  next
    case None': None
    with None show ?thesis by simp
  qed
qed

section \<open>Concrete runs and the dispatcher\<close>

text \<open>
  C9. For P1(0,5), P2(2,3), P3(4,1), P4(6,4) the FCFS solver gives the completion times
  5, 8, 9, 13, the turnaround times 5, 6, 5, 7, the waiting times 0, 3, 4, 3, the average
  turnaround time 5.75 and the average waiting time 2.5, whatever the comparison of
  identifiers that orders the results.
\<close>

theorem fcfs_spec_example:
  "solve lc ''FCFS'' spec_example q =
     Some (Inr \<lparr>SchedulerOutput.results = sortJS (\<lambda>a b. lc (id' a) (id' b))
                  [mkResult (mkProcess ''P1'' 0 5 2) 0 5 5 0,
                   mkResult (mkProcess ''P2'' 2 3 1) 5 8 6 3,
                   mkResult (mkProcess ''P3'' 4 1 3) 8 9 5 4,
                   mkResult (mkProcess ''P4'' 6 4 2) 9 13 7 3],
                SchedulerOutput.ganttChart =
                  [mkBlock ''P1'' 0 5, mkBlock ''P2'' 5 8, mkBlock ''P3'' 8 9, mkBlock ''P4'' 9 13],
                averageTurnaroundTime = 23 / 4,
                averageWaitingTime = 5 / 2\<rparr>)"
  by (simp add: solve_def solveFCFS_def spec_example_def mkProcess_def sortJS_def byArrival_def
      fcfs_step_def init_state_def calculateAverages_def average_def mkResult_def mkBlock_def)

text \<open>
  C7. For every algorithm name, solving the empty process list returns normally, with
  no results, an empty chart and both averages 0.
\<close>

theorem solve_empty_list:
  "solve lc algorithm [] q =
     Some (Inr \<lparr>SchedulerOutput.results = [], SchedulerOutput.ganttChart = [],
                averageTurnaroundTime = 0, averageWaitingTime = 0\<rparr>)"
  by (simp add: solve_def solveFCFS_def solveSJF_def solveSRTF_def solvePriorityNP_def
      solvePriorityP_def solveRR_def solveLJF_def solveLRTF_def solveHRRN_def solveMLQ_def
      solveMLFQ_def np_loop_def pre_loop_def rr_loop_def mlq_loop_def mlfq_loop_def
      while_loop_exit finish_def calculateAverages_def average_def sortJS_def init_state_def
      init_run_def rr_init_def init_visit_def)

text \<open>
  C4, as the code has it. A name that is not one of the eleven of \<^verbatim>\<open>ALGORITHMS\<close> takes
  the \<^verbatim>\<open>default\<close> branch: \<open>solve\<close> returns normally, with the output of \<open>solveFCFS\<close>.
\<close>

theorem solve_unknown_name_is_FCFS:
  "algorithm \<notin> set ALGORITHMS \<Longrightarrow>
   solve lc algorithm processes q = Some (Inr (solveFCFS lc processes))"
  by (simp add: solve_def ALGORITHMS_def)

theorem solve_unknown_name_is_FCFS_witness:
  "''SJF'' \<notin> set ALGORITHMS \<and>
   solve codeUnitCompare ''SJF'' spec_example 2 = Some (Inr (solveFCFS codeUnitCompare spec_example))"
proof -
  have h: "''SJF'' \<notin> set ALGORITHMS" by (simp add: ALGORITHMS_def)
  from h solve_unknown_name_is_FCFS [OF h] show ?thesis by simp
qed

text \<open>
  C4, as the specification states it, fails: the name \<^verbatim>\<open>"SJF"\<close> is not a policy
  identifier (the identifier is \<^verbatim>\<open>"SJF (Non-Preemptive)"\<close>), and \<open>solve\<close> answers with the
  FCFS schedule, in which P2 runs before the shorter P3, and with no error.
\<close>

theorem solve_unknown_name_no_error:
  "solve codeUnitCompare ''SJF'' spec_example 2 =
     Some (Inr \<lparr>SchedulerOutput.results =
                  [mkResult (mkProcess ''P1'' 0 5 2) 0 5 5 0,
                   mkResult (mkProcess ''P2'' 2 3 1) 5 8 6 3,
                   mkResult (mkProcess ''P3'' 4 1 3) 8 9 5 4,
                   mkResult (mkProcess ''P4'' 6 4 2) 9 13 7 3],
                SchedulerOutput.ganttChart =
                  [mkBlock ''P1'' 0 5, mkBlock ''P2'' 5 8, mkBlock ''P3'' 8 9, mkBlock ''P4'' 9 13],
                averageTurnaroundTime = 23 / 4,
                averageWaitingTime = 5 / 2\<rparr>)"
  by (simp add: solve_def solveFCFS_def spec_example_def mkProcess_def sortJS_def byArrival_def
      fcfs_step_def init_state_def calculateAverages_def average_def mkResult_def mkBlock_def)

section \<open>One slice: counters and results\<close>

lemma count_inv_cong: "same_run s s' \<Longrightarrow> count_inv ps s = count_inv ps s'"
  by (simp add: same_run_def count_inv_def)

lemma wait_inv_cong: "same_run s s' \<Longrightarrow> wait_inv ps s = wait_inv ps s'"
  by (simp add: same_run_def wait_inv_def)

lemma remainingTime_mark_start [simp]: "remainingTime (mark_start idx s) = remainingTime s"
  and currentTime_mark_start [simp]: "currentTime (mark_start idx s) = currentTime s"
  and completed_mark_start [simp]: "completed (mark_start idx s) = completed s"
  and ganttChart_mark_start [simp]: "ganttChart (mark_start idx s) = ganttChart s"
  and length_results_mark_start [simp]: "length (results (mark_start idx s)) = length (results s)"
  by (simp_all add: mark_start_def)

lemma results_mark_start_other: "i \<noteq> idx \<Longrightarrow> results (mark_start idx s) ! i = results s ! i"
  by (simp add: mark_start_def)

lemma nth_update_same_field:
  assumes "\<And>x. f (g x) = f x"
  shows "f (xs[i := g (xs ! i)] ! j) = f (xs ! j)"
proof (cases "i < length xs")
  case True
  then show ?thesis using assms by (cases "i = j") simp_all
next
  case False
  then show ?thesis by (simp add: list_update_beyond)
qed

lemma results_mark_start_fields:
  "arrivalTime (results (mark_start idx s) ! i) = arrivalTime (results s ! i)"
  "burstTime (results (mark_start idx s) ! i) = burstTime (results s ! i)"
  "id' (results (mark_start idx s) ! i) = id' (results s ! i)"
  "endTime (results (mark_start idx s) ! i) = endTime (results s ! i)"
  "turnaroundTime (results (mark_start idx s) ! i) = turnaroundTime (results s ! i)"
  "waitingTime (results (mark_start idx s) ! i) = waitingTime (results s ! i)"
  by (simp_all add: mark_start_def
      nth_update_same_field [where g = "\<lambda>r. r\<lparr>startTime := currentTime s\<rparr>"])

lemma after_slice_fields:
  "remainingTime (after_slice ps idx d s) = (remainingTime s)[idx := remainingTime s ! idx - d]"
  "currentTime (after_slice ps idx d s) = currentTime s + d"
  "completed (after_slice ps idx d s) =
     (if (remainingTime s)[idx := remainingTime s ! idx - d] ! idx = 0 then completed s + 1 else completed s)"
  "ganttChart (after_slice ps idx d s) =
     ganttChart s @ [mkBlock (id' (ps ! idx)) (currentTime s) (currentTime s + d)]"
  "length (results (after_slice ps idx d s)) = length (results s)"
  by (simp_all add: after_slice_def Let_def run_def complete_def)

lemma results_after_slice_other:
  "i \<noteq> idx \<Longrightarrow> results (after_slice ps idx d s) ! i = results s ! i"
  by (simp add: after_slice_def Let_def run_def complete_def results_mark_start_other)

lemma card_zero_set_update:
  fixes xs :: "int list"
  assumes "idx < n" "n = length xs" "xs ! idx \<noteq> 0"
  shows "card {i. i < n \<and> xs[idx := v] ! i = 0} =
         (if v = 0 then card {i. i < n \<and> xs ! i = 0} + 1 else card {i. i < n \<and> xs ! i = 0})"
proof (cases "v = 0")
  case True
  have "{i. i < n \<and> xs[idx := v] ! i = 0} = insert idx {i. i < n \<and> xs ! i = 0}"
    using assms True by (auto simp: nth_list_update)
  moreover have "idx \<notin> {i. i < n \<and> xs ! i = 0}" using assms by simp
  moreover have "finite {i. i < n \<and> xs ! i = 0}" by simp
  ultimately show ?thesis using True by simp
next
  case False
  have "{i. i < n \<and> xs[idx := v] ! i = 0} = {i. i < n \<and> xs ! i = 0}"
    using assms False by (auto simp: nth_list_update)
  with False show ?thesis by simp
qed

lemma count_inv_after_slice:
  assumes inv: "count_inv ps s" and idx: "idx < length ps"
    and d: "0 < d" "d \<le> remainingTime s ! idx"
  shows "count_inv ps (after_slice ps idx d s)"
proof -
  let ?r = "remainingTime s"
  from inv have len: "length ?r = length ps"
    and rng: "\<And>i. i < length ps \<Longrightarrow> 0 \<le> ?r ! i \<and> ?r ! i \<le> burstTime (ps ! i)"
    and cnt: "completed s = card {i. i < length ps \<and> ?r ! i = 0}"
    by (simp_all add: count_inv_def)
  have nz: "?r ! idx \<noteq> 0" using d by simp
  have upd: "?r[idx := ?r ! idx - d] ! idx = ?r ! idx - d" using idx len by simp
  have "card {i. i < length ps \<and> ?r[idx := ?r ! idx - d] ! i = 0} =
        (if ?r ! idx - d = 0 then card {i. i < length ps \<and> ?r ! i = 0} + 1
         else card {i. i < length ps \<and> ?r ! i = 0})"
    by (rule card_zero_set_update [OF idx len [symmetric] nz])
  moreover have "\<forall>i<length ps. 0 \<le> ?r[idx := ?r ! idx - d] ! i \<and>
      ?r[idx := ?r ! idx - d] ! i \<le> burstTime (ps ! i)"
  proof (intro allI impI)
    fix i assume i: "i < length ps"
    show "0 \<le> ?r[idx := ?r ! idx - d] ! i \<and> ?r[idx := ?r ! idx - d] ! i \<le> burstTime (ps ! i)"
    proof (cases "i = idx")
      case True
      with rng [OF idx] d upd show ?thesis by simp
    next
      case False
      with rng [OF i] show ?thesis by simp
    qed
  qed
  ultimately show ?thesis
    using len cnt upd by (simp add: count_inv_def after_slice_fields)
qed

lemma results_after_slice_idx:
  assumes "idx < length (results s)" "idx < length (remainingTime s)"
  shows "arrivalTime (results (after_slice ps idx d s) ! idx) = arrivalTime (results s ! idx)"
    "burstTime (results (after_slice ps idx d s) ! idx) = burstTime (results s ! idx)"
    "id' (results (after_slice ps idx d s) ! idx) = id' (results s ! idx)"
    "remainingTime s ! idx = d \<Longrightarrow>
       endTime (results (after_slice ps idx d s) ! idx) = currentTime s + d \<and>
       turnaroundTime (results (after_slice ps idx d s) ! idx) = currentTime s + d - arrivalTime (ps ! idx) \<and>
       waitingTime (results (after_slice ps idx d s) ! idx) =
         currentTime s + d - arrivalTime (ps ! idx) - burstTime (ps ! idx)"
  using assms
  by (simp_all add: after_slice_def Let_def run_def complete_def finalize_def results_mark_start_fields)

lemma wait_inv_after_slice:
  assumes inv: "wait_inv ps s" and cinv: "count_inv ps s" and idx: "idx < length ps"
    and d: "0 < d" "d \<le> remainingTime s ! idx"
    and arr: "arrivalTime (ps ! idx) \<le> currentTime s"
  shows "wait_inv ps (after_slice ps idx d s)"
proof -
  let ?s' = "after_slice ps idx d s"
  from cinv have lenr: "length (remainingTime s) = length ps"
    and rng: "\<And>i. i < length ps \<Longrightarrow> 0 \<le> remainingTime s ! i \<and> remainingTime s ! i \<le> burstTime (ps ! i)"
    by (simp_all add: count_inv_def)
  from inv have len: "length (results s) = length ps"
    and slot: "\<And>i. i < length ps \<Longrightarrow>
        arrivalTime (results s ! i) = arrivalTime (ps ! i) \<and>
        burstTime (results s ! i) = burstTime (ps ! i) \<and>
        (remainingTime s ! i = 0 \<longrightarrow> result_ok (results s ! i)) \<and>
        (remainingTime s ! i < burstTime (ps ! i) \<longrightarrow>
           arrivalTime (ps ! i) + (burstTime (ps ! i) - remainingTime s ! i) \<le> currentTime s)"
    by (simp_all add: wait_inv_def)
  have "arrivalTime (results ?s' ! i) = arrivalTime (ps ! i) \<and>
        burstTime (results ?s' ! i) = burstTime (ps ! i) \<and>
        (remainingTime ?s' ! i = 0 \<longrightarrow> result_ok (results ?s' ! i)) \<and>
        (remainingTime ?s' ! i < burstTime (ps ! i) \<longrightarrow>
           arrivalTime (ps ! i) + (burstTime (ps ! i) - remainingTime ?s' ! i) \<le> currentTime ?s')"
    if i: "i < length ps" for i
  proof (cases "i = idx")
    case False
    with slot [OF i] d show ?thesis
      by (auto simp add: after_slice_fields results_after_slice_other)
  next
    case True
    have i1: "idx < length (results s)" "idx < length (remainingTime s)"
      using idx len lenr by simp_all
    have rem': "remainingTime ?s' ! idx = remainingTime s ! idx - d"
      using i1 by (simp add: after_slice_fields)
    have w: "arrivalTime (ps ! idx) + (burstTime (ps ! idx) - (remainingTime s ! idx - d)) \<le> currentTime s + d"
      using slot [OF idx] rng [OF idx] arr by (cases "remainingTime s ! idx < burstTime (ps ! idx)") auto
    have ok: "result_ok (results ?s' ! idx)" if z: "remainingTime s ! idx = d"
      using results_after_slice_idx(4) [OF i1 z, of ps] results_after_slice_idx(1,2) [OF i1, of ps d]
        slot [OF idx] w z
      by (simp add: result_ok_def)
    show ?thesis
      unfolding True
      using results_after_slice_idx(1,2) [OF i1, of ps d] slot [OF idx] rem' w ok
      by (simp add: after_slice_fields)
  qed
  then show ?thesis
    using len by (simp add: wait_inv_def after_slice_fields)
qed

section \<open>One slice: the chart\<close>

lemma block_time_append [simp]: "block_time p (g @ h) = block_time p g + block_time p h"
  by (simp add: block_time_def)

lemma block_time_single [simp]:
  "block_time p [mkBlock p' a b] = (if p' = p then b - a else 0)"
  by (simp add: block_time_def mkBlock_def)

lemma mkBlock_fields [simp]:
  "processId (mkBlock p a b) = p"
  "GanttBlock.startTime (mkBlock p a b) = a"
  "GanttBlock.endTime (mkBlock p a b) = b"
  by (simp_all add: mkBlock_def)

lemma chart_ok_push:
  assumes "chart_ok g" "\<forall>b\<in>set g. GanttBlock.endTime b \<le> t0" "0 < d"
  shows "chart_ok (g @ [mkBlock p t0 (t0 + d)])"
  using assms by (simp add: chart_ok_def sorted_wrt_append)

lemma distinct_ids_nth:
  assumes "distinct (map id' ps)" "i < length ps" "j < length ps"
  shows "id' (ps ! i) = id' (ps ! j) \<longleftrightarrow> i = j"
proof -
  from assms have "map id' ps ! i = map id' ps ! j \<longleftrightarrow> i = j"
    by (intro nth_eq_iff_index_eq) simp_all
  with assms show ?thesis by simp
qed

lemma gantt_inv_push:
  assumes inv: "gantt_inv ps s" and ids: "distinct (map id' ps)" and idx: "idx < length ps"
    and len: "length (remainingTime s) = length ps" and d: "0 < d" and t0: "currentTime s \<le> t0"
    and g': "ganttChart s' = ganttChart s @ [mkBlock (id' (ps ! idx)) t0 (t0 + d)]"
    and r': "remainingTime s' = (remainingTime s)[idx := remainingTime s ! idx - d]"
    and t': "currentTime s' = t0 + d"
  shows "gantt_inv ps s'"
proof -
  from inv have ok: "chart_ok (ganttChart s)"
    and bl: "\<And>b. b \<in> set (ganttChart s) \<Longrightarrow> GanttBlock.endTime b \<le> currentTime s \<and> processId b \<in> id' ` set ps"
    and bt: "\<And>i. i < length ps \<Longrightarrow> block_time (id' (ps ! i)) (ganttChart s) = burstTime (ps ! i) - remainingTime s ! i"
    by (simp_all add: gantt_inv_def)
  have "\<forall>b\<in>set (ganttChart s). GanttBlock.endTime b \<le> t0" using bl t0 by fastforce
  from chart_ok_push [OF ok this d] have 1: "chart_ok (ganttChart s')" by (simp add: g')
  have 2: "GanttBlock.endTime b \<le> currentTime s' \<and> processId b \<in> id' ` set ps"
    if "b \<in> set (ganttChart s')" for b
  proof (cases "b \<in> set (ganttChart s)")
    case True
    with bl [OF True] t0 d t' show ?thesis by simp
  next
    case False
    with that g' have "b = mkBlock (id' (ps ! idx)) t0 (t0 + d)" by simp
    with idx t' show ?thesis by simp
  qed
  have 3: "block_time (id' (ps ! i)) (ganttChart s') = burstTime (ps ! i) - remainingTime s' ! i"
    if i: "i < length ps" for i
  proof (cases "i = idx")
    case True
    with bt [OF i] idx len show ?thesis by (simp add: g' r')
  next
    case False
    with distinct_ids_nth [OF ids idx i] bt [OF i] show ?thesis by (simp add: g' r')
  qed
  from 1 2 3 show ?thesis by (simp add: gantt_inv_def)
qed

lemma gantt_inv_idle:
  assumes "gantt_inv ps s" "ganttChart s' = ganttChart s" "remainingTime s' = remainingTime s"
    "currentTime s \<le> currentTime s'"
  shows "gantt_inv ps s'"
  using assms by (fastforce simp add: gantt_inv_def)

lemma count_inv_idle:
  assumes "count_inv ps s" "remainingTime s' = remainingTime s" "completed s' = completed s"
  shows "count_inv ps s'"
  using assms by (simp add: count_inv_def)

lemma wait_inv_idle:
  assumes "wait_inv ps s" "remainingTime s' = remainingTime s" "results s' = results s"
    "currentTime s \<le> currentTime s'"
  shows "wait_inv ps s'"
  using assms by (fastforce simp add: wait_inv_def)

section \<open>Round Robin\<close>

subsection \<open>The admission loop\<close>

lemma rr_admit_fields [simp]:
  "remainingTime (rr_admit ps s i) = remainingTime s"
  "currentTime (rr_admit ps s i) = currentTime s"
  "completed (rr_admit ps s i) = completed s"
  "results (rr_admit ps s i) = results s"
  "ganttChart (rr_admit ps s i) = ganttChart s"
  "length (visited (rr_admit ps s i)) = length (visited s)"
  by (simp_all add: rr_admit_def)

lemma rr_admit_newcomer_other:
  "j \<noteq> i \<Longrightarrow> rr_newcomer ps (rr_admit ps s i) j = rr_newcomer ps s j"
  by (simp add: rr_admit_def rr_newcomer_def)

lemma rr_admit_fold_fields [simp]:
  "remainingTime (foldl (rr_admit ps) s xs) = remainingTime s"
  "currentTime (foldl (rr_admit ps) s xs) = currentTime s"
  "completed (foldl (rr_admit ps) s xs) = completed s"
  "results (foldl (rr_admit ps) s xs) = results s"
  "ganttChart (foldl (rr_admit ps) s xs) = ganttChart s"
  "length (visited (foldl (rr_admit ps) s xs)) = length (visited s)"
  by (induction xs arbitrary: s; simp)+

lemma rr_admit_fold_queue:
  "distinct xs \<Longrightarrow>
   queue (foldl (rr_admit ps) s xs) = queue s @ filter (rr_newcomer ps s) xs"
proof (induction xs arbitrary: s)
  case Nil
  then show ?case by simp
next
  case (Cons x xs)
  have "filter (rr_newcomer ps (rr_admit ps s x)) xs = filter (rr_newcomer ps s) xs"
    using Cons.prems by (intro filter_cong refl rr_admit_newcomer_other) auto
  moreover have "queue (rr_admit ps s x) = queue s @ (if rr_newcomer ps s x then [x] else [])"
    by (simp add: rr_admit_def rr_newcomer_def)
  ultimately show ?case using Cons by simp
qed

lemma rr_admit_fold_visited:
  "distinct xs \<Longrightarrow> j < length (visited s) \<Longrightarrow>
   visited (foldl (rr_admit ps) s xs) ! j \<longleftrightarrow> visited s ! j \<or> (j \<in> set xs \<and> rr_newcomer ps s j)"
proof (induction xs arbitrary: s)
  case Nil
  then show ?case by simp
next
  case (Cons x xs)
  have v: "visited (rr_admit ps s x) ! j \<longleftrightarrow> visited s ! j \<or> (j = x \<and> rr_newcomer ps s j)"
    using Cons.prems(2) by (cases "j = x") (auto simp add: rr_admit_def rr_newcomer_def)
  have n: "j \<in> set xs \<Longrightarrow> rr_newcomer ps (rr_admit ps s x) j = rr_newcomer ps s j"
    using Cons.prems(1) by (intro rr_admit_newcomer_other) auto
  from Cons.prems have "visited (foldl (rr_admit ps) (rr_admit ps s x) xs) ! j \<longleftrightarrow>
      visited (rr_admit ps s x) ! j \<or> (j \<in> set xs \<and> rr_newcomer ps (rr_admit ps s x) j)"
    by (intro Cons.IH) simp_all
  with v n show ?case by auto
qed

subsection \<open>One slice\<close>

lemma mark_start_queue_fields [simp]:
  "queue (mark_start idx s) = queue s"
  "visited (mark_start idx s) = visited s"
  "q0 (mark_start idx s) = q0 s"
  "q1 (mark_start idx s) = q1 s"
  "q2 (mark_start idx s) = q2 s"
  "lastProcessId (mark_start idx s) = lastProcessId s"
  by (simp_all add: mark_start_def)

lemma results_mark_start_queue [simp]:
  "results (mark_start idx (s\<lparr>queue := x\<rparr>)) = results (mark_start idx s)"
  "results (mark_start idx (s\<lparr>q0 := x\<rparr>)) = results (mark_start idx s)"
  "results (mark_start idx (s\<lparr>q1 := x\<rparr>)) = results (mark_start idx s)"
  "results (mark_start idx (s\<lparr>q2 := x\<rparr>)) = results (mark_start idx s)"
  by (simp_all add: mark_start_def)

lemma run_fields [simp]:
  "remainingTime (run ps idx d s) = (remainingTime s)[idx := remainingTime s ! idx - d]"
  "currentTime (run ps idx d s) = currentTime s + d"
  "completed (run ps idx d s) = completed s"
  "results (run ps idx d s) = results s"
  "ganttChart (run ps idx d s) = ganttChart s @ [mkBlock (id' (ps ! idx)) (currentTime s) (currentTime s + d)]"
  "queue (run ps idx d s) = queue s"
  "visited (run ps idx d s) = visited s"
  "q0 (run ps idx d s) = q0 s"
  "q1 (run ps idx d s) = q1 s"
  "q2 (run ps idx d s) = q2 s"
  by (simp_all add: run_def)

lemma complete_fields [simp]:
  "remainingTime (complete ps idx s) = remainingTime s"
  "currentTime (complete ps idx s) = currentTime s"
  "completed (complete ps idx s) = completed s + 1"
  "ganttChart (complete ps idx s) = ganttChart s"
  "queue (complete ps idx s) = queue s"
  "visited (complete ps idx s) = visited s"
  "q0 (complete ps idx s) = q0 s"
  "q1 (complete ps idx s) = q1 s"
  "q2 (complete ps idx s) = q2 s"
  by (simp_all add: complete_def)

lemma rr_admit_fold_results_complete [simp]:
  "results (complete ps idx (foldl (rr_admit ps) s xs)) = results (complete ps idx s)"
  by (simp add: complete_def)

lemma rr_slice_alt:
  "rr_slice ps q s =
     (let s3 = foldl (rr_admit ps) (rr_ran ps q s) [0..<length ps]
      in if remainingTime s3 ! hd (queue s) > 0
         then s3\<lparr>queue := queue s3 @ [hd (queue s)]\<rparr>
         else complete ps (hd (queue s)) s3)"
  by (simp add: rr_slice_def rr_ran_def Let_def)

lemma rr_ran_fields [simp]:
  "remainingTime (rr_ran ps q s) =
     (remainingTime s)[hd (queue s) := remainingTime s ! hd (queue s) - min q (remainingTime s ! hd (queue s))]"
  "currentTime (rr_ran ps q s) = currentTime s + min q (remainingTime s ! hd (queue s))"
  "visited (rr_ran ps q s) = visited s"
  "queue (rr_ran ps q s) = tl (queue s)"
  "completed (rr_ran ps q s) = completed s"
  by (simp_all add: rr_ran_def)

lemma rr_slice_same_run:
  assumes "hd (queue s) < length (remainingTime s)" "min q (remainingTime s ! hd (queue s)) \<le> remainingTime s ! hd (queue s)"
  shows "same_run (rr_slice ps q s) (after_slice ps (hd (queue s)) (min q (remainingTime s ! hd (queue s))) s)"
    and "ganttChart (rr_slice ps q s) =
         ganttChart (after_slice ps (hd (queue s)) (min q (remainingTime s ! hd (queue s))) s)"
  using assms
  by (auto simp add: rr_slice_alt Let_def same_run_def after_slice_def rr_ran_def complete_def)

lemma rr_slice_queue:
  "queue (rr_slice ps q s) =
     tl (queue s) @ filter (rr_newcomer ps (rr_ran ps q s)) [0..<length ps] @
     (if 0 < remainingTime (rr_ran ps q s) ! hd (queue s) then [hd (queue s)] else [])"
  by (simp add: rr_slice_alt Let_def rr_admit_fold_queue)

lemma rr_slice_visited:
  assumes "j < length (visited s)"
  shows "visited (rr_slice ps q s) ! j \<longleftrightarrow>
         visited s ! j \<or> (j < length ps \<and> rr_newcomer ps (rr_ran ps q s) j)"
  using assms by (simp add: rr_slice_alt Let_def rr_admit_fold_visited)

lemma rr_slice_length_visited [simp]: "length (visited (rr_slice ps q s)) = length (visited s)"
  by (simp add: rr_slice_alt Let_def rr_ran_def)

lemma rr_slice_remainingTime:
  "remainingTime (rr_slice ps q s) = remainingTime (rr_ran ps q s)"
  by (simp add: rr_slice_alt Let_def)

lemma rr_slice_currentTime:
  "currentTime (rr_slice ps q s) = currentTime (rr_ran ps q s)"
  by (simp add: rr_slice_alt Let_def)

subsection \<open>The queue and the arrivals after a slice\<close>

lemma rr_queue_invD:
  assumes "rr_queue_inv ps s"
  shows "length (visited s) = length ps" and "distinct (queue s)"
    and "\<And>i. i \<in> set (queue s) \<Longrightarrow> i < length ps \<and> visited s ! i \<and> 0 < remainingTime s ! i"
    and "\<And>i. i < length ps \<Longrightarrow> visited s ! i \<Longrightarrow> 0 < remainingTime s ! i \<Longrightarrow> i \<in> set (queue s)"
    and "\<And>i. i < length ps \<Longrightarrow> \<not> visited s ! i \<Longrightarrow> remainingTime s ! i = burstTime (ps ! i)"
  using assms unfolding rr_queue_inv_def by blast+

lemma rr_slice_queue_inv:
  assumes inv: "rr_queue_inv ps s" and ne: "queue s \<noteq> []"
  shows "rr_queue_inv ps (rr_slice ps q s)"
proof -
  define idx where "idx = hd (queue s)"
  define rest where "rest = tl (queue s)"
  define s2 where "s2 = rr_ran ps q s"
  define N where "N = filter (rr_newcomer ps s2) [0..<length ps]"
  define R where "R = (if 0 < remainingTime s2 ! idx then [idx] else [])"
  have qs: "queue s = idx # rest" using ne by (simp add: idx_def rest_def)
  note lenv = rr_queue_invD(1) [OF inv] and dist = rr_queue_invD(2) [OF inv]
    and mem = rr_queue_invD(3) [OF inv] and all = rr_queue_invD(4) [OF inv]
    and unv = rr_queue_invD(5) [OF inv]
  have idx: "idx < length ps" "visited s ! idx" "idx \<notin> set rest" "distinct rest"
    using mem [of idx] dist qs by simp_all
  have q': "queue (rr_slice ps q s) = rest @ N @ R"
    by (simp add: rr_slice_queue N_def R_def s2_def idx_def rest_def)
  have v': "visited (rr_slice ps q s) ! j \<longleftrightarrow> visited s ! j \<or> rr_newcomer ps s2 j" if "j < length ps" for j
    using that lenv by (simp add: rr_slice_visited s2_def)
  have r': "remainingTime (rr_slice ps q s) = remainingTime s2"
    by (simp add: rr_slice_remainingTime s2_def)
  have other: "remainingTime s2 ! j = remainingTime s ! j" if "j \<noteq> idx" for j
    using that by (simp add: s2_def idx_def)
  have newc: "rr_newcomer ps s2 j \<Longrightarrow> \<not> visited s ! j \<and> 0 < remainingTime s2 ! j" for j
    by (simp add: rr_newcomer_def s2_def)
  have Nset: "j \<in> set N \<longleftrightarrow> j < length ps \<and> rr_newcomer ps s2 j" for j
    by (auto simp add: N_def)
  have restv: "j \<in> set rest \<Longrightarrow> j < length ps \<and> visited s ! j \<and> 0 < remainingTime s ! j \<and> j \<noteq> idx" for j
    using mem [of j] qs idx(3) by auto
  have dN: "distinct N" by (simp add: N_def)
  have d1: "set rest \<inter> set N = {}"
  proof (rule ccontr)
    assume "set rest \<inter> set N \<noteq> {}"
    then obtain j where "j \<in> set rest" "j \<in> set N" by blast
    with restv [of j] Nset [of j] newc [of j] show False by simp
  qed
  have d2: "idx \<notin> set N" using Nset [of idx] newc [of idx] idx(2) by blast
  have setR: "set R \<subseteq> {idx}" "distinct R" by (auto simp add: R_def)
  have 1: "distinct (rest @ N @ R)"
    using idx(3,4) dN d1 d2 setR by auto
  have 2: "i < length ps \<and> visited (rr_slice ps q s) ! i \<and> 0 < remainingTime s2 ! i"
    if "i \<in> set (rest @ N @ R)" for i
  proof -
    from that consider "i \<in> set rest" | "i \<in> set N" | "i \<in> set R" by auto
    then show ?thesis
    proof cases
      case 1
      with restv [OF 1] other [of i] v' [of i] show ?thesis by simp
    next
      case 2
      with Nset [of i] newc [of i] v' [of i] show ?thesis by simp
    next
      case 3
      then have "i = idx" "0 < remainingTime s2 ! idx" by (auto simp add: R_def split: if_splits)
      with idx v' [of idx] show ?thesis by simp
    qed
  qed
  have 3: "i \<in> set (rest @ N @ R)"
    if i: "i < length ps" and vi: "visited (rr_slice ps q s) ! i" and ri: "0 < remainingTime s2 ! i" for i
  proof (cases "rr_newcomer ps s2 i")
    case True
    with i Nset show ?thesis by simp
  next
    case False
    with vi v' [OF i] have vs: "visited s ! i" by simp
    show ?thesis
    proof (cases "i = idx")
      case True
      with ri show ?thesis by (simp add: R_def)
    next
      case False
      with ri other have "0 < remainingTime s ! i" by simp
      from all [OF i vs this] False qs show ?thesis by simp
    qed
  qed
  have 4: "remainingTime s2 ! i = burstTime (ps ! i)"
    if i: "i < length ps" and vi: "\<not> visited (rr_slice ps q s) ! i" for i
  proof -
    from vi v' [OF i] have nv: "\<not> visited s ! i" by simp
    with idx have "i \<noteq> idx" by auto
    with unv [OF i nv] other show ?thesis by simp
  qed
  have c1: "length (visited (rr_slice ps q s)) = length ps" using lenv by simp
  have c2: "distinct (queue (rr_slice ps q s))" using 1 by (simp only: q')
  have c3: "\<forall>i\<in>set (queue (rr_slice ps q s)). i < length ps \<and> visited (rr_slice ps q s) ! i \<and>
      0 < remainingTime (rr_slice ps q s) ! i"
    unfolding q' r' using 2 by blast
  have c4: "\<forall>i<length ps. visited (rr_slice ps q s) ! i \<and> 0 < remainingTime (rr_slice ps q s) ! i \<longrightarrow>
      i \<in> set (queue (rr_slice ps q s))"
    unfolding q' r' using 3 by blast
  have c5: "\<forall>i<length ps. \<not> visited (rr_slice ps q s) ! i \<longrightarrow>
      remainingTime (rr_slice ps q s) ! i = burstTime (ps ! i)"
    unfolding r' using 4 by blast
  show ?thesis
    unfolding rr_queue_inv_def by (intro conjI c1 c2 c3 c4 c5)
qed

lemma rr_slice_arrival_inv:
  assumes inv: "rr_queue_inv ps s" and ne: "queue s \<noteq> []"
    and arr: "\<forall>i<length ps. visited s ! i \<longrightarrow> arrivalTime (ps ! i) \<le> currentTime s"
    and burst: "\<forall>p\<in>set ps. 1 \<le> burstTime p" and q: "1 \<le> q"
  shows "rr_arrival_inv ps (rr_slice ps q s)"
proof -
  define idx where "idx = hd (queue s)"
  define s2 where "s2 = rr_ran ps q s"
  note lenv = rr_queue_invD(1) [OF inv] and mem = rr_queue_invD(3) [OF inv]
    and unv = rr_queue_invD(5) [OF inv]
  have idx: "idx < length ps" "visited s ! idx" "0 < remainingTime s ! idx"
    using mem [of idx] ne by (simp_all add: idx_def)
  have t2: "currentTime s2 = currentTime s + min q (remainingTime s ! idx)"
    by (simp add: s2_def idx_def)
  have ge: "currentTime s \<le> currentTime s2" using t2 idx(3) q by simp
  have v': "visited (rr_slice ps q s) ! j \<longleftrightarrow> visited s ! j \<or> rr_newcomer ps s2 j" if "j < length ps" for j
    using that lenv by (simp add: rr_slice_visited s2_def)
  have other: "remainingTime s2 ! j = remainingTime s ! j" if "j \<noteq> idx" for j
    using that by (simp add: s2_def idx_def)
  have "if visited (rr_slice ps q s) ! i then arrivalTime (ps ! i) \<le> currentTime s2
        else currentTime s2 < arrivalTime (ps ! i)" if i: "i < length ps" for i
  proof (cases "visited s ! i")
    case True
    with arr i ge v' [OF i] show ?thesis by auto
  next
    case False
    with idx have ne: "i \<noteq> idx" by auto
    have "1 \<le> burstTime (ps ! i)" using burst i by simp
    with unv [OF i False] other [OF ne] have pos: "0 < remainingTime s2 ! i" by simp
    have "rr_newcomer ps s2 i \<longleftrightarrow> arrivalTime (ps ! i) \<le> currentTime s2"
      using False pos by (simp add: rr_newcomer_def s2_def)
    with False v' [OF i] show ?thesis by auto
  qed
  moreover have "currentTime (rr_slice ps q s) = currentTime s2"
    by (simp only: rr_slice_currentTime s2_def)
  ultimately show ?thesis
    unfolding rr_arrival_inv_def by simp
qed

subsection \<open>The remaining work\<close>

lemma sum_list_update_int:
  fixes xs :: "int list"
  shows "k < length xs \<Longrightarrow> sum_list (xs[k := x]) = sum_list xs - xs ! k + x"
proof (induction xs arbitrary: k)
  case Nil
  then show ?case by simp
next
  case (Cons y ys)
  then show ?case by (cases k) simp_all
qed

lemma count_invD:
  assumes "count_inv ps s"
  shows "length (remainingTime s) = length ps"
    and "\<And>i. i < length ps \<Longrightarrow> 0 \<le> remainingTime s ! i"
    and "\<And>i. i < length ps \<Longrightarrow> remainingTime s ! i \<le> burstTime (ps ! i)"
    and "completed s = card {i. i < length ps \<and> remainingTime s ! i = 0}"
  using assms unfolding count_inv_def by blast+

lemma count_inv_sum_nonneg:
  assumes "count_inv ps s"
  shows "0 \<le> sum_list (remainingTime s)"
proof (rule sum_list_nonneg)
  fix x assume "x \<in> set (remainingTime s)"
  then obtain i where "i < length (remainingTime s)" "x = remainingTime s ! i"
    by (auto simp add: in_set_conv_nth)
  with count_invD(1,2) [OF assms] show "0 \<le> x" by simp
qed

lemma work_left_decreases:
  assumes inv: "count_inv ps s" and idx: "idx < length ps" and d: "0 < d" "d \<le> remainingTime s ! idx"
    and r': "remainingTime s' = (remainingTime s)[idx := remainingTime s ! idx - d]"
  shows "work_left s' < work_left s"
proof -
  have "sum_list (remainingTime s') = sum_list (remainingTime s) - d"
    using idx count_invD(1) [OF inv] by (simp add: r' sum_list_update_int)
  moreover have "0 \<le> sum_list (remainingTime s')"
  proof (rule sum_list_nonneg)
    fix x assume "x \<in> set (remainingTime s')"
    then obtain i where i: "i < length ps" "x = remainingTime s' ! i"
      using count_invD(1) [OF inv] by (auto simp add: in_set_conv_nth r')
    show "0 \<le> x"
    proof (cases "i = idx")
      case True
      with i d count_invD(1) [OF inv] show ?thesis by (simp add: r')
    next
      case False
      with i count_invD(2) [OF inv, of i] show ?thesis by (simp add: r')
    qed
  qed
  ultimately show ?thesis using d by (simp add: work_left_def)
qed

lemma count_inv_unfinished:
  assumes inv: "count_inv ps s" and lt: "completed s < length ps"
  shows "\<exists>i<length ps. 0 < remainingTime s ! i"
proof (rule ccontr)
  assume "\<not> ?thesis"
  with count_invD(2) [OF inv] have "\<forall>i<length ps. remainingTime s ! i = 0"
    by (metis less_le not_less)
  then have "{i. i < length ps \<and> remainingTime s ! i = 0} = {..<length ps}" by auto
  with count_invD(4) [OF inv] lt show False by simp
qed

lemma count_inv_finished:
  assumes inv: "count_inv ps s" and ge: "\<not> completed s < length ps" and i: "i < length ps"
  shows "remainingTime s ! i = 0"
proof -
  let ?Z = "{i. i < length ps \<and> remainingTime s ! i = 0}"
  have sub: "?Z \<subseteq> {..<length ps}" by auto
  have "card ?Z \<le> length ps" using card_mono [OF _ sub] by simp
  with count_invD(4) [OF inv] ge have "card ?Z = card {..<length ps}" by simp
  with sub have "?Z = {..<length ps}" by (intro card_subset_eq) simp_all
  with i show ?thesis by blast
qed

subsection \<open>The search for the next arrival\<close>

lemma rr_next_fold_None:
  "foldl (rr_next ps s) acc xs = None \<longleftrightarrow> acc = None \<and> (\<forall>i\<in>set xs. visited s ! i)"
proof (induction xs arbitrary: acc)
  case Nil
  then show ?case by simp
next
  case (Cons x xs)
  show ?case by (simp add: Cons.IH) (auto simp add: rr_next_def split: option.splits)
qed

lemma rr_next_fold_Some:
  assumes "foldl (rr_next ps s) acc xs = Some (a, k)"
  shows "(acc = Some (a, k) \<or> (k \<in> set xs \<and> \<not> visited s ! k \<and> a = arrivalTime (ps ! k))) \<and>
         (\<forall>i\<in>set xs. \<not> visited s ! i \<longrightarrow> a \<le> arrivalTime (ps ! i)) \<and>
         (\<forall>a0 k0. acc = Some (a0, k0) \<longrightarrow> a \<le> a0)"
  using assms
proof (induction xs arbitrary: acc)
  case Nil
  then show ?case by simp
next
  case (Cons x xs)
  let ?acc' = "rr_next ps s acc x"
  from Cons.prems have f: "foldl (rr_next ps s) ?acc' xs = Some (a, k)" by simp
  note IH = Cons.IH [OF f]
  show ?case
  proof (cases "\<not> visited s ! x \<and> (case acc of None \<Rightarrow> True | Some (nextArr, nextIdx) \<Rightarrow> arrivalTime (ps ! x) < nextArr)")
    case True
    then have acc': "?acc' = Some (arrivalTime (ps ! x), x)" by (simp add: rr_next_def)
    with IH True show ?thesis by (cases acc) auto
  next
    case False
    then have acc': "?acc' = acc" unfolding rr_next_def by (simp only: if_False)
    with IH False show ?thesis by (cases acc) auto
  qed
qed

subsection \<open>One iteration\<close>

lemma rr_forward_fields [simp]:
  "remainingTime (rr_forward s a k) = remainingTime s"
  "results (rr_forward s a k) = results s"
  "completed (rr_forward s a k) = completed s"
  "ganttChart (rr_forward s a k) = ganttChart s"
  "currentTime (rr_forward s a k) = a"
  "queue (rr_forward s a k) = queue s @ [k]"
  "visited (rr_forward s a k) = (visited s)[k := True]"
  by (simp_all add: rr_forward_def)

lemma rr_forward_queue_inv:
  assumes inv: "rr_queue_inv ps s" and e: "queue s = []" and k: "k < length ps" "\<not> visited s ! k"
    and burst: "\<forall>p\<in>set ps. 1 \<le> burstTime p"
  shows "rr_queue_inv ps (rr_forward s a k)"
proof -
  note lenv = rr_queue_invD(1) [OF inv] and all = rr_queue_invD(4) [OF inv]
    and unv = rr_queue_invD(5) [OF inv]
  have bk: "1 \<le> burstTime (ps ! k)" using burst k by simp
  have vk: "(visited s)[k := True] ! i \<longleftrightarrow> visited s ! i \<or> i = k" if "i < length ps" for i
    using that lenv k by (cases "i = k") simp_all
  have c3: "\<forall>i\<in>set (queue (rr_forward s a k)). i < length ps \<and> visited (rr_forward s a k) ! i \<and>
      0 < remainingTime (rr_forward s a k) ! i"
    using e k unv [OF k] bk vk [OF k(1)] by simp
  have c4: "\<forall>i<length ps. visited (rr_forward s a k) ! i \<and> 0 < remainingTime (rr_forward s a k) ! i \<longrightarrow>
      i \<in> set (queue (rr_forward s a k))"
  proof (intro allI impI)
    fix i assume i: "i < length ps"
      and h: "visited (rr_forward s a k) ! i \<and> 0 < remainingTime (rr_forward s a k) ! i"
    show "i \<in> set (queue (rr_forward s a k))"
    proof (cases "i = k")
      case True
      then show ?thesis by simp
    next
      case False
      with h vk [OF i] have "visited s ! i" "0 < remainingTime s ! i" by simp_all
      from all [OF i this] e show ?thesis by simp
    qed
  qed
  have c5: "\<forall>i<length ps. \<not> visited (rr_forward s a k) ! i \<longrightarrow>
      remainingTime (rr_forward s a k) ! i = burstTime (ps ! i)"
    using vk unv by simp
  have c1: "length (visited (rr_forward s a k)) = length ps" using lenv by simp
  have c2: "distinct (queue (rr_forward s a k))" using e by simp
  show ?thesis unfolding rr_queue_inv_def by (intro conjI c1 c2 c3 c4 c5)
qed

lemma rr_body_shape:
  assumes cinv: "count_inv ps s" and qinv: "rr_queue_inv ps s" and lt: "completed s < length ps"
    and burst: "\<forall>p\<in>set ps. 1 \<le> burstTime p"
  shows "\<exists>s0. rr_body ps q s = Next (rr_slice ps q s0) \<and> queue s0 \<noteq> [] \<and> rr_queue_inv ps s0 \<and>
           remainingTime s0 = remainingTime s \<and> results s0 = results s \<and>
           completed s0 = completed s \<and> ganttChart s0 = ganttChart s \<and>
           (s0 = s \<or> (\<exists>k<length ps. queue s = [] \<and> \<not> visited s ! k \<and>
               (\<forall>i<length ps. \<not> visited s ! i \<longrightarrow> arrivalTime (ps ! k) \<le> arrivalTime (ps ! i)) \<and>
               s0 = rr_forward s (arrivalTime (ps ! k)) k))"
proof (cases "queue s = []")
  case False
  then have "rr_body ps q s = Next (rr_slice ps q s)" by (simp add: rr_body_def)
  with False qinv show ?thesis by blast
next
  case True
  from count_inv_unfinished [OF cinv lt] obtain i where i: "i < length ps" "0 < remainingTime s ! i"
    by blast
  have "\<not> visited s ! i"
  proof
    assume "visited s ! i"
    from rr_queue_invD(4) [OF qinv i(1) this i(2)] True show False by simp
  qed
  with i have "foldl (rr_next ps s) None [0..<length ps] \<noteq> None"
    by (auto simp add: rr_next_fold_None)
  then obtain a k where f: "foldl (rr_next ps s) None [0..<length ps] = Some (a, k)" by auto
  from rr_next_fold_Some [OF f]
  have k: "k < length ps" "\<not> visited s ! k" "a = arrivalTime (ps ! k)"
    and least: "\<forall>i<length ps. \<not> visited s ! i \<longrightarrow> a \<le> arrivalTime (ps ! i)"
    by auto
  have b: "rr_body ps q s = Next (rr_slice ps q (rr_forward s a k))"
    using True f by (simp add: rr_body_def)
  have qi: "rr_queue_inv ps (rr_forward s a k)"
    by (rule rr_forward_queue_inv [OF qinv True k(1,2) burst])
  show ?thesis
    apply (rule exI [of _ "rr_forward s a k"])
    using b qi k least True by auto
qed

lemma rr_slice_count_inv:
  assumes cinv: "count_inv ps s" and qinv: "rr_queue_inv ps s" and ne: "queue s \<noteq> []" and q: "1 \<le> q"
  shows "count_inv ps (rr_slice ps q s)" and "work_left (rr_slice ps q s) < work_left s"
proof -
  define idx where "idx = hd (queue s)"
  define d where "d = min q (remainingTime s ! idx)"
  have idx: "idx < length ps" "0 < remainingTime s ! idx"
    using rr_queue_invD(3) [OF qinv, of idx] ne by (simp_all add: idx_def)
  have d: "0 < d" "d \<le> remainingTime s ! idx" using idx q by (simp_all add: d_def)
  have len: "idx < length (remainingTime s)" using idx count_invD(1) [OF cinv] by simp
  have sr: "same_run (rr_slice ps q s) (after_slice ps idx d s)"
    unfolding idx_def d_def
    by (rule rr_slice_same_run(1)) (use len d in \<open>simp_all add: idx_def d_def\<close>)
  from count_inv_after_slice [OF cinv idx(1) d] count_inv_cong [OF sr]
  show "count_inv ps (rr_slice ps q s)" by simp
  have "remainingTime (rr_slice ps q s) = (remainingTime s)[idx := remainingTime s ! idx - d]"
    by (simp add: rr_slice_remainingTime idx_def d_def)
  from work_left_decreases [OF cinv idx(1) d this]
  show "work_left (rr_slice ps q s) < work_left s" .
qed

lemma rr_body_inv1:
  assumes inv: "rr_inv1 ps s" and lt: "completed s < length ps"
    and burst: "\<forall>p\<in>set ps. 1 \<le> burstTime p" and q: "1 \<le> q"
  shows "\<exists>s'. rr_body ps q s = Next s' \<and> rr_inv1 ps s' \<and> work_left s' < work_left s"
proof -
  from inv have cinv: "count_inv ps s" and qinv: "rr_queue_inv ps s" by (simp_all add: rr_inv1_def)
  from rr_body_shape [OF cinv qinv lt burst, of q] obtain s0 where
    b: "rr_body ps q s = Next (rr_slice ps q s0)" and ne: "queue s0 \<noteq> []"
    and q0: "rr_queue_inv ps s0" and r0: "remainingTime s0 = remainingTime s"
    and c0: "completed s0 = completed s" by blast
  have cinv0: "count_inv ps s0" by (rule count_inv_idle [OF cinv r0 c0])
  have "work_left s0 = work_left s" by (simp add: work_left_def r0)
  with rr_slice_count_inv [OF cinv0 q0 ne q] rr_slice_queue_inv [OF q0 ne, of q] b
  show ?thesis by (simp add: rr_inv1_def)
qed

lemma rr_arrival_invD:
  assumes "rr_arrival_inv ps s"
  shows "\<And>i. i < length ps \<Longrightarrow> visited s ! i \<Longrightarrow> arrivalTime (ps ! i) \<le> currentTime s"
    and "\<And>i. i < length ps \<Longrightarrow> \<not> visited s ! i \<Longrightarrow> currentTime s < arrivalTime (ps ! i)"
  using assms unfolding rr_arrival_inv_def by (metis (full_types))+

lemma rr_slice_wait_gantt:
  assumes cinv: "count_inv ps s" and qinv: "rr_queue_inv ps s" and ne: "queue s \<noteq> []" and q: "1 \<le> q"
    and arr: "\<forall>i<length ps. visited s ! i \<longrightarrow> arrivalTime (ps ! i) \<le> currentTime s"
  shows "wait_inv ps s \<Longrightarrow> wait_inv ps (rr_slice ps q s)"
    and "gantt_inv ps s \<Longrightarrow> distinct (map id' ps) \<Longrightarrow> gantt_inv ps (rr_slice ps q s)"
proof -
  define idx where "idx = hd (queue s)"
  define d where "d = min q (remainingTime s ! idx)"
  have idx: "idx < length ps" "visited s ! idx" "0 < remainingTime s ! idx"
    using rr_queue_invD(3) [OF qinv, of idx] ne by (simp_all add: idx_def)
  have d: "0 < d" "d \<le> remainingTime s ! idx" using idx q by (simp_all add: d_def)
  have lenr: "length (remainingTime s) = length ps" by (rule count_invD(1) [OF cinv])
  have len: "idx < length (remainingTime s)" using idx lenr by simp
  have sr: "same_run (rr_slice ps q s) (after_slice ps idx d s)"
    unfolding idx_def d_def
    by (rule rr_slice_same_run(1)) (use len d in \<open>simp_all add: idx_def d_def\<close>)
  have g: "ganttChart (rr_slice ps q s) = ganttChart (after_slice ps idx d s)"
    unfolding idx_def d_def
    by (rule rr_slice_same_run(2)) (use len d in \<open>simp_all add: idx_def d_def\<close>)
  have a: "arrivalTime (ps ! idx) \<le> currentTime s" using arr idx by simp
  show "wait_inv ps (rr_slice ps q s)" if w: "wait_inv ps s"
    using wait_inv_after_slice [OF w cinv idx(1) d a] wait_inv_cong [OF sr] by simp
  show "gantt_inv ps (rr_slice ps q s)" if gi: "gantt_inv ps s" and ids: "distinct (map id' ps)"
  proof (rule gantt_inv_push [OF gi ids idx(1) lenr d(1)])
    show "currentTime s \<le> currentTime s" by simp
    show "ganttChart (rr_slice ps q s) = ganttChart s @ [mkBlock (id' (ps ! idx)) (currentTime s) (currentTime s + d)]"
      by (simp add: g after_slice_fields)
    show "remainingTime (rr_slice ps q s) = (remainingTime s)[idx := remainingTime s ! idx - d]"
      by (simp add: rr_slice_remainingTime idx_def d_def)
    show "currentTime (rr_slice ps q s) = currentTime s + d"
      by (simp add: rr_slice_currentTime idx_def d_def)
  qed
qed

lemma rr_body_inv2_gantt:
  assumes inv: "rr_inv2 ps s" and lt: "completed s < length ps"
    and burst: "\<forall>p\<in>set ps. 1 \<le> burstTime p" and q: "1 \<le> q"
    and b: "rr_body ps q s = Next s'"
  shows "wait_inv ps s' \<and> rr_arrival_inv ps s'"
    and "gantt_inv ps s \<Longrightarrow> distinct (map id' ps) \<Longrightarrow> gantt_inv ps s'"
proof -
  from inv have cinv: "count_inv ps s" and qinv: "rr_queue_inv ps s"
    and winv: "wait_inv ps s" and ainv: "rr_arrival_inv ps s"
    by (simp_all add: rr_inv2_def rr_inv1_def)
  from rr_body_shape [OF cinv qinv lt burst, of q] b obtain s0 where
    s': "s' = rr_slice ps q s0" and ne: "queue s0 \<noteq> []"
    and q0: "rr_queue_inv ps s0" and r0: "remainingTime s0 = remainingTime s"
    and res0: "results s0 = results s" and g0: "ganttChart s0 = ganttChart s"
    and c0: "completed s0 = completed s"
    and shape: "s0 = s \<or> (\<exists>k<length ps. queue s = [] \<and> \<not> visited s ! k \<and>
               (\<forall>i<length ps. \<not> visited s ! i \<longrightarrow> arrivalTime (ps ! k) \<le> arrivalTime (ps ! i)) \<and>
               s0 = rr_forward s (arrivalTime (ps ! k)) k)"
    by auto
  have cinv0: "count_inv ps s0" by (rule count_inv_idle [OF cinv r0 c0])
  have t0: "currentTime s \<le> currentTime s0"
    and arr0: "\<forall>i<length ps. visited s0 ! i \<longrightarrow> arrivalTime (ps ! i) \<le> currentTime s0"
  proof -
    from shape show "currentTime s \<le> currentTime s0"
    proof
      assume "s0 = s" then show ?thesis by simp
    next
      assume "\<exists>k<length ps. queue s = [] \<and> \<not> visited s ! k \<and>
               (\<forall>i<length ps. \<not> visited s ! i \<longrightarrow> arrivalTime (ps ! k) \<le> arrivalTime (ps ! i)) \<and>
               s0 = rr_forward s (arrivalTime (ps ! k)) k"
      then obtain k where k: "k < length ps" "\<not> visited s ! k" "s0 = rr_forward s (arrivalTime (ps ! k)) k"
        by blast
      with rr_arrival_invD(2) [OF ainv k(1,2)] show ?thesis by simp
    qed
    from shape show "\<forall>i<length ps. visited s0 ! i \<longrightarrow> arrivalTime (ps ! i) \<le> currentTime s0"
    proof
      assume "s0 = s" with rr_arrival_invD(1) [OF ainv] show ?thesis by simp
    next
      assume "\<exists>k<length ps. queue s = [] \<and> \<not> visited s ! k \<and>
               (\<forall>i<length ps. \<not> visited s ! i \<longrightarrow> arrivalTime (ps ! k) \<le> arrivalTime (ps ! i)) \<and>
               s0 = rr_forward s (arrivalTime (ps ! k)) k"
      then obtain k where k: "k < length ps" "\<not> visited s ! k" "s0 = rr_forward s (arrivalTime (ps ! k)) k"
        by blast
      show ?thesis
      proof (intro allI impI)
        fix i assume i: "i < length ps" and v: "visited s0 ! i"
        show "arrivalTime (ps ! i) \<le> currentTime s0"
        proof (cases "i = k")
          case True
          with k show ?thesis by simp
        next
          case False
          with v k have "visited s ! i" by simp
          from rr_arrival_invD(1) [OF ainv i this] rr_arrival_invD(2) [OF ainv k(1,2)] k(3)
          show ?thesis by simp
        qed
      qed
    qed
  qed
  have w0: "wait_inv ps s0" by (rule wait_inv_idle [OF winv r0 res0 t0])
  from rr_slice_wait_gantt(1) [OF cinv0 q0 ne q arr0 w0]
    rr_slice_arrival_inv [OF q0 ne arr0 burst q]
  show "wait_inv ps s' \<and> rr_arrival_inv ps s'" by (simp add: s')
  show "gantt_inv ps s'" if gi: "gantt_inv ps s" and ids: "distinct (map id' ps)"
  proof -
    have "gantt_inv ps s0" by (rule gantt_inv_idle [OF gi g0 r0 t0])
    from rr_slice_wait_gantt(2) [OF cinv0 q0 ne q arr0 this ids] show ?thesis by (simp add: s')
  qed
qed

subsection \<open>The loop of Round Robin\<close>

lemma init_run_fields [simp]:
  "remainingTime (init_run ps) = map burstTime ps"
  "results (init_run ps) = map (\<lambda>p. mkResult p (- 1) 0 0 0) ps"
  "currentTime (init_run ps) = 0"
  "completed (init_run ps) = 0"
  "ganttChart (init_run ps) = []"
  "queue (init_run ps) = []"
  "q0 (init_run ps) = []"
  "q1 (init_run ps) = []"
  "q2 (init_run ps) = []"
  "lastProcessId (init_run ps) = []"
  by (simp_all add: init_run_def init_state_def)

lemma mkResult_fields [simp]:
  "id' (mkResult p s e t w) = id' p"
  "arrivalTime (mkResult p s e t w) = arrivalTime p"
  "burstTime (mkResult p s e t w) = burstTime p"
  "priority (mkResult p s e t w) = priority p"
  "startTime (mkResult p s e t w) = s"
  "endTime (mkResult p s e t w) = e"
  "turnaroundTime (mkResult p s e t w) = t"
  "waitingTime (mkResult p s e t w) = w"
  by (simp_all add: mkResult_def)

lemma count_inv_init:
  assumes "remainingTime s = map burstTime ps" "completed s = 0" "\<forall>p\<in>set ps. 1 \<le> burstTime p"
  shows "count_inv ps s"
proof -
  have "{i. i < length ps \<and> map burstTime ps ! i = 0} = {}"
    using assms(3) by (auto simp add: all_set_conv_all_nth)
  with assms show ?thesis by (auto simp add: count_inv_def all_set_conv_all_nth)
qed

lemma wait_inv_init:
  assumes "remainingTime s = map burstTime ps" "results s = map (\<lambda>p. mkResult p (- 1) 0 0 0) ps"
    "\<forall>p\<in>set ps. 1 \<le> burstTime p"
  shows "wait_inv ps s"
  using assms by (auto simp add: wait_inv_def all_set_conv_all_nth)

lemma gantt_inv_init:
  assumes "remainingTime s = map burstTime ps" "ganttChart s = []"
  shows "gantt_inv ps s"
  using assms by (simp add: gantt_inv_def chart_ok_def block_time_def)

lemma rr_seed_fold_fields [simp]:
  "remainingTime (foldl (rr_seed ps) s xs) = remainingTime s"
  "currentTime (foldl (rr_seed ps) s xs) = currentTime s"
  "completed (foldl (rr_seed ps) s xs) = completed s"
  "results (foldl (rr_seed ps) s xs) = results s"
  "ganttChart (foldl (rr_seed ps) s xs) = ganttChart s"
  "length (visited (foldl (rr_seed ps) s xs)) = length (visited s)"
  by (induction xs arbitrary: s; simp add: rr_seed_def)+

lemma rr_seed_fold_queue:
  "queue (foldl (rr_seed ps) s xs) = queue s @ filter (\<lambda>i. arrivalTime (ps ! i) = 0) xs"
  by (induction xs arbitrary: s) (simp_all add: rr_seed_def)

lemma rr_seed_fold_visited:
  "j < length (visited s) \<Longrightarrow>
   visited (foldl (rr_seed ps) s xs) ! j \<longleftrightarrow> visited s ! j \<or> (j \<in> set xs \<and> arrivalTime (ps ! j) = 0)"
proof (induction xs arbitrary: s)
  case Nil
  then show ?case by simp
next
  case (Cons x xs)
  have "visited (rr_seed ps s x) ! j \<longleftrightarrow> visited s ! j \<or> (j = x \<and> arrivalTime (ps ! j) = 0)"
    using Cons.prems by (cases "j = x") (auto simp add: rr_seed_def)
  moreover have "j < length (visited (rr_seed ps s x))" using Cons.prems by (simp add: rr_seed_def)
  ultimately show ?case using Cons.IH [of "rr_seed ps s x"] by auto
qed

lemma rr_init_fields [simp]:
  "remainingTime (rr_init ps) = map burstTime ps"
  "results (rr_init ps) = map (\<lambda>p. mkResult p (- 1) 0 0 0) ps"
  "currentTime (rr_init ps) = 0"
  "completed (rr_init ps) = 0"
  "ganttChart (rr_init ps) = []"
  "length (visited (rr_init ps)) = length ps"
  "queue (rr_init ps) = filter (\<lambda>i. arrivalTime (ps ! i) = 0) [0..<length ps]"
  by (simp_all add: rr_init_def rr_seed_fold_queue)

lemma rr_init_visited:
  "j < length ps \<Longrightarrow> visited (rr_init ps) ! j \<longleftrightarrow> arrivalTime (ps ! j) = 0"
  by (simp add: rr_init_def rr_seed_fold_visited)

lemma rr_init_inv1:
  assumes burst: "\<forall>p\<in>set ps. 1 \<le> burstTime p"
  shows "rr_inv1 ps (rr_init ps)"
proof -
  have c: "count_inv ps (rr_init ps)" by (rule count_inv_init) (simp_all add: burst)
  have b: "0 < burstTime (ps ! i)" if "i < length ps" for i
  proof -
    from burst that have "1 \<le> burstTime (ps ! i)" by simp
    then show ?thesis by simp
  qed
  have "rr_queue_inv ps (rr_init ps)"
    unfolding rr_queue_inv_def
    using b by (auto simp add: rr_init_visited)
  with c show ?thesis by (simp add: rr_inv1_def)
qed

lemma rr_init_inv2:
  assumes burst: "\<forall>p\<in>set ps. 1 \<le> burstTime p" and arr: "\<forall>p\<in>set ps. 0 \<le> arrivalTime p"
  shows "rr_inv2 ps (rr_init ps)"
proof -
  have w: "wait_inv ps (rr_init ps)" by (rule wait_inv_init) (simp_all add: burst)
  have a: "0 \<le> arrivalTime (ps ! i)" if "i < length ps" for i using arr that by simp
  have "rr_arrival_inv ps (rr_init ps)"
    unfolding rr_arrival_inv_def
  proof (intro allI impI)
    fix i assume i: "i < length ps"
    with a [OF i] show "if visited (rr_init ps) ! i then arrivalTime (ps ! i) \<le> currentTime (rr_init ps)
      else currentTime (rr_init ps) < arrivalTime (ps ! i)"
      by (simp add: rr_init_visited)
  qed
  with w rr_init_inv1 [OF burst] show ?thesis by (simp add: rr_inv2_def)
qed

lemma rr_loop_total1:
  assumes burst: "\<forall>p\<in>set ps. 1 \<le> burstTime p" and q: "1 \<le> q"
  shows "\<exists>t. rr_loop ps q = Some (Inr t) \<and> rr_inv1 ps t \<and> \<not> completed t < length ps"
  unfolding rr_loop_def
proof (rule while_loop_total [where R = "measure work_left" and I = "rr_inv1 ps"])
  show "wf (measure work_left)" by simp
  show "rr_inv1 ps (rr_init ps)" by (rule rr_init_inv1 [OF burst])
  fix u assume "rr_inv1 ps u" "completed u < length ps"
  from rr_body_inv1 [OF this burst q]
  show "\<exists>u'. rr_body ps q u = Next u' \<and> rr_inv1 ps u' \<and> (u', u) \<in> measure work_left" by simp
qed

lemma rr_loop_total2:
  assumes burst: "\<forall>p\<in>set ps. 1 \<le> burstTime p" and arr: "\<forall>p\<in>set ps. 0 \<le> arrivalTime p"
    and q: "1 \<le> q"
  shows "\<exists>t. rr_loop ps q = Some (Inr t) \<and> rr_inv2 ps t \<and>
           (distinct (map id' ps) \<longrightarrow> gantt_inv ps t) \<and> \<not> completed t < length ps"
proof -
  let ?I = "\<lambda>s. rr_inv2 ps s \<and> (distinct (map id' ps) \<longrightarrow> gantt_inv ps s)"
  have "\<exists>t. while_loop (\<lambda>s. completed s < length ps) (rr_body ps q) (rr_init ps) = Some (Inr t) \<and>
          ?I t \<and> \<not> completed t < length ps"
  proof (rule while_loop_total [where R = "measure work_left" and I = ?I])
    show "wf (measure work_left)" by simp
    show "?I (rr_init ps)"
      using rr_init_inv2 [OF burst arr] gantt_inv_init [of "rr_init ps" ps] by simp
    fix u assume I: "?I u" and lt: "completed u < length ps"
    then have i1: "rr_inv1 ps u" by (simp add: rr_inv2_def)
    from rr_body_inv1 [OF i1 lt burst q] obtain u' where
      u': "rr_body ps q u = Next u'" "rr_inv1 ps u'" "work_left u' < work_left u" by blast
    from I have i2: "rr_inv2 ps u" by simp
    note step = rr_body_inv2_gantt [OF i2 lt burst q u'(1)]
    have "rr_inv2 ps u'" using step(1) u'(2) by (simp add: rr_inv2_def)
    moreover have "distinct (map id' ps) \<longrightarrow> gantt_inv ps u'" using step(2) I by blast
    ultimately show "\<exists>u'. rr_body ps q u = Next u' \<and> ?I u' \<and> (u', u) \<in> measure work_left"
      using u' by auto
  qed
  then show ?thesis by (simp add: rr_loop_def)
qed

section \<open>Multilevel Queue\<close>

subsection \<open>The admission loop\<close>

lemma queued_invD:
  assumes "queued_inv ps s Q"
  shows "length (visited s) = length ps" and "distinct Q"
    and "\<And>i. i \<in> set Q \<longleftrightarrow> i < length ps \<and> visited s ! i \<and> 0 < remainingTime s ! i"
    and "\<And>i. i < length ps \<Longrightarrow> \<not> visited s ! i \<Longrightarrow> remainingTime s ! i = burstTime (ps ! i)"
  using assms unfolding queued_inv_def by blast+

lemma queued_inv_step:
  assumes inv: "queued_inv ps s Q"
    and lenv: "length (visited s') = length ps"
    and vis: "\<And>j. j < length ps \<Longrightarrow> visited s' ! j \<longleftrightarrow> visited s ! j \<or> new j"
    and new: "\<And>j. j < length ps \<Longrightarrow> new j \<Longrightarrow> \<not> visited s ! j"
    and rem: "\<And>j. j < length ps \<Longrightarrow> j \<notin> D \<Longrightarrow> remainingTime s' ! j = remainingTime s ! j"
    and D: "D \<subseteq> set Q"
    and dist: "distinct Q'"
    and Q': "set Q' = (set Q - D) \<union> {j. j < length ps \<and> new j} \<union> {j \<in> D. 0 < remainingTime s' ! j}"
    and burst: "\<forall>p\<in>set ps. 1 \<le> burstTime p"
  shows "queued_inv ps s' Q'"
proof -
  note mem = queued_invD(3) [OF inv] and unv = queued_invD(4) [OF inv]
  have b: "0 < burstTime (ps ! i)" if "i < length ps" for i
  proof -
    from burst that have "1 \<le> burstTime (ps ! i)" by simp
    then show ?thesis by simp
  qed
  have Dv: "j < length ps \<and> visited s ! j" if "j \<in> D" for j using D that mem by blast
  have newD: "j \<notin> D" if "j < length ps" "new j" for j using new [OF that] Dv by blast
  have "i \<in> set Q' \<longleftrightarrow> i < length ps \<and> visited s' ! i \<and> 0 < remainingTime s' ! i" for i
  proof (cases "i < length ps")
    case False
    with Dv mem show ?thesis by (auto simp add: Q')
  next
    case i: True
    show ?thesis
    proof (cases "i \<in> D")
      case True
      with Dv [OF True] vis [OF i] i new [OF i] show ?thesis by (auto simp add: Q')
    next
      case nD: False
      show ?thesis
      proof (cases "new i")
        case True
        with new [OF i True] unv [OF i] b [OF i] rem [OF i nD] vis [OF i] i show ?thesis
          by (simp add: Q')
      next
        case False
        with rem [OF i nD] vis [OF i] mem [of i] nD i show ?thesis by (simp add: Q')
      qed
    qed
  qed
  then have c3: "set Q' = {i. i < length ps \<and> visited s' ! i \<and> 0 < remainingTime s' ! i}" by blast
  have c4: "\<forall>i<length ps. \<not> visited s' ! i \<longrightarrow> remainingTime s' ! i = burstTime (ps ! i)"
  proof (intro allI impI)
    fix i assume i: "i < length ps" and nv: "\<not> visited s' ! i"
    with vis [OF i] have nv0: "\<not> visited s ! i" by simp
    with Dv have "i \<notin> D" by blast
    with rem [OF i] unv [OF i nv0] show "remainingTime s' ! i = burstTime (ps ! i)" by simp
  qed
  show ?thesis unfolding queued_inv_def by (intro conjI lenv dist c3 c4)
qed

lemma max_arrival_ge: "p \<in> set ps \<Longrightarrow> arrivalTime p \<le> max_arrival ps"
  unfolding max_arrival_def by (induction ps) auto

lemma mlq_admit_fields [simp]:
  "remainingTime (mlq_admit ps s i) = remainingTime s"
  "currentTime (mlq_admit ps s i) = currentTime s"
  "completed (mlq_admit ps s i) = completed s"
  "results (mlq_admit ps s i) = results s"
  "ganttChart (mlq_admit ps s i) = ganttChart s"
  "length (visited (mlq_admit ps s i)) = length (visited s)"
  by (simp_all add: mlq_admit_def)

lemma mlq_admit_newcomer_other:
  "j \<noteq> i \<Longrightarrow> newcomer ps (mlq_admit ps s i) j = newcomer ps s j"
  by (simp add: mlq_admit_def newcomer_def)

lemma mlq_admit_fold_fields [simp]:
  "remainingTime (foldl (mlq_admit ps) s xs) = remainingTime s"
  "currentTime (foldl (mlq_admit ps) s xs) = currentTime s"
  "completed (foldl (mlq_admit ps) s xs) = completed s"
  "results (foldl (mlq_admit ps) s xs) = results s"
  "ganttChart (foldl (mlq_admit ps) s xs) = ganttChart s"
  "length (visited (foldl (mlq_admit ps) s xs)) = length (visited s)"
  by (induction xs arbitrary: s; simp)+

lemma mlq_admit_fold_queues:
  "distinct xs \<Longrightarrow>
   q1 (foldl (mlq_admit ps) s xs) = q1 s @ filter (\<lambda>i. newcomer ps s i \<and> priority (ps ! i) \<le> 2) xs \<and>
   q2 (foldl (mlq_admit ps) s xs) = q2 s @ filter (\<lambda>i. newcomer ps s i \<and> \<not> priority (ps ! i) \<le> 2) xs"
proof (induction xs arbitrary: s)
  case Nil
  then show ?case by simp
next
  case (Cons x xs)
  have "filter (\<lambda>i. newcomer ps (mlq_admit ps s x) i \<and> P i) xs = filter (\<lambda>i. newcomer ps s i \<and> P i) xs" for P
    using Cons.prems by (intro filter_cong refl arg_cong2 [where f = "(\<and>)"] mlq_admit_newcomer_other) auto
  moreover have "q1 (mlq_admit ps s x) = q1 s @ (if newcomer ps s x \<and> priority (ps ! x) \<le> 2 then [x] else [])"
    "q2 (mlq_admit ps s x) = q2 s @ (if newcomer ps s x \<and> \<not> priority (ps ! x) \<le> 2 then [x] else [])"
    by (simp_all add: mlq_admit_def newcomer_def)
  ultimately show ?case using Cons by simp
qed

lemma mlq_admit_fold_visited:
  "distinct xs \<Longrightarrow> j < length (visited s) \<Longrightarrow>
   visited (foldl (mlq_admit ps) s xs) ! j \<longleftrightarrow> visited s ! j \<or> (j \<in> set xs \<and> newcomer ps s j)"
proof (induction xs arbitrary: s)
  case Nil
  then show ?case by simp
next
  case (Cons x xs)
  have v: "visited (mlq_admit ps s x) ! j \<longleftrightarrow> visited s ! j \<or> (j = x \<and> newcomer ps s j)"
    using Cons.prems(2) by (cases "j = x") (auto simp add: mlq_admit_def newcomer_def)
  have n: "j \<in> set xs \<Longrightarrow> newcomer ps (mlq_admit ps s x) j = newcomer ps s j"
    using Cons.prems(1) by (intro mlq_admit_newcomer_other) auto
  from Cons.prems have "visited (foldl (mlq_admit ps) (mlq_admit ps s x) xs) ! j \<longleftrightarrow>
      visited (mlq_admit ps s x) ! j \<or> (j \<in> set xs \<and> newcomer ps (mlq_admit ps s x) j)"
    by (intro Cons.IH) simp_all
  with v n show ?case by auto
qed

lemma distinct_append_new:
  assumes "distinct Q" "\<And>i. i \<in> set Q \<Longrightarrow> V i" "\<And>i. P i \<Longrightarrow> \<not> V i"
  shows "distinct (Q @ filter P [0..<n])"
  using assms by auto

lemma mlq_admitted:
  assumes inv: "queued_inv ps s (q1 s @ q2 s)" and burst: "\<forall>p\<in>set ps. 1 \<le> burstTime p"
  defines "s0 \<equiv> foldl (mlq_admit ps) s [0..<length ps]"
  shows "queued_inv ps s0 (q1 s0 @ q2 s0)" and "all_admitted ps s0"
    and "visited_arrived ps s \<Longrightarrow> visited_arrived ps s0"
proof -
  note lenv = queued_invD(1) [OF inv] and dist = queued_invD(2) [OF inv]
    and mem = queued_invD(3) [OF inv]
  let ?N1 = "filter (\<lambda>i. newcomer ps s i \<and> priority (ps ! i) \<le> 2) [0..<length ps]"
  let ?N2 = "filter (\<lambda>i. newcomer ps s i \<and> \<not> priority (ps ! i) \<le> 2) [0..<length ps]"
  have q: "q1 s0 = q1 s @ ?N1" "q2 s0 = q2 s @ ?N2"
    using mlq_admit_fold_queues [of "[0..<length ps]" ps s] by (simp_all add: s0_def)
  have v: "visited s0 ! j \<longleftrightarrow> visited s ! j \<or> newcomer ps s j" if "j < length ps" for j
    using that lenv by (simp add: s0_def mlq_admit_fold_visited)
  have nv: "newcomer ps s j \<Longrightarrow> \<not> visited s ! j" for j by (simp add: newcomer_def)
  have qv: "i \<in> set (q1 s @ q2 s) \<Longrightarrow> visited s ! i" for i using mem by blast
  have d: "distinct (q1 s0 @ q2 s0)"
    unfolding q using dist nv qv by auto
  show "queued_inv ps s0 (q1 s0 @ q2 s0)"
  proof (rule queued_inv_step [OF inv, where D = "{}" and new = "newcomer ps s"])
    show "length (visited s0) = length ps" using lenv by (simp add: s0_def)
    show "\<And>j. j < length ps \<Longrightarrow> visited s0 ! j \<longleftrightarrow> visited s ! j \<or> newcomer ps s j" by (rule v)
    show "\<And>j. j < length ps \<Longrightarrow> newcomer ps s j \<Longrightarrow> \<not> visited s ! j" by (rule nv)
    show "\<And>j. j < length ps \<Longrightarrow> j \<notin> {} \<Longrightarrow> remainingTime s0 ! j = remainingTime s ! j"
      by (simp add: s0_def)
    show "{} \<subseteq> set (q1 s @ q2 s)" by simp
    show "distinct (q1 s0 @ q2 s0)" by (rule d)
    show "set (q1 s0 @ q2 s0) = set (q1 s @ q2 s) - {} \<union> {j. j < length ps \<and> newcomer ps s j} \<union>
        {j \<in> {}. 0 < remainingTime s0 ! j}"
      unfolding q by auto
    show "\<forall>p\<in>set ps. 1 \<le> burstTime p" by (rule burst)
  qed
  show "all_admitted ps s0"
    unfolding all_admitted_def
  proof (intro allI impI)
    fix i assume i: "i < length ps" and "\<not> visited s0 ! i"
    with v [OF i] have "\<not> visited s ! i" "\<not> newcomer ps s i" by simp_all
    then show "currentTime s0 < arrivalTime (ps ! i)" by (simp add: newcomer_def s0_def)
  qed
  show "visited_arrived ps s0" if va: "visited_arrived ps s"
    unfolding visited_arrived_def
  proof (intro allI impI)
    fix i assume i: "i < length ps" and "visited s0 ! i"
    with v [OF i] have "visited s ! i \<or> newcomer ps s i" by simp
    with va i show "arrivalTime (ps ! i) \<le> currentTime s0"
      by (auto simp add: visited_arrived_def newcomer_def s0_def)
  qed
qed

subsection \<open>A slice from the first queue\<close>

lemma mlq_high_alt:
  "mlq_high ps q s0 =
     (let s3 = foldl (mlq_admit ps) (mlq_ran ps q s0) [0..<length ps]
      in if remainingTime s3 ! hd (q1 s0) > 0 then s3\<lparr>q1 := q1 s3 @ [hd (q1 s0)]\<rparr>
         else complete ps (hd (q1 s0)) s3)"
  by (simp add: mlq_high_def mlq_ran_def Let_def)

lemma mlq_ran_fields [simp]:
  "remainingTime (mlq_ran ps q s0) =
     (remainingTime s0)[hd (q1 s0) := remainingTime s0 ! hd (q1 s0) - min q (remainingTime s0 ! hd (q1 s0))]"
  "currentTime (mlq_ran ps q s0) = currentTime s0 + min q (remainingTime s0 ! hd (q1 s0))"
  "visited (mlq_ran ps q s0) = visited s0"
  "q1 (mlq_ran ps q s0) = tl (q1 s0)"
  "q2 (mlq_ran ps q s0) = q2 s0"
  "completed (mlq_ran ps q s0) = completed s0"
  by (simp_all add: mlq_ran_def)

lemma mlq_admit_fold_results_complete [simp]:
  "results (complete ps idx (foldl (mlq_admit ps) s xs)) = results (complete ps idx s)"
  by (simp add: complete_def)

lemma mlq_high_same_run:
  assumes "hd (q1 s0) < length (remainingTime s0)"
    "min q (remainingTime s0 ! hd (q1 s0)) \<le> remainingTime s0 ! hd (q1 s0)"
  shows "same_run (mlq_high ps q s0) (after_slice ps (hd (q1 s0)) (min q (remainingTime s0 ! hd (q1 s0))) s0)"
    and "ganttChart (mlq_high ps q s0) =
         ganttChart (after_slice ps (hd (q1 s0)) (min q (remainingTime s0 ! hd (q1 s0))) s0)"
  using assms
  by (auto simp add: mlq_high_alt Let_def same_run_def after_slice_def mlq_ran_def complete_def)

lemma mlq_high_queues:
  "q1 (mlq_high ps q s0) =
     tl (q1 s0) @ filter (\<lambda>i. newcomer ps (mlq_ran ps q s0) i \<and> priority (ps ! i) \<le> 2) [0..<length ps] @
     (if 0 < remainingTime (mlq_ran ps q s0) ! hd (q1 s0) then [hd (q1 s0)] else [])"
  "q2 (mlq_high ps q s0) =
     q2 s0 @ filter (\<lambda>i. newcomer ps (mlq_ran ps q s0) i \<and> \<not> priority (ps ! i) \<le> 2) [0..<length ps]"
  using mlq_admit_fold_queues [of "[0..<length ps]" ps "mlq_ran ps q s0"]
  by (simp_all add: mlq_high_alt Let_def)

lemma mlq_high_visited:
  assumes "j < length (visited s0)"
  shows "visited (mlq_high ps q s0) ! j \<longleftrightarrow>
         visited s0 ! j \<or> (j < length ps \<and> newcomer ps (mlq_ran ps q s0) j)"
  using assms by (simp add: mlq_high_alt Let_def mlq_admit_fold_visited)

lemma mlq_high_other_fields:
  "length (visited (mlq_high ps q s0)) = length (visited s0)"
  "remainingTime (mlq_high ps q s0) = remainingTime (mlq_ran ps q s0)"
  "currentTime (mlq_high ps q s0) = currentTime (mlq_ran ps q s0)"
  by (simp_all add: mlq_high_alt Let_def)

lemma mlq_high_queued_inv:
  assumes inv: "queued_inv ps s0 (q1 s0 @ q2 s0)" and ne: "q1 s0 \<noteq> []"
    and burst: "\<forall>p\<in>set ps. 1 \<le> burstTime p"
  shows "queued_inv ps (mlq_high ps q s0) (q1 (mlq_high ps q s0) @ q2 (mlq_high ps q s0))"
proof -
  define idx where "idx = hd (q1 s0)"
  define rest where "rest = tl (q1 s0)"
  define s2 where "s2 = mlq_ran ps q s0"
  define N1 where "N1 = filter (\<lambda>i. newcomer ps s2 i \<and> priority (ps ! i) \<le> 2) [0..<length ps]"
  define N2 where "N2 = filter (\<lambda>i. newcomer ps s2 i \<and> \<not> priority (ps ! i) \<le> 2) [0..<length ps]"
  define R where "R = (if 0 < remainingTime s2 ! idx then [idx] else [])"
  let ?s' = "mlq_high ps q s0"
  note lenv = queued_invD(1) [OF inv] and dist = queued_invD(2) [OF inv]
    and mem = queued_invD(3) [OF inv]
  have qs: "q1 s0 = idx # rest" using ne by (simp add: idx_def rest_def)
  have q': "q1 ?s' = rest @ N1 @ R" "q2 ?s' = q2 s0 @ N2"
    by (simp_all add: mlq_high_queues N1_def N2_def R_def s2_def idx_def rest_def)
  have nv: "newcomer ps s2 j \<Longrightarrow> \<not> visited s0 ! j" for j
    by (simp add: newcomer_def s2_def)
  have qv: "i \<in> set (q1 s0 @ q2 s0) \<Longrightarrow> visited s0 ! i" for i using mem by blast
  have idxv: "visited s0 ! idx" using qv [of idx] qs by simp
  have dN: "distinct N1" "distinct N2" "set N1 \<inter> set N2 = {}"
    by (auto simp add: N1_def N2_def)
  have Nnv: "j \<in> set N1 \<union> set N2 \<Longrightarrow> \<not> visited s0 ! j" for j
    using nv by (auto simp add: N1_def N2_def)
  have old: "distinct rest" "distinct (q2 s0)" "set rest \<inter> set (q2 s0) = {}" "idx \<notin> set rest"
    "idx \<notin> set (q2 s0)"
    using dist qs by auto
  have oldv: "j \<in> set rest \<union> set (q2 s0) \<Longrightarrow> visited s0 ! j" for j
    using qv [of j] qs by auto
  have setR: "set R \<subseteq> {idx}" "distinct R" by (auto simp add: R_def)
  have disj: "(set rest \<union> set (q2 s0) \<union> {idx}) \<inter> (set N1 \<union> set N2) = {}"
    using oldv Nnv idxv by blast
  have d: "distinct ((rest @ N1 @ R) @ q2 s0 @ N2)"
    using old dN setR disj by auto
  show ?thesis
  proof (rule queued_inv_step [OF inv, where D = "{idx}" and new = "newcomer ps s2"])
    show "length (visited ?s') = length ps" using lenv by (simp add: mlq_high_other_fields)
    show "\<And>j. j < length ps \<Longrightarrow> visited ?s' ! j \<longleftrightarrow> visited s0 ! j \<or> newcomer ps s2 j"
      using lenv by (simp add: mlq_high_visited s2_def)
    show "\<And>j. j < length ps \<Longrightarrow> newcomer ps s2 j \<Longrightarrow> \<not> visited s0 ! j" by (rule nv)
    show "\<And>j. j < length ps \<Longrightarrow> j \<notin> {idx} \<Longrightarrow> remainingTime ?s' ! j = remainingTime s0 ! j"
      by (simp add: mlq_high_other_fields idx_def)
    show "{idx} \<subseteq> set (q1 s0 @ q2 s0)" using qs by simp
    show "distinct (q1 ?s' @ q2 ?s')" unfolding q' by (rule d)
    show "set (q1 ?s' @ q2 ?s') = set (q1 s0 @ q2 s0) - {idx} \<union> {j. j < length ps \<and> newcomer ps s2 j} \<union>
        {j \<in> {idx}. 0 < remainingTime ?s' ! j}"
      unfolding q' using old qs
      by (auto simp add: N1_def N2_def R_def mlq_high_other_fields s2_def)
    show "\<forall>p\<in>set ps. 1 \<le> burstTime p" by (rule burst)
  qed
qed

lemma mlq_high_visited_arrived:
  assumes inv: "queued_inv ps s0 (q1 s0 @ q2 s0)" and va: "visited_arrived ps s0"
    and d: "0 \<le> min q (remainingTime s0 ! hd (q1 s0))"
  shows "visited_arrived ps (mlq_high ps q s0)"
  unfolding visited_arrived_def
proof (intro allI impI)
  fix i assume i: "i < length ps" and v: "visited (mlq_high ps q s0) ! i"
  have "i < length (visited s0)" using i queued_invD(1) [OF inv] by simp
  from v mlq_high_visited [OF this] i
  have "visited s0 ! i \<or> newcomer ps (mlq_ran ps q s0) i" by simp
  then show "arrivalTime (ps ! i) \<le> currentTime (mlq_high ps q s0)"
  proof
    assume "visited s0 ! i"
    with va i have "arrivalTime (ps ! i) \<le> currentTime s0" by (simp add: visited_arrived_def)
    moreover have "currentTime (mlq_high ps q s0) = currentTime s0 + min q (remainingTime s0 ! hd (q1 s0))"
      by (simp add: mlq_high_other_fields)
    ultimately show ?thesis using d by linarith
  next
    assume "newcomer ps (mlq_ran ps q s0) i"
    then show ?thesis by (simp add: newcomer_def mlq_high_other_fields)
  qed
qed

subsection \<open>One iteration\<close>

lemma after_slice_layers:
  assumes cinv: "count_inv ps s" and idx: "idx < length ps" and d: "0 < d" "d \<le> remainingTime s ! idx"
    and sr: "same_run s' (after_slice ps idx d s)"
    and g: "ganttChart s' = ganttChart (after_slice ps idx d s)"
  shows "count_inv ps s'" and "work_left s' < work_left s"
    and "wait_inv ps s \<Longrightarrow> arrivalTime (ps ! idx) \<le> currentTime s \<Longrightarrow> wait_inv ps s'"
    and "gantt_inv ps s \<Longrightarrow> distinct (map id' ps) \<Longrightarrow> gantt_inv ps s'"
    and "currentTime s' = currentTime s + d"
proof -
  from sr have r': "remainingTime s' = (remainingTime s)[idx := remainingTime s ! idx - d]"
    and t': "currentTime s' = currentTime s + d"
    by (simp_all add: same_run_def after_slice_fields)
  show "count_inv ps s'"
    using count_inv_after_slice [OF cinv idx d] count_inv_cong [OF sr] by simp
  show "work_left s' < work_left s" by (rule work_left_decreases [OF cinv idx d r'])
  show "wait_inv ps s'" if "wait_inv ps s" "arrivalTime (ps ! idx) \<le> currentTime s"
    using wait_inv_after_slice [OF that(1) cinv idx d that(2)] wait_inv_cong [OF sr] by simp
  show "gantt_inv ps s'" if gi: "gantt_inv ps s" and ids: "distinct (map id' ps)"
  proof (rule gantt_inv_push [OF gi ids idx count_invD(1) [OF cinv] d(1)])
    show "currentTime s \<le> currentTime s" by simp
    show "ganttChart s' = ganttChart s @ [mkBlock (id' (ps ! idx)) (currentTime s) (currentTime s + d)]"
      by (simp add: g after_slice_fields)
    show "remainingTime s' = (remainingTime s)[idx := remainingTime s ! idx - d]" by (rule r')
    show "currentTime s' = currentTime s + d" by (rule t')
  qed
  show "currentTime s' = currentTime s + d" by (rule t')
qed

lemma mlq_low_same_run:
  "same_run (mlq_low ps s0) (after_slice ps (hd (q2 s0)) 1 s0)"
  "ganttChart (mlq_low ps s0) = ganttChart (after_slice ps (hd (q2 s0)) 1 s0)"
  by (auto simp add: mlq_low_def Let_def same_run_def after_slice_def complete_def)

lemma mlq_low_fields:
  "q1 (mlq_low ps s0) = q1 s0"
  "q2 (mlq_low ps s0) =
     (if (remainingTime s0)[hd (q2 s0) := remainingTime s0 ! hd (q2 s0) - 1] ! hd (q2 s0) = 0
      then tl (q2 s0) else q2 s0)"
  "visited (mlq_low ps s0) = visited s0"
  "remainingTime (mlq_low ps s0) = (remainingTime s0)[hd (q2 s0) := remainingTime s0 ! hd (q2 s0) - 1]"
  "currentTime (mlq_low ps s0) = currentTime s0 + 1"
  by (simp_all add: mlq_low_def Let_def)

lemma mlq_low_queued_inv:
  assumes cinv: "count_inv ps s0" and inv: "queued_inv ps s0 (q1 s0 @ q2 s0)" and ne: "q2 s0 \<noteq> []"
    and burst: "\<forall>p\<in>set ps. 1 \<le> burstTime p"
  shows "queued_inv ps (mlq_low ps s0) (q1 (mlq_low ps s0) @ q2 (mlq_low ps s0))"
proof -
  define idx where "idx = hd (q2 s0)"
  define rest where "rest = tl (q2 s0)"
  let ?s' = "mlq_low ps s0"
  let ?r' = "(remainingTime s0)[idx := remainingTime s0 ! idx - 1]"
  note lenv = queued_invD(1) [OF inv] and dist = queued_invD(2) [OF inv]
    and mem = queued_invD(3) [OF inv]
  have qs: "q2 s0 = idx # rest" using ne by (simp add: idx_def rest_def)
  have idx: "idx < length ps" "0 < remainingTime s0 ! idx" using mem [of idx] qs by simp_all
  have r'idx: "?r' ! idx = remainingTime s0 ! idx - 1"
    using idx count_invD(1) [OF cinv] by simp
  have old: "distinct (q1 s0)" "distinct rest" "set (q1 s0) \<inter> set rest = {}" "idx \<notin> set rest"
    "idx \<notin> set (q1 s0)"
    using dist qs by auto
  have q2': "q2 ?s' = (if ?r' ! idx = 0 then rest else idx # rest)"
    using ne by (simp add: mlq_low_fields idx_def rest_def)
  show ?thesis
  proof (rule queued_inv_step [OF inv, where D = "{idx}" and new = "\<lambda>_. False"])
    show "length (visited ?s') = length ps" using lenv by (simp add: mlq_low_fields)
    show "\<And>j. j < length ps \<Longrightarrow> visited ?s' ! j \<longleftrightarrow> visited s0 ! j \<or> False"
      by (simp add: mlq_low_fields)
    show "\<And>j. j < length ps \<Longrightarrow> False \<Longrightarrow> \<not> visited s0 ! j" by simp
    show "\<And>j. j < length ps \<Longrightarrow> j \<notin> {idx} \<Longrightarrow> remainingTime ?s' ! j = remainingTime s0 ! j"
      by (simp add: mlq_low_fields idx_def)
    show "{idx} \<subseteq> set (q1 s0 @ q2 s0)" using qs by simp
    show "distinct (q1 ?s' @ q2 ?s')" unfolding q2' using old by (simp add: mlq_low_fields)
    have r's: "remainingTime ?s' ! idx = ?r' ! idx" by (simp add: mlq_low_fields idx_def)
    show "set (q1 ?s' @ q2 ?s') = set (q1 s0 @ q2 s0) - {idx} \<union> {j. j < length ps \<and> False} \<union>
        {j \<in> {idx}. 0 < remainingTime ?s' ! j}"
      unfolding q2' r's using old qs idx(2) r'idx by (auto simp add: mlq_low_fields)
    show "\<forall>p\<in>set ps. 1 \<le> burstTime p" by (rule burst)
  qed
qed

lemma visited_arrived_later:
  assumes "visited_arrived ps s" "visited s' = visited s" "currentTime s \<le> currentTime s'"
  shows "visited_arrived ps s'"
  using assms by (fastforce simp add: visited_arrived_def)

lemma idle_left_decreases:
  assumes i: "i < length ps" and lt: "currentTime s < arrivalTime (ps ! i)"
    and t': "currentTime s' = currentTime s + 1"
  shows "idle_left ps s' < idle_left ps s"
proof -
  have "arrivalTime (ps ! i) \<le> max_arrival ps" using i by (intro max_arrival_ge) simp
  with lt t' show ?thesis by (simp add: idle_left_def)
qed

lemma mlq_body_step:
  assumes cinv: "count_inv ps s" and qinv: "queued_inv ps s (q1 s @ q2 s)"
    and lt: "completed s < length ps"
    and burst: "\<forall>p\<in>set ps. 1 \<le> burstTime p" and q: "1 \<le> q"
  shows "\<exists>s'. mlq_body ps q s = Next s' \<and> count_inv ps s' \<and> queued_inv ps s' (q1 s' @ q2 s') \<and>
           (s', s) \<in> measures [work_left, idle_left ps] \<and>
           (wait_inv ps s \<and> visited_arrived ps s \<longrightarrow> wait_inv ps s' \<and> visited_arrived ps s') \<and>
           (gantt_inv ps s \<and> distinct (map id' ps) \<longrightarrow> gantt_inv ps s')"
proof -
  define s0 where "s0 = foldl (mlq_admit ps) s [0..<length ps]"
  have core: "remainingTime s0 = remainingTime s" "completed s0 = completed s"
    "results s0 = results s" "ganttChart s0 = ganttChart s" "currentTime s0 = currentTime s"
    by (simp_all add: s0_def)
  have cinv0: "count_inv ps s0" by (rule count_inv_idle [OF cinv core(1,2)])
  have qinv0: "queued_inv ps s0 (q1 s0 @ q2 s0)" and adm: "all_admitted ps s0"
    using mlq_admitted(1,2) [OF qinv burst] by (simp_all add: s0_def)
  have va0: "visited_arrived ps s0" if "visited_arrived ps s"
    using mlq_admitted(3) [OF qinv burst that] by (simp add: s0_def)
  have w0: "wait_inv ps s0" if "wait_inv ps s"
    by (rule wait_inv_idle [OF that core(1,3)]) (simp add: core)
  have g0: "gantt_inv ps s0" if "gantt_inv ps s"
    by (rule gantt_inv_idle [OF that core(4,1)]) (simp add: core)
  have wl0: "work_left s0 = work_left s" by (simp add: work_left_def core)
  note mem0 = queued_invD(3) [OF qinv0]
  show ?thesis
  proof (cases "q1 s0 \<noteq> []")
    case True
    define idx where "idx = hd (q1 s0)"
    define d where "d = min q (remainingTime s0 ! idx)"
    let ?s' = "mlq_high ps q s0"
    have b: "mlq_body ps q s = Next ?s'" using True by (simp add: mlq_body_def s0_def Let_def)
    have "idx \<in> set (q1 s0 @ q2 s0)" using True by (simp add: idx_def)
    with mem0 have idx: "idx < length ps" "visited s0 ! idx" "0 < remainingTime s0 ! idx" by blast+
    have d: "0 < d" "d \<le> remainingTime s0 ! idx" using idx q by (simp_all add: d_def)
    have len: "idx < length (remainingTime s0)" using idx count_invD(1) [OF cinv0] by simp
    have sr: "same_run ?s' (after_slice ps idx d s0)"
      and g: "ganttChart ?s' = ganttChart (after_slice ps idx d s0)"
      unfolding idx_def d_def
      by (rule mlq_high_same_run; use len d in \<open>simp add: idx_def d_def\<close>)+
    note L = after_slice_layers [OF cinv0 idx(1) d sr g]
    have qi: "queued_inv ps ?s' (q1 ?s' @ q2 ?s')" by (rule mlq_high_queued_inv [OF qinv0 True burst])
    have m: "(?s', s) \<in> measures [work_left, idle_left ps]" using L(2) wl0 by simp
    have w: "wait_inv ps ?s' \<and> visited_arrived ps ?s'" if h: "wait_inv ps s \<and> visited_arrived ps s"
    proof -
      from h have va: "visited_arrived ps s0" and wi: "wait_inv ps s0" using va0 w0 by simp_all
      from va idx have a: "arrivalTime (ps ! idx) \<le> currentTime s0" by (simp add: visited_arrived_def)
      have "0 \<le> min q (remainingTime s0 ! hd (q1 s0))" using d by (simp add: d_def idx_def)
      from L(3) [OF wi a] mlq_high_visited_arrived [OF qinv0 va this] show ?thesis by simp
    qed
    have gi: "gantt_inv ps ?s'" if "gantt_inv ps s \<and> distinct (map id' ps)"
      using L(4) g0 that by simp
    from b L(1) qi m w gi show ?thesis by blast
  next
    case e1: False
    show ?thesis
    proof (cases "q2 s0 \<noteq> []")
      case True
      define idx where "idx = hd (q2 s0)"
      let ?s' = "mlq_low ps s0"
      have b: "mlq_body ps q s = Next ?s'" using e1 True by (simp add: mlq_body_def s0_def Let_def)
      have "idx \<in> set (q1 s0 @ q2 s0)" using True by (simp add: idx_def)
      with mem0 have idx: "idx < length ps" "visited s0 ! idx" "0 < remainingTime s0 ! idx" by blast+
      have d: "(0::int) < 1" "1 \<le> remainingTime s0 ! idx" using idx by simp_all
      have sr: "same_run ?s' (after_slice ps idx 1 s0)"
        and g: "ganttChart ?s' = ganttChart (after_slice ps idx 1 s0)"
        unfolding idx_def by (rule mlq_low_same_run)+
      note L = after_slice_layers [OF cinv0 idx(1) d sr g]
      have qi: "queued_inv ps ?s' (q1 ?s' @ q2 ?s')" by (rule mlq_low_queued_inv [OF cinv0 qinv0 True burst])
      have m: "(?s', s) \<in> measures [work_left, idle_left ps]" using L(2) wl0 by simp
      have w: "wait_inv ps ?s' \<and> visited_arrived ps ?s'" if h: "wait_inv ps s \<and> visited_arrived ps s"
      proof -
        from h have va: "visited_arrived ps s0" and wi: "wait_inv ps s0" using va0 w0 by simp_all
        from va idx have a: "arrivalTime (ps ! idx) \<le> currentTime s0" by (simp add: visited_arrived_def)
        have "visited_arrived ps ?s'"
          by (rule visited_arrived_later [OF va]) (simp_all add: mlq_low_fields)
        with L(3) [OF wi a] show ?thesis by simp
      qed
      have gi: "gantt_inv ps ?s'" if "gantt_inv ps s \<and> distinct (map id' ps)"
        using L(4) g0 that by simp
      from b L(1) qi m w gi show ?thesis by blast
    next
      case e2: False
      let ?s' = "s0\<lparr>currentTime := currentTime s0 + 1\<rparr>"
      have b: "mlq_body ps q s = Next ?s'" using e1 e2 by (simp add: mlq_body_def s0_def Let_def)
      have lt0: "completed s0 < length ps" using lt core by simp
      from count_inv_unfinished [OF cinv0 lt0] obtain i where i: "i < length ps" "0 < remainingTime s0 ! i"
        by blast
      have "\<not> visited s0 ! i"
      proof
        assume "visited s0 ! i"
        with i mem0 [of i] e1 e2 show False by simp
      qed
      with adm i have late: "currentTime s0 < arrivalTime (ps ! i)" by (simp add: all_admitted_def)
      have c': "count_inv ps ?s'" by (rule count_inv_idle [OF cinv0]) simp_all
      have qi: "queued_inv ps ?s' (q1 ?s' @ q2 ?s')" using qinv0 by (simp add: queued_inv_def)
      have "idle_left ps ?s' < idle_left ps s0" by (rule idle_left_decreases [OF i(1) late]) simp
      moreover have "idle_left ps s0 = idle_left ps s" by (simp add: idle_left_def core)
      moreover have "work_left ?s' = work_left s" by (simp add: work_left_def core)
      ultimately have m: "(?s', s) \<in> measures [work_left, idle_left ps]" by simp
      have w: "wait_inv ps ?s' \<and> visited_arrived ps ?s'" if h: "wait_inv ps s \<and> visited_arrived ps s"
      proof -
        from h have va: "visited_arrived ps s0" and wi: "wait_inv ps s0" using va0 w0 by simp_all
        have "wait_inv ps ?s'" by (rule wait_inv_idle [OF wi]) simp_all
        moreover have "visited_arrived ps ?s'" by (rule visited_arrived_later [OF va]) simp_all
        ultimately show ?thesis by simp
      qed
      have gi: "gantt_inv ps ?s'" if h: "gantt_inv ps s \<and> distinct (map id' ps)"
      proof -
        from h g0 have "gantt_inv ps s0" by simp
        then show ?thesis by (rule gantt_inv_idle) simp_all
      qed
      from b c' qi m w gi show ?thesis by blast
    qed
  qed
qed

subsection \<open>The loop of MLQ\<close>

lemma init_visit_fields [simp]:
  "remainingTime (init_visit ps) = map burstTime ps"
  "results (init_visit ps) = map (\<lambda>p. mkResult p (- 1) 0 0 0) ps"
  "currentTime (init_visit ps) = 0"
  "completed (init_visit ps) = 0"
  "ganttChart (init_visit ps) = []"
  "visited (init_visit ps) = replicate (length ps) False"
  "q0 (init_visit ps) = []"
  "q1 (init_visit ps) = []"
  "q2 (init_visit ps) = []"
  by (simp_all add: init_visit_def)

lemma init_visit_queued_inv: "queued_inv ps (init_visit ps) []"
  by (auto simp add: queued_inv_def)

lemma init_visit_visited_arrived: "visited_arrived ps (init_visit ps)"
  by (simp add: visited_arrived_def)

lemma queue_level_invD:
  assumes "queue_level_inv ps Q s"
  shows "count_inv ps s" "queued_inv ps s (Q s)" "wait_inv ps s" "visited_arrived ps s"
    "distinct (map id' ps) \<Longrightarrow> gantt_inv ps s"
  using assms by (simp_all add: queue_level_inv_def)

lemma init_visit_level_inv:
  assumes burst: "\<forall>p\<in>set ps. 1 \<le> burstTime p" and Q: "Q (init_visit ps) = []"
  shows "queue_level_inv ps Q (init_visit ps)"
  unfolding queue_level_inv_def Q
  using count_inv_init [of "init_visit ps" ps] wait_inv_init [of "init_visit ps" ps]
    gantt_inv_init [of "init_visit ps" ps] burst init_visit_queued_inv init_visit_visited_arrived
  by simp

lemma mlq_loop_total:
  assumes burst: "\<forall>p\<in>set ps. 1 \<le> burstTime p" and q: "1 \<le> q"
  shows "\<exists>t. mlq_loop ps q = Some (Inr t) \<and> queue_level_inv ps (\<lambda>s. q1 s @ q2 s) t \<and>
           \<not> completed t < length ps"
  unfolding mlq_loop_def
proof (rule while_loop_total [where R = "measures [work_left, idle_left ps]"])
  show "wf (measures [work_left, idle_left ps])" by simp
  show "queue_level_inv ps (\<lambda>s. q1 s @ q2 s) (init_visit ps)"
    by (rule init_visit_level_inv [OF burst]) simp
  fix u assume I: "queue_level_inv ps (\<lambda>s. q1 s @ q2 s) u" and lt: "completed u < length ps"
  note D = queue_level_invD [OF I]
  from mlq_body_step [OF D(1,2) lt burst q] D(3,4,5)
  show "\<exists>u'. mlq_body ps q u = Next u' \<and> queue_level_inv ps (\<lambda>s. q1 s @ q2 s) u' \<and>
      (u', u) \<in> measures [work_left, idle_left ps]"
    unfolding queue_level_inv_def by blast
qed

section \<open>Multilevel Feedback Queue\<close>

subsection \<open>The admission loop and the dispatch\<close>

lemma mlfq_admit_fields [simp]:
  "remainingTime (mlfq_admit ps s i) = remainingTime s"
  "currentTime (mlfq_admit ps s i) = currentTime s"
  "completed (mlfq_admit ps s i) = completed s"
  "results (mlfq_admit ps s i) = results s"
  "ganttChart (mlfq_admit ps s i) = ganttChart s"
  "q1 (mlfq_admit ps s i) = q1 s"
  "q2 (mlfq_admit ps s i) = q2 s"
  "length (visited (mlfq_admit ps s i)) = length (visited s)"
  by (simp_all add: mlfq_admit_def)

lemma mlfq_admit_newcomer_other:
  "j \<noteq> i \<Longrightarrow> newcomer ps (mlfq_admit ps s i) j = newcomer ps s j"
  by (simp add: mlfq_admit_def newcomer_def)

lemma mlfq_admit_fold_fields [simp]:
  "remainingTime (foldl (mlfq_admit ps) s xs) = remainingTime s"
  "currentTime (foldl (mlfq_admit ps) s xs) = currentTime s"
  "completed (foldl (mlfq_admit ps) s xs) = completed s"
  "results (foldl (mlfq_admit ps) s xs) = results s"
  "ganttChart (foldl (mlfq_admit ps) s xs) = ganttChart s"
  "q1 (foldl (mlfq_admit ps) s xs) = q1 s"
  "q2 (foldl (mlfq_admit ps) s xs) = q2 s"
  "length (visited (foldl (mlfq_admit ps) s xs)) = length (visited s)"
  by (induction xs arbitrary: s; simp)+

lemma mlfq_admit_fold_queue:
  "distinct xs \<Longrightarrow> q0 (foldl (mlfq_admit ps) s xs) = q0 s @ filter (newcomer ps s) xs"
proof (induction xs arbitrary: s)
  case Nil
  then show ?case by simp
next
  case (Cons x xs)
  have "filter (newcomer ps (mlfq_admit ps s x)) xs = filter (newcomer ps s) xs"
    using Cons.prems by (intro filter_cong refl mlfq_admit_newcomer_other) auto
  moreover have "q0 (mlfq_admit ps s x) = q0 s @ (if newcomer ps s x then [x] else [])"
    by (simp add: mlfq_admit_def newcomer_def)
  ultimately show ?case using Cons by simp
qed

lemma mlfq_admit_fold_visited:
  "distinct xs \<Longrightarrow> j < length (visited s) \<Longrightarrow>
   visited (foldl (mlfq_admit ps) s xs) ! j \<longleftrightarrow> visited s ! j \<or> (j \<in> set xs \<and> newcomer ps s j)"
proof (induction xs arbitrary: s)
  case Nil
  then show ?case by simp
next
  case (Cons x xs)
  have v: "visited (mlfq_admit ps s x) ! j \<longleftrightarrow> visited s ! j \<or> (j = x \<and> newcomer ps s j)"
    using Cons.prems(2) by (cases "j = x") (auto simp add: mlfq_admit_def newcomer_def)
  have n: "j \<in> set xs \<Longrightarrow> newcomer ps (mlfq_admit ps s x) j = newcomer ps s j"
    using Cons.prems(1) by (intro mlfq_admit_newcomer_other) auto
  from Cons.prems have "visited (foldl (mlfq_admit ps) (mlfq_admit ps s x) xs) ! j \<longleftrightarrow>
      visited (mlfq_admit ps s x) ! j \<or> (j \<in> set xs \<and> newcomer ps (mlfq_admit ps s x) j)"
    by (intro Cons.IH) simp_all
  with v n show ?case by auto
qed

lemma mlfq_admitted:
  assumes inv: "queued_inv ps s (q0 s @ q1 s @ q2 s)" and burst: "\<forall>p\<in>set ps. 1 \<le> burstTime p"
  defines "s0 \<equiv> foldl (mlfq_admit ps) s [0..<length ps]"
  shows "queued_inv ps s0 (q0 s0 @ q1 s0 @ q2 s0)" and "all_admitted ps s0"
    and "visited_arrived ps s \<Longrightarrow> visited_arrived ps s0"
proof -
  note lenv = queued_invD(1) [OF inv] and dist = queued_invD(2) [OF inv]
    and mem = queued_invD(3) [OF inv]
  let ?N = "filter (newcomer ps s) [0..<length ps]"
  have q: "q0 s0 = q0 s @ ?N" "q1 s0 = q1 s" "q2 s0 = q2 s"
    by (simp_all add: s0_def mlfq_admit_fold_queue)
  have v: "visited s0 ! j \<longleftrightarrow> visited s ! j \<or> newcomer ps s j" if "j < length ps" for j
    using that lenv by (simp add: s0_def mlfq_admit_fold_visited)
  have nv: "newcomer ps s j \<Longrightarrow> \<not> visited s ! j" for j by (simp add: newcomer_def)
  have qv: "i \<in> set (q0 s @ q1 s @ q2 s) \<Longrightarrow> visited s ! i" for i using mem by blast
  have d: "distinct (q0 s0 @ q1 s0 @ q2 s0)"
    unfolding q using dist nv qv by auto
  show "queued_inv ps s0 (q0 s0 @ q1 s0 @ q2 s0)"
  proof (rule queued_inv_step [OF inv, where D = "{}" and new = "newcomer ps s"])
    show "length (visited s0) = length ps" using lenv by (simp add: s0_def)
    show "\<And>j. j < length ps \<Longrightarrow> visited s0 ! j \<longleftrightarrow> visited s ! j \<or> newcomer ps s j" by (rule v)
    show "\<And>j. j < length ps \<Longrightarrow> newcomer ps s j \<Longrightarrow> \<not> visited s ! j" by (rule nv)
    show "\<And>j. j < length ps \<Longrightarrow> j \<notin> {} \<Longrightarrow> remainingTime s0 ! j = remainingTime s ! j"
      by (simp add: s0_def)
    show "{} \<subseteq> set (q0 s @ q1 s @ q2 s)" by simp
    show "distinct (q0 s0 @ q1 s0 @ q2 s0)" by (rule d)
    show "set (q0 s0 @ q1 s0 @ q2 s0) = set (q0 s @ q1 s @ q2 s) - {} \<union> {j. j < length ps \<and> newcomer ps s j} \<union>
        {j \<in> {}. 0 < remainingTime s0 ! j}"
      unfolding q by auto
    show "\<forall>p\<in>set ps. 1 \<le> burstTime p" by (rule burst)
  qed
  show "all_admitted ps s0"
    unfolding all_admitted_def
  proof (intro allI impI)
    fix i assume i: "i < length ps" and "\<not> visited s0 ! i"
    with v [OF i] have "\<not> visited s ! i" "\<not> newcomer ps s i" by simp_all
    then show "currentTime s0 < arrivalTime (ps ! i)" by (simp add: newcomer_def s0_def)
  qed
  show "visited_arrived ps s0" if va: "visited_arrived ps s"
    unfolding visited_arrived_def
  proof (intro allI impI)
    fix i assume i: "i < length ps" and "visited s0 ! i"
    with v [OF i] have "visited s ! i \<or> newcomer ps s i" by simp
    with va i show "arrivalTime (ps ! i) \<le> currentTime s0"
      by (auto simp add: visited_arrived_def newcomer_def s0_def)
  qed
qed

lemma mlfq_dispatch_alt:
  "mlfq_dispatch ps idx lvl qt s =
     (let s3 = foldl (mlfq_admit ps) (mlfq_ran ps idx lvl qt s) [0..<length ps]
      in if remainingTime s3 ! idx = 0 then
           (let s4 = complete ps idx s3 in if lvl = 2 then s4\<lparr>q2 := tl (q2 s4)\<rparr> else s4)
         else if lvl = 0 then s3\<lparr>q1 := q1 s3 @ [idx]\<rparr>
         else if lvl = 1 then s3\<lparr>q2 := q2 s3 @ [idx]\<rparr>
         else s3)"
  by (simp add: mlfq_dispatch_def mlfq_ran_def mlfq_runTime_def Let_def)

lemma mlfq_ran_fields [simp]:
  "remainingTime (mlfq_ran ps idx lvl qt s) =
     (remainingTime s)[idx := remainingTime s ! idx - mlfq_runTime lvl qt idx s]"
  "currentTime (mlfq_ran ps idx lvl qt s) = currentTime s + mlfq_runTime lvl qt idx s"
  "visited (mlfq_ran ps idx lvl qt s) = visited s"
  "q0 (mlfq_ran ps idx lvl qt s) = q0 s"
  "q1 (mlfq_ran ps idx lvl qt s) = q1 s"
  "q2 (mlfq_ran ps idx lvl qt s) = q2 s"
  "completed (mlfq_ran ps idx lvl qt s) = completed s"
  by (simp_all add: mlfq_ran_def)

lemma mlfq_admit_fold_results_complete [simp]:
  "results (complete ps idx (foldl (mlfq_admit ps) s xs)) = results (complete ps idx s)"
  by (simp add: complete_def)

lemma mlfq_dispatch_same_run:
  "same_run (mlfq_dispatch ps idx lvl qt s) (after_slice ps idx (mlfq_runTime lvl qt idx s) s)"
  "ganttChart (mlfq_dispatch ps idx lvl qt s) =
     ganttChart (after_slice ps idx (mlfq_runTime lvl qt idx s) s)"
  by (auto simp add: mlfq_dispatch_alt Let_def same_run_def after_slice_def mlfq_ran_def complete_def)

lemma mlfq_dispatch_queues:
  "q0 (mlfq_dispatch ps idx lvl qt s) = q0 s @ filter (newcomer ps (mlfq_ran ps idx lvl qt s)) [0..<length ps]"
  "q1 (mlfq_dispatch ps idx lvl qt s) =
     q1 s @ (if remainingTime (mlfq_ran ps idx lvl qt s) ! idx \<noteq> 0 \<and> lvl = 0 then [idx] else [])"
  "q2 (mlfq_dispatch ps idx lvl qt s) =
     (if remainingTime (mlfq_ran ps idx lvl qt s) ! idx = 0
      then (if lvl = 2 then tl (q2 s) else q2 s)
      else if lvl = 1 then q2 s @ [idx] else q2 s)"
  by (cases "lvl = 0"; simp add: mlfq_dispatch_alt Let_def mlfq_admit_fold_queue)+

lemma mlfq_dispatch_visited:
  assumes "j < length (visited s)"
  shows "visited (mlfq_dispatch ps idx lvl qt s) ! j \<longleftrightarrow>
         visited s ! j \<or> (j < length ps \<and> newcomer ps (mlfq_ran ps idx lvl qt s) j)"
  using assms by (simp add: mlfq_dispatch_alt Let_def mlfq_admit_fold_visited)

lemma mlfq_dispatch_other_fields:
  "length (visited (mlfq_dispatch ps idx lvl qt s)) = length (visited s)"
  "remainingTime (mlfq_dispatch ps idx lvl qt s) = remainingTime (mlfq_ran ps idx lvl qt s)"
  "currentTime (mlfq_dispatch ps idx lvl qt s) = currentTime (mlfq_ran ps idx lvl qt s)"
  by (simp_all add: mlfq_dispatch_alt Let_def)

lemma mlfq_dispatch_queued_inv:
  assumes inv: "queued_inv ps s0 (q0 s0 @ q1 s0 @ q2 s0)"
    and same: "visited s = visited s0" "remainingTime s = remainingTime s0"
    and lvl: "(lvl = 0 \<and> q0 s0 = idx # q0 s \<and> q1 s = q1 s0 \<and> q2 s = q2 s0) \<or>
              (lvl = 1 \<and> q0 s = q0 s0 \<and> q1 s0 = idx # q1 s \<and> q2 s = q2 s0) \<or>
              (lvl = 2 \<and> q0 s = q0 s0 \<and> q1 s = q1 s0 \<and> q2 s = q2 s0 \<and> q2 s0 = idx # tl (q2 s0))"
    and nonneg: "0 \<le> remainingTime (mlfq_ran ps idx lvl qt s) ! idx"
    and burst: "\<forall>p\<in>set ps. 1 \<le> burstTime p"
  defines "s' \<equiv> mlfq_dispatch ps idx lvl qt s"
  shows "queued_inv ps s' (q0 s' @ q1 s' @ q2 s')"
proof -
  define s2 where "s2 = mlfq_ran ps idx lvl qt s"
  define N where "N = filter (newcomer ps s2) [0..<length ps]"
  note lenv = queued_invD(1) [OF inv] and dist = queued_invD(2) [OF inv]
    and mem = queued_invD(3) [OF inv]
  have nv: "newcomer ps s2 j \<Longrightarrow> \<not> visited s0 ! j" for j
    by (simp add: newcomer_def s2_def same)
  have qv: "i \<in> set (q0 s0 @ q1 s0 @ q2 s0) \<Longrightarrow> visited s0 ! i" for i using mem by blast
  have Nnv: "j \<in> set N \<Longrightarrow> \<not> visited s0 ! j" for j using nv by (simp add: N_def)
  have dN: "distinct N" by (simp add: N_def)
  have disj: "set (q0 s0 @ q1 s0 @ q2 s0) \<inter> set N = {}" using qv Nnv by blast
  have pos: "0 < remainingTime s2 ! idx \<longleftrightarrow> remainingTime s2 ! idx \<noteq> 0"
    using nonneg by (auto simp add: s2_def)
  have r': "remainingTime s' = remainingTime s2"
    by (simp add: s'_def s2_def mlfq_dispatch_other_fields)
  have q0': "q0 s' = q0 s @ N"
    by (simp add: s'_def N_def s2_def mlfq_dispatch_queues)
  have q1': "q1 s' = q1 s @ (if remainingTime s2 ! idx \<noteq> 0 \<and> lvl = 0 then [idx] else [])"
    by (simp add: s'_def s2_def mlfq_dispatch_queues)
  have q2': "q2 s' = (if remainingTime s2 ! idx = 0 then (if lvl = 2 then tl (q2 s) else q2 s)
      else if lvl = 1 then q2 s @ [idx] else q2 s)"
    by (simp add: s'_def s2_def mlfq_dispatch_queues)
  have idxQ: "idx \<in> set (q0 s0 @ q1 s0 @ q2 s0)"
    using lvl by (elim disjE conjE) (simp_all, metis list.set_intros(1))
  have both: "distinct (q0 s' @ q1 s' @ q2 s') \<and>
      set (q0 s' @ q1 s' @ q2 s') = set (q0 s0 @ q1 s0 @ q2 s0) - {idx} \<union> set N \<union>
        {j \<in> {idx}. 0 < remainingTime s2 ! j}"
    using lvl
  proof (elim disjE conjE)
    assume l: "lvl = 0" "q0 s0 = idx # q0 s" "q1 s = q1 s0" "q2 s = q2 s0"
    have d0: "distinct (idx # q0 s @ q1 s0 @ q2 s0)" using dist l by simp
    show ?thesis
      unfolding q0' q1' q2' using d0 dN disj l pos by auto
  next
    assume l: "lvl = 1" "q0 s = q0 s0" "q1 s0 = idx # q1 s" "q2 s = q2 s0"
    have d0: "distinct (q0 s0 @ idx # q1 s @ q2 s0)" using dist l by simp
    show ?thesis
      unfolding q0' q1' q2' using d0 dN disj l pos by auto
  next
    assume l: "lvl = 2" "q0 s = q0 s0" "q1 s = q1 s0" "q2 s = q2 s0" "q2 s0 = idx # tl (q2 s0)"
    define rest where "rest = tl (q2 s0)"
    have q2s: "q2 s0 = idx # rest" using l(5) by (simp add: rest_def)
    have d0: "distinct (q0 s0 @ q1 s0 @ idx # rest)" using dist q2s by simp
    show ?thesis
      unfolding q0' q1' q2' l(1-4) q2s using d0 dN disj q2s pos by auto
  qed
  show ?thesis
  proof (rule queued_inv_step [OF inv, where D = "{idx}" and new = "newcomer ps s2"])
    show "length (visited s') = length ps"
      using lenv by (simp add: s'_def mlfq_dispatch_other_fields same)
    show "\<And>j. j < length ps \<Longrightarrow> visited s' ! j \<longleftrightarrow> visited s0 ! j \<or> newcomer ps s2 j"
      using lenv by (simp add: s'_def mlfq_dispatch_visited s2_def same)
    show "\<And>j. j < length ps \<Longrightarrow> newcomer ps s2 j \<Longrightarrow> \<not> visited s0 ! j" by (rule nv)
    show "\<And>j. j < length ps \<Longrightarrow> j \<notin> {idx} \<Longrightarrow> remainingTime s' ! j = remainingTime s0 ! j"
      by (simp add: r' s2_def same)
    show "{idx} \<subseteq> set (q0 s0 @ q1 s0 @ q2 s0)" using idxQ by simp
    show "distinct (q0 s' @ q1 s' @ q2 s')" using both by simp
    have "set N = {j. j < length ps \<and> newcomer ps s2 j}" by (auto simp add: N_def)
    with both show "set (q0 s' @ q1 s' @ q2 s') = set (q0 s0 @ q1 s0 @ q2 s0) - {idx} \<union>
        {j. j < length ps \<and> newcomer ps s2 j} \<union> {j \<in> {idx}. 0 < remainingTime s' ! j}"
      by (simp add: r')
    show "\<forall>p\<in>set ps. 1 \<le> burstTime p" by (rule burst)
  qed
qed

lemma mlfq_dispatch_visited_arrived:
  assumes lenv: "length (visited s) = length ps" and va: "visited_arrived ps s"
    and d: "0 \<le> mlfq_runTime lvl qt idx s"
  shows "visited_arrived ps (mlfq_dispatch ps idx lvl qt s)"
  unfolding visited_arrived_def
proof (intro allI impI)
  fix i assume i: "i < length ps" and v: "visited (mlfq_dispatch ps idx lvl qt s) ! i"
  have "i < length (visited s)" using i lenv by simp
  from v mlfq_dispatch_visited [OF this] i
  have "visited s ! i \<or> newcomer ps (mlfq_ran ps idx lvl qt s) i" by simp
  then show "arrivalTime (ps ! i) \<le> currentTime (mlfq_dispatch ps idx lvl qt s)"
  proof
    assume "visited s ! i"
    with va i have "arrivalTime (ps ! i) \<le> currentTime s" by (simp add: visited_arrived_def)
    moreover have "currentTime (mlfq_dispatch ps idx lvl qt s) = currentTime s + mlfq_runTime lvl qt idx s"
      by (simp add: mlfq_dispatch_other_fields)
    ultimately show ?thesis using d by linarith
  next
    assume "newcomer ps (mlfq_ran ps idx lvl qt s) i"
    then show ?thesis by (simp add: newcomer_def mlfq_dispatch_other_fields)
  qed
qed

subsection \<open>One iteration and the loop\<close>

lemma mlfq_dispatch_step:
  assumes cinv0: "count_inv ps s0" and qinv0: "queued_inv ps s0 (q0 s0 @ q1 s0 @ q2 s0)"
    and core: "visited s = visited s0" "remainingTime s = remainingTime s0"
      "results s = results s0" "ganttChart s = ganttChart s0" "currentTime s = currentTime s0"
      "completed s = completed s0"
    and lvl: "(lvl = 0 \<and> q0 s0 = idx # q0 s \<and> q1 s = q1 s0 \<and> q2 s = q2 s0) \<or>
              (lvl = 1 \<and> q0 s = q0 s0 \<and> q1 s0 = idx # q1 s \<and> q2 s = q2 s0) \<or>
              (lvl = 2 \<and> q0 s = q0 s0 \<and> q1 s = q1 s0 \<and> q2 s = q2 s0 \<and> q2 s0 = idx # tl (q2 s0))"
    and qt: "lvl \<noteq> 2 \<longrightarrow> 1 \<le> qt"
    and burst: "\<forall>p\<in>set ps. 1 \<le> burstTime p"
  defines "s' \<equiv> mlfq_dispatch ps idx lvl qt s"
  shows "count_inv ps s'" and "queued_inv ps s' (q0 s' @ q1 s' @ q2 s')"
    and "work_left s' < work_left s0"
    and "wait_inv ps s0 \<Longrightarrow> visited_arrived ps s0 \<Longrightarrow> wait_inv ps s' \<and> visited_arrived ps s'"
    and "gantt_inv ps s0 \<Longrightarrow> distinct (map id' ps) \<Longrightarrow> gantt_inv ps s'"
proof -
  define d where "d = mlfq_runTime lvl qt idx s"
  note mem0 = queued_invD(3) [OF qinv0]
  have "idx \<in> set (q0 s0 @ q1 s0 @ q2 s0)"
    using lvl by (elim disjE conjE) (simp_all, metis list.set_intros(1))
  with mem0 have idx: "idx < length ps" "visited s0 ! idx" "0 < remainingTime s0 ! idx" by blast+
  have d: "0 < d" "d \<le> remainingTime s ! idx"
    using idx qt by (auto simp add: d_def mlfq_runTime_def core)
  have cinv: "count_inv ps s" by (rule count_inv_idle [OF cinv0 core(2,6)])
  have sr: "same_run s' (after_slice ps idx d s)"
    and g: "ganttChart s' = ganttChart (after_slice ps idx d s)"
    unfolding s'_def d_def by (rule mlfq_dispatch_same_run)+
  note L = after_slice_layers [OF cinv idx(1) d sr g]
  show "count_inv ps s'" by (rule L(1))
  have "work_left s = work_left s0" by (simp add: work_left_def core)
  with L(2) show "work_left s' < work_left s0" by simp
  have nonneg: "0 \<le> remainingTime (mlfq_ran ps idx lvl qt s) ! idx"
    using d idx count_invD(1) [OF cinv] by (simp add: d_def)
  show "queued_inv ps s' (q0 s' @ q1 s' @ q2 s')"
    unfolding s'_def by (rule mlfq_dispatch_queued_inv [OF qinv0 core(1,2) lvl nonneg burst])
  show "wait_inv ps s' \<and> visited_arrived ps s'" if wi: "wait_inv ps s0" and va: "visited_arrived ps s0"
  proof -
    have w: "wait_inv ps s" by (rule wait_inv_idle [OF wi core(2,3)]) (simp add: core)
    have v: "visited_arrived ps s" by (rule visited_arrived_later [OF va core(1)]) (simp add: core)
    from va idx have a: "arrivalTime (ps ! idx) \<le> currentTime s" by (simp add: visited_arrived_def core)
    have lenv: "length (visited s) = length ps" using queued_invD(1) [OF qinv0] core by simp
    have "0 \<le> mlfq_runTime lvl qt idx s" using d by (simp add: d_def)
    from L(3) [OF w a] mlfq_dispatch_visited_arrived [OF lenv v this] show ?thesis
      by (simp add: s'_def)
  qed
  show "gantt_inv ps s'" if gi: "gantt_inv ps s0" and ids: "distinct (map id' ps)"
  proof -
    have "gantt_inv ps s" by (rule gantt_inv_idle [OF gi core(4,2)]) (simp add: core)
    from L(4) [OF this ids] show ?thesis .
  qed
qed

lemma mlfq_body_step:
  assumes cinv: "count_inv ps s" and qinv: "queued_inv ps s (q0 s @ q1 s @ q2 s)"
    and lt: "completed s < length ps"
    and burst: "\<forall>p\<in>set ps. 1 \<le> burstTime p" and q: "1 \<le> q"
  shows "\<exists>s'. mlfq_body ps q s = Next s' \<and> count_inv ps s' \<and> queued_inv ps s' (q0 s' @ q1 s' @ q2 s') \<and>
           (s', s) \<in> measures [work_left, idle_left ps] \<and>
           (wait_inv ps s \<and> visited_arrived ps s \<longrightarrow> wait_inv ps s' \<and> visited_arrived ps s') \<and>
           (gantt_inv ps s \<and> distinct (map id' ps) \<longrightarrow> gantt_inv ps s')"
proof -
  define s0 where "s0 = foldl (mlfq_admit ps) s [0..<length ps]"
  have core: "remainingTime s0 = remainingTime s" "completed s0 = completed s"
    "results s0 = results s" "ganttChart s0 = ganttChart s" "currentTime s0 = currentTime s"
    by (simp_all add: s0_def)
  have cinv0: "count_inv ps s0" by (rule count_inv_idle [OF cinv core(1,2)])
  have qinv0: "queued_inv ps s0 (q0 s0 @ q1 s0 @ q2 s0)" and adm: "all_admitted ps s0"
    using mlfq_admitted(1,2) [OF qinv burst] by (simp_all add: s0_def)
  have va0: "visited_arrived ps s0" if "visited_arrived ps s"
    using mlfq_admitted(3) [OF qinv burst that] by (simp add: s0_def)
  have w0: "wait_inv ps s0" if "wait_inv ps s"
    by (rule wait_inv_idle [OF that core(1,3)]) (simp add: core)
  have g0: "gantt_inv ps s0" if "gantt_inv ps s"
    by (rule gantt_inv_idle [OF that core(4,1)]) (simp add: core)
  have wl0: "work_left s0 = work_left s" by (simp add: work_left_def core)
  note mem0 = queued_invD(3) [OF qinv0]
  have dispatch: ?thesis
    if b: "mlfq_body ps q s = Next (mlfq_dispatch ps idx lvl qt sin)"
      and core': "visited sin = visited s0" "remainingTime sin = remainingTime s0"
        "results sin = results s0" "ganttChart sin = ganttChart s0" "currentTime sin = currentTime s0"
        "completed sin = completed s0"
      and lvl: "(lvl = 0 \<and> q0 s0 = idx # q0 sin \<and> q1 sin = q1 s0 \<and> q2 sin = q2 s0) \<or>
              (lvl = 1 \<and> q0 sin = q0 s0 \<and> q1 s0 = idx # q1 sin \<and> q2 sin = q2 s0) \<or>
              (lvl = 2 \<and> q0 sin = q0 s0 \<and> q1 sin = q1 s0 \<and> q2 sin = q2 s0 \<and> q2 s0 = idx # tl (q2 s0))"
      and qt: "lvl \<noteq> 2 \<longrightarrow> 1 \<le> qt"
    for idx lvl qt sin
  proof -
    let ?s' = "mlfq_dispatch ps idx lvl qt sin"
    note S = mlfq_dispatch_step [OF cinv0 qinv0 core' lvl qt burst]
    have m: "(?s', s) \<in> measures [work_left, idle_left ps]" using S(3) wl0 by simp
    have w: "wait_inv ps ?s' \<and> visited_arrived ps ?s'" if h: "wait_inv ps s \<and> visited_arrived ps s"
      using S(4) va0 w0 h by blast
    have gi: "gantt_inv ps ?s'" if "gantt_inv ps s \<and> distinct (map id' ps)"
      using S(5) g0 that by blast
    from b S(1,2) m w gi show ?thesis by blast
  qed
  show ?thesis
  proof (cases "q0 s0 \<noteq> []")
    case True
    show ?thesis
    proof (rule dispatch [where lvl = 0 and idx = "hd (q0 s0)" and qt = q and sin = "s0\<lparr>q0 := tl (q0 s0)\<rparr>"])
      show "mlfq_body ps q s = Next (mlfq_dispatch ps (hd (q0 s0)) 0 q (s0\<lparr>q0 := tl (q0 s0)\<rparr>))"
        using True by (simp add: mlfq_body_def s0_def Let_def)
    qed (use True q in simp_all)
  next
    case e0: False
    show ?thesis
    proof (cases "q1 s0 \<noteq> []")
      case True
      show ?thesis
      proof (rule dispatch [where lvl = 1 and idx = "hd (q1 s0)" and qt = "q * 2" and sin = "s0\<lparr>q1 := tl (q1 s0)\<rparr>"])
        show "mlfq_body ps q s = Next (mlfq_dispatch ps (hd (q1 s0)) 1 (q * 2) (s0\<lparr>q1 := tl (q1 s0)\<rparr>))"
          using e0 True by (simp add: mlfq_body_def s0_def Let_def)
      qed (use True q in simp_all)
    next
      case e1: False
      show ?thesis
      proof (cases "q2 s0 \<noteq> []")
        case True
        show ?thesis
        proof (rule dispatch [where lvl = 2 and idx = "hd (q2 s0)" and qt = 0 and sin = s0])
          show "mlfq_body ps q s = Next (mlfq_dispatch ps (hd (q2 s0)) 2 0 s0)"
            using e0 e1 True by (simp add: mlfq_body_def s0_def Let_def)
        qed (use True in simp_all)
      next
        case e2: False
        let ?s' = "s0\<lparr>currentTime := currentTime s0 + 1\<rparr>"
        have b: "mlfq_body ps q s = Next ?s'" using e0 e1 e2 by (simp add: mlfq_body_def s0_def Let_def)
        have lt0: "completed s0 < length ps" using lt core by simp
        from count_inv_unfinished [OF cinv0 lt0] obtain i where i: "i < length ps" "0 < remainingTime s0 ! i"
          by blast
        have "\<not> visited s0 ! i"
        proof
          assume "visited s0 ! i"
          with i mem0 [of i] e0 e1 e2 show False by simp
        qed
        with adm i have late: "currentTime s0 < arrivalTime (ps ! i)" by (simp add: all_admitted_def)
        have c': "count_inv ps ?s'" by (rule count_inv_idle [OF cinv0]) simp_all
        have qi: "queued_inv ps ?s' (q0 ?s' @ q1 ?s' @ q2 ?s')" using qinv0 by (simp add: queued_inv_def)
        have "idle_left ps ?s' < idle_left ps s0" by (rule idle_left_decreases [OF i(1) late]) simp
        moreover have "idle_left ps s0 = idle_left ps s" by (simp add: idle_left_def core)
        moreover have "work_left ?s' = work_left s" by (simp add: work_left_def core)
        ultimately have m: "(?s', s) \<in> measures [work_left, idle_left ps]" by simp
        have w: "wait_inv ps ?s' \<and> visited_arrived ps ?s'" if h: "wait_inv ps s \<and> visited_arrived ps s"
        proof -
          from h have va: "visited_arrived ps s0" and wi: "wait_inv ps s0" using va0 w0 by simp_all
          have "wait_inv ps ?s'" by (rule wait_inv_idle [OF wi]) simp_all
          moreover have "visited_arrived ps ?s'" by (rule visited_arrived_later [OF va]) simp_all
          ultimately show ?thesis by simp
        qed
        have gi: "gantt_inv ps ?s'" if h: "gantt_inv ps s \<and> distinct (map id' ps)"
        proof -
          from h g0 have "gantt_inv ps s0" by simp
          then show ?thesis by (rule gantt_inv_idle) simp_all
        qed
        from b c' qi m w gi show ?thesis by blast
      qed
    qed
  qed
qed

lemma mlfq_loop_total:
  assumes burst: "\<forall>p\<in>set ps. 1 \<le> burstTime p" and q: "1 \<le> q"
  shows "\<exists>t. mlfq_loop ps q = Some (Inr t) \<and> queue_level_inv ps (\<lambda>s. q0 s @ q1 s @ q2 s) t \<and>
           \<not> completed t < length ps"
  unfolding mlfq_loop_def
proof (rule while_loop_total [where R = "measures [work_left, idle_left ps]"])
  show "wf (measures [work_left, idle_left ps])" by simp
  show "queue_level_inv ps (\<lambda>s. q0 s @ q1 s @ q2 s) (init_visit ps)"
    by (rule init_visit_level_inv [OF burst]) simp
  fix u assume I: "queue_level_inv ps (\<lambda>s. q0 s @ q1 s @ q2 s) u" and lt: "completed u < length ps"
  note D = queue_level_invD [OF I]
  from mlfq_body_step [OF D(1,2) lt burst q] D(3,4,5)
  show "\<exists>u'. mlfq_body ps q u = Next u' \<and> queue_level_inv ps (\<lambda>s. q0 s @ q1 s @ q2 s) u' \<and>
      (u', u) \<in> measures [work_left, idle_left ps]"
    unfolding queue_level_inv_def by blast
qed

section \<open>The selection scans\<close>

lemma pick_Some:
  assumes "pick better ready key arr (Inr (idx, best)) k = Inr (idx', best')" and "scan_ok ready k idx"
  shows "scan_ok ready (Suc k) idx'"
  using assms
  by (auto simp add: pick_def scan_ok_def split: if_splits option.splits)

lemma pick_Inl [simp]: "pick better ready key arr (Inl e) k = Inl e"
  by (simp add: pick_def)

lemma foldl_pick_Inl [simp]: "foldl (pick better ready key arr) (Inl e) xs = Inl e"
  by (induction xs) simp_all

lemma foldl_pick_Some:
  "foldl (pick better ready key arr) (Inr (None, init)) [0..<n] = Inr (idx, best) \<Longrightarrow> scan_ok ready n idx"
proof (induction n arbitrary: idx best)
  case 0
  then show ?case by (simp add: scan_ok_def)
next
  case (Suc n)
  show ?case
  proof (cases "foldl (pick better ready key arr) (Inr (None, init)) [0..<n]")
    case (Inl e)
    with Suc.prems show ?thesis by simp
  next
    case (Inr acc)
    obtain i b where acc: "acc = (i, b)" by (cases acc)
    from Suc.IH [OF Inr [unfolded acc]] have ok: "scan_ok ready n i" .
    from Suc.prems Inr acc have "pick better ready key arr (Inr (i, b)) n = Inr (idx, best)" by simp
    from pick_Some [OF this ok] show ?thesis .
  qed
qed

lemma scan_Some:
  "scan better init ready key arr n = Inr (Some i) \<Longrightarrow> i < n \<and> ready i"
proof -
  assume a: "scan better init ready key arr n = Inr (Some i)"
  then obtain best where "foldl (pick better ready key arr) (Inr (None, init)) [0..<n] = Inr (Some i, best)"
    by (auto simp add: scan_def split: sum.splits)
  from foldl_pick_Some [OF this] show ?thesis by (simp add: scan_ok_def)
qed

lemma foldl_pick_total:
  assumes H: "\<And>i. i < n \<Longrightarrow> ready i \<Longrightarrow> better (key i) init"
  shows "k \<le> n \<Longrightarrow> \<exists>idx best. foldl (pick better ready key arr) (Inr (None, init)) [0..<k] = Inr (idx, best) \<and>
           (idx = None \<longrightarrow> best = init \<and> (\<forall>j<k. \<not> ready j))"
proof (induction k)
  case 0
  then show ?case by simp
next
  case (Suc k)
  then obtain idx best where f: "foldl (pick better ready key arr) (Inr (None, init)) [0..<k] = Inr (idx, best)"
    and none: "idx = None \<longrightarrow> best = init \<and> (\<forall>j<k. \<not> ready j)" by auto
  have k: "k < n" using Suc.prems by simp
  have step: "foldl (pick better ready key arr) (Inr (None, init)) [0..<Suc k] =
      pick better ready key arr (Inr (idx, best)) k"
    using f by simp
  show ?case
  proof (cases idx)
    case None
    with none have best: "best = init" and nr: "\<forall>j<k. \<not> ready j" by simp_all
    show ?thesis
    proof (cases "ready k")
      case True
      with H [OF k True] None best
      have "pick better ready key arr (Inr (idx, best)) k = Inr (Some k, Some (key k))"
        by (simp add: pick_def)
      with step show ?thesis by simp
    next
      case False
      with nr have "\<forall>j<Suc k. \<not> ready j" by (simp add: less_Suc_eq)
      moreover from False have "pick better ready key arr (Inr (idx, best)) k = Inr (idx, best)"
        by (simp add: pick_def)
      ultimately show ?thesis using step None best by simp
    qed
  next
    case (Some j)
    then have "\<exists>i b. pick better ready key arr (Inr (idx, best)) k = Inr (Some i, b)"
      by (auto simp add: pick_def)
    with step show ?thesis by auto
  qed
qed

lemma scan_total:
  assumes H: "\<And>i. i < n \<Longrightarrow> ready i \<Longrightarrow> better (key i) init"
  shows "\<exists>r. scan better init ready key arr n = Inr r \<and> (r = None \<longrightarrow> (\<forall>j<n. \<not> ready j))"
proof -
  from foldl_pick_total [of n ready better key init n arr, OF H]
  obtain idx best where "foldl (pick better ready key arr) (Inr (None, init)) [0..<n] = Inr (idx, best)"
    "idx = None \<longrightarrow> best = init \<and> (\<forall>j<n. \<not> ready j)" by auto
  then show ?thesis by (simp add: scan_def)
qed

subsection \<open>The scan of HRRN\<close>

lemma foldl_pickHRRN:
  "scan_ok (\<lambda>i. arrivalTime (ps ! i) \<le> currentTime s \<and> \<not> isCompleted s ! i) n
     (fst (foldl (pickHRRN ps s) (None, Num (- 1)) [0..<n]))"
proof (induction n)
  case 0
  then show ?case by (simp add: scan_ok_def)
next
  case (Suc n)
  then show ?case
    by (auto simp add: scan_ok_def pickHRRN_def Let_def split: option.splits)
qed

lemma js_gt_ratio:
  assumes "1 \<le> b" "0 \<le> w"
  shows "js_gt (js_div (w + b) b) (Num (- 1))"
proof -
  have "(0::rat) \<le> of_int (w + b) / of_int b" using assms by simp
  then have "(- 1::rat) < of_int (w + b) / of_int b" by linarith
  with assms show ?thesis by (simp add: js_div_def)
qed

lemma foldl_pickHRRN_None:
  assumes burst: "\<And>i. i < n \<Longrightarrow> 1 \<le> burstTime (ps ! i)"
  shows "k \<le> n \<Longrightarrow> fst (foldl (pickHRRN ps s) (None, Num (- 1)) [0..<k]) = None \<Longrightarrow>
         snd (foldl (pickHRRN ps s) (None, Num (- 1)) [0..<k]) = Num (- 1) \<and>
         (\<forall>j<k. \<not> (arrivalTime (ps ! j) \<le> currentTime s \<and> \<not> isCompleted s ! j))"
proof (induction k)
  case 0
  then show ?case by simp
next
  case (Suc k)
  let ?acc = "foldl (pickHRRN ps s) (None, Num (- 1)) [0..<k]"
  have k: "k < n" using Suc.prems by simp
  have step: "foldl (pickHRRN ps s) (None, Num (- 1)) [0..<Suc k] = pickHRRN ps s ?acc k" by simp
  have fstN: "fst ?acc = None"
    using Suc.prems(2) unfolding step by (auto simp add: pickHRRN_def Let_def split: if_splits)
  from Suc.IH [OF _ fstN] k have sndN: "snd ?acc = Num (- 1)"
    and nr: "\<forall>j<k. \<not> (arrivalTime (ps ! j) \<le> currentTime s \<and> \<not> isCompleted s ! j)" by simp_all
  have notready: "\<not> (arrivalTime (ps ! k) \<le> currentTime s \<and> \<not> isCompleted s ! k)"
  proof
    assume r: "arrivalTime (ps ! k) \<le> currentTime s \<and> \<not> isCompleted s ! k"
    then have "0 \<le> currentTime s - arrivalTime (ps ! k)" by simp
    from js_gt_ratio [OF burst [OF k] this] r sndN
    have "fst (pickHRRN ps s ?acc k) = Some k" by (simp add: pickHRRN_def Let_def)
    with Suc.prems(2) step show False by simp
  qed
  then have "pickHRRN ps s ?acc k = ?acc" unfolding pickHRRN_def by (simp only: if_False)
  with step sndN nr notready show ?case by (simp add: less_Suc_eq)
qed

section \<open>The preemptive solvers\<close>

subsection \<open>The scans\<close>

lemma pre_select_okI:
  assumes "\<And>ps s i. select ps s = Inr (Some i) \<Longrightarrow> i < length ps \<and> pre_ready ps s i"
    and "\<And>ps s. \<exists>r. select ps s = Inr r \<and> (r = None \<longrightarrow> (\<forall>j<length ps. \<not> pre_ready ps s j))"
  shows "pre_select_ok select"
  unfolding pre_select_ok_def
proof (intro allI)
  fix ps s
  from assms(2) [of ps s] obtain r where r: "select ps s = Inr r"
    "r = None \<longrightarrow> (\<forall>j<length ps. \<not> pre_ready ps s j)" by blast
  show "\<exists>r. select ps s = Inr r \<and>
        (case r of None \<Rightarrow> \<forall>j<length ps. \<not> pre_ready ps s j
         | Some i \<Rightarrow> i < length ps \<and> pre_ready ps s i)"
  proof (cases r)
    case None
    with r show ?thesis by simp
  next
    case (Some i)
    with r assms(1) [of ps s i] show ?thesis by simp
  qed
qed

lemma selectSRTF_ok: "pre_select_ok selectSRTF"
proof (rule pre_select_okI)
  fix ps s i
  assume "selectSRTF ps s = Inr (Some i)"
  from scan_Some [OF this [unfolded selectSRTF_def]] show "i < length ps \<and> pre_ready ps s i"
    by (simp add: pre_ready_def)
next
  fix ps s
  show "\<exists>r. selectSRTF ps s = Inr r \<and> (r = None \<longrightarrow> (\<forall>j<length ps. \<not> pre_ready ps s j))"
    unfolding selectSRTF_def pre_ready_def by (rule scan_total) simp
qed

lemma selectPriorityP_ok: "pre_select_ok selectPriorityP"
proof (rule pre_select_okI)
  fix ps s i
  assume "selectPriorityP ps s = Inr (Some i)"
  from scan_Some [OF this [unfolded selectPriorityP_def]] show "i < length ps \<and> pre_ready ps s i"
    by (simp add: pre_ready_def)
next
  fix ps s
  show "\<exists>r. selectPriorityP ps s = Inr r \<and> (r = None \<longrightarrow> (\<forall>j<length ps. \<not> pre_ready ps s j))"
    unfolding selectPriorityP_def pre_ready_def by (rule scan_total) simp
qed

lemma selectLRTF_ok: "pre_select_ok selectLRTF"
proof (rule pre_select_okI)
  fix ps s i
  assume "selectLRTF ps s = Inr (Some i)"
  from scan_Some [OF this [unfolded selectLRTF_def]] show "i < length ps \<and> pre_ready ps s i"
    by (simp add: pre_ready_def)
next
  fix ps s
  show "\<exists>r. selectLRTF ps s = Inr r \<and> (r = None \<longrightarrow> (\<forall>j<length ps. \<not> pre_ready ps s j))"
    unfolding selectLRTF_def pre_ready_def by (rule scan_total) simp
qed

lemma pre_select_disj:
  assumes "pre_select_ok select"
  shows "(select ps s = Inr None \<and> (\<forall>j<length ps. \<not> pre_ready ps s j)) \<or>
         (\<exists>idx. select ps s = Inr (Some idx) \<and> idx < length ps \<and> pre_ready ps s idx)"
proof -
  from assms obtain r where r: "select ps s = Inr r"
    "case r of None \<Rightarrow> \<forall>j<length ps. \<not> pre_ready ps s j | Some i \<Rightarrow> i < length ps \<and> pre_ready ps s i"
    unfolding pre_select_ok_def by blast
  then show ?thesis by (cases r) simp_all
qed

subsection \<open>One unit of time in a preemptive solver\<close>

lemma pre_tick_fields:
  "remainingTime (pre_tick reset ps idx s) = (remainingTime s)[idx := remainingTime s ! idx - 1]"
  "currentTime (pre_tick reset ps idx s) = currentTime s + 1"
  "completed (pre_tick reset ps idx s) =
     (if (remainingTime s)[idx := remainingTime s ! idx - 1] ! idx = 0 then completed s + 1 else completed s)"
  "ganttChart (pre_tick reset ps idx s) =
     (if lastProcessId s \<noteq> id' (ps ! idx)
      then ganttChart s @ [mkBlock (id' (ps ! idx)) (currentTime s) (currentTime s + 1)]
      else extend_last (ganttChart s))"
  "lastProcessId (pre_tick reset ps idx s) =
     (if (remainingTime s)[idx := remainingTime s ! idx - 1] ! idx = 0 \<and> reset then [] else id' (ps ! idx))"
  by (auto simp add: pre_tick_def Let_def)

lemma mark_start_other_update [simp]:
  "results (mark_start idx (s\<lparr>ganttChart := g\<rparr>)) = results (mark_start idx s)"
  "results (mark_start idx (s\<lparr>ganttChart := g, lastProcessId := l\<rparr>)) = results (mark_start idx s)"
  by (simp_all add: mark_start_def)

lemma pre_tick_results:
  assumes "idx < length (results s)" "arrivalTime (results s ! idx) = arrivalTime (ps ! idx)"
    "burstTime (results s ! idx) = burstTime (ps ! idx)"
  shows "results (pre_tick reset ps idx s) = results (after_slice ps idx 1 s)"
proof -
  have a: "arrivalTime (results (mark_start idx s) ! idx) = arrivalTime (ps ! idx)"
    "burstTime (results (mark_start idx s) ! idx) = burstTime (ps ! idx)"
    using assms by (simp_all add: results_mark_start_fields)
  show ?thesis
    by (auto simp add: pre_tick_def Let_def after_slice_def complete_def a)
qed

lemma pre_tick_same_run:
  assumes "idx < length (results s)" "arrivalTime (results s ! idx) = arrivalTime (ps ! idx)"
    "burstTime (results s ! idx) = burstTime (ps ! idx)"
  shows "same_run (pre_tick reset ps idx s) (after_slice ps idx 1 s)"
  unfolding same_run_def
  using pre_tick_results [OF assms] by (simp add: pre_tick_fields after_slice_fields)

lemma wait_invD:
  assumes "wait_inv ps s"
  shows "length (results s) = length ps"
    and "\<And>i. i < length ps \<Longrightarrow> arrivalTime (results s ! i) = arrivalTime (ps ! i)"
    and "\<And>i. i < length ps \<Longrightarrow> burstTime (results s ! i) = burstTime (ps ! i)"
    and "\<And>i. i < length ps \<Longrightarrow> remainingTime s ! i = 0 \<Longrightarrow> result_ok (results s ! i)"
  using assms unfolding wait_inv_def by blast+

lemma pre_tick_count_inv:
  assumes cinv: "count_inv ps s" and idx: "idx < length ps" and r: "pre_ready ps s idx"
  shows "count_inv ps (pre_tick reset ps idx s)"
    and "work_left (pre_tick reset ps idx s) < work_left s"
proof -
  have d: "(0::int) < 1" "1 \<le> remainingTime s ! idx" using r by (simp_all add: pre_ready_def)
  show "count_inv ps (pre_tick reset ps idx s)"
    by (rule count_inv_idle [OF count_inv_after_slice [OF cinv idx d]])
      (simp_all add: pre_tick_fields after_slice_fields)
  show "work_left (pre_tick reset ps idx s) < work_left s"
    by (rule work_left_decreases [OF cinv idx d]) (simp add: pre_tick_fields)
qed

lemma pre_tick_wait_inv:
  assumes cinv: "count_inv ps s" and winv: "wait_inv ps s" and idx: "idx < length ps"
    and r: "pre_ready ps s idx"
  shows "wait_inv ps (pre_tick reset ps idx s)"
proof -
  have d: "(0::int) < 1" "1 \<le> remainingTime s ! idx" using r by (simp_all add: pre_ready_def)
  have a: "arrivalTime (ps ! idx) \<le> currentTime s" using r by (simp add: pre_ready_def)
  have i: "idx < length (results s)" using idx wait_invD(1) [OF winv] by simp
  have sr: "same_run (pre_tick reset ps idx s) (after_slice ps idx 1 s)"
    by (rule pre_tick_same_run [OF i wait_invD(2) [OF winv idx] wait_invD(3) [OF winv idx]])
  from wait_inv_after_slice [OF winv cinv idx d a] wait_inv_cong [OF sr] show ?thesis by simp
qed

subsection \<open>Extending the last block\<close>

lemma merged_snoc:
  "merged (g @ [b]) \<longleftrightarrow>
   merged g \<and> (g \<noteq> [] \<longrightarrow> \<not> (processId (last g) = processId b \<and> GanttBlock.endTime (last g) = GanttBlock.startTime b))"
  by (induction g rule: merged.induct) auto

lemma extend_last_fields:
  assumes "g \<noteq> []"
  shows "extend_last g \<noteq> []"
    and "processId (last (extend_last g)) = processId (last g)"
    and "GanttBlock.startTime (last (extend_last g)) = GanttBlock.startTime (last g)"
    and "GanttBlock.endTime (last (extend_last g)) = GanttBlock.endTime (last g) + 1"
    and "butlast (extend_last g) = butlast g"
  by (simp_all add: extend_last_def)

lemma merged_extend_last:
  assumes "merged g" "g \<noteq> []"
  shows "merged (extend_last g)"
proof -
  from assms(2) have g: "g = butlast g @ [last g]" by simp
  from assms(1) have "merged (butlast g @ [last g])" using g by simp
  then show ?thesis
    by (simp add: merged_snoc extend_last_def)
qed

lemma block_time_extend_last:
  assumes "g \<noteq> []"
  shows "block_time p (extend_last g) = block_time p g + (if processId (last g) = p then 1 else 0)"
proof -
  from assms have g: "g = butlast g @ [last g]" by simp
  have "block_time p g = block_time p (butlast g) + block_time p [last g]"
    by (subst g) (simp only: block_time_append)
  then show ?thesis
    by (simp add: extend_last_def block_time_def)
qed

lemma chart_ok_extend_last:
  assumes "chart_ok g" "g \<noteq> []"
  shows "chart_ok (extend_last g)"
proof -
  from assms(2) have g: "g = butlast g @ [last g]" by simp
  from assms(1) have "chart_ok (butlast g @ [last g])" using g by simp
  then show ?thesis
    by (auto simp add: chart_ok_def sorted_wrt_append extend_last_def)
qed

lemma set_extend_last:
  assumes "g \<noteq> []" "b \<in> set (extend_last g)"
  shows "b \<in> set g \<or> b = (last g)\<lparr>GanttBlock.endTime := GanttBlock.endTime (last g) + 1\<rparr>"
  using assms by (auto simp add: extend_last_def dest: in_set_butlastD)

lemma gantt_inv_extend:
  assumes inv: "gantt_inv ps s" and ids: "distinct (map id' ps)" and idx: "idx < length ps"
    and len: "length (remainingTime s) = length ps" and ne: "ganttChart s \<noteq> []"
    and lastp: "processId (last (ganttChart s)) = id' (ps ! idx)"
    and laste: "GanttBlock.endTime (last (ganttChart s)) = currentTime s"
    and g': "ganttChart s' = extend_last (ganttChart s)"
    and r': "remainingTime s' = (remainingTime s)[idx := remainingTime s ! idx - 1]"
    and t': "currentTime s' = currentTime s + 1"
  shows "gantt_inv ps s'"
proof -
  from inv have ok: "chart_ok (ganttChart s)"
    and bl: "\<And>b. b \<in> set (ganttChart s) \<Longrightarrow> GanttBlock.endTime b \<le> currentTime s \<and> processId b \<in> id' ` set ps"
    and bt: "\<And>i. i < length ps \<Longrightarrow> block_time (id' (ps ! i)) (ganttChart s) = burstTime (ps ! i) - remainingTime s ! i"
    by (simp_all add: gantt_inv_def)
  have 1: "chart_ok (ganttChart s')" using chart_ok_extend_last [OF ok ne] by (simp add: g')
  have lastin: "last (ganttChart s) \<in> set (ganttChart s)" using ne by simp
  have 2: "GanttBlock.endTime b \<le> currentTime s' \<and> processId b \<in> id' ` set ps"
    if "b \<in> set (ganttChart s')" for b
  proof -
    from that set_extend_last [OF ne, of b] g'
    have "b \<in> set (ganttChart s) \<or>
      b = (last (ganttChart s))\<lparr>GanttBlock.endTime := GanttBlock.endTime (last (ganttChart s)) + 1\<rparr>"
      by simp
    then show ?thesis
    proof
      assume "b \<in> set (ganttChart s)"
      with bl [of b] t' show ?thesis by simp
    next
      assume "b = (last (ganttChart s))\<lparr>GanttBlock.endTime := GanttBlock.endTime (last (ganttChart s)) + 1\<rparr>"
      with bl [OF lastin] laste t' show ?thesis by simp
    qed
  qed
  have 3: "block_time (id' (ps ! i)) (ganttChart s') = burstTime (ps ! i) - remainingTime s' ! i"
    if i: "i < length ps" for i
  proof (cases "i = idx")
    case True
    with bt [OF i] idx len lastp show ?thesis by (simp add: g' r' block_time_extend_last [OF ne])
  next
    case False
    with distinct_ids_nth [OF ids idx i] bt [OF i] lastp show ?thesis
      by (simp add: g' r' block_time_extend_last [OF ne])
  qed
  from 1 2 3 show ?thesis by (simp add: gantt_inv_def)
qed

subsection \<open>The chart after a tick\<close>

lemma pre_gantt_invD:
  assumes "pre_gantt_inv ps s"
  shows "gantt_inv ps s" and "merged (ganttChart s)"
    and "lastProcessId s \<noteq> [] \<Longrightarrow> ganttChart s \<noteq> [] \<and> processId (last (ganttChart s)) = lastProcessId s"
    and "\<And>j. j < length ps \<Longrightarrow> lastProcessId s = id' (ps ! j) \<Longrightarrow> arrivalTime (ps ! j) \<le> currentTime s"
    and "\<And>j. j < length ps \<Longrightarrow> lastProcessId s = id' (ps ! j) \<Longrightarrow> 0 < remainingTime s ! j \<Longrightarrow>
           GanttBlock.endTime (last (ganttChart s)) = currentTime s"
    and "\<And>j. j < length ps \<Longrightarrow> ganttChart s \<noteq> [] \<Longrightarrow> processId (last (ganttChart s)) = id' (ps ! j) \<Longrightarrow>
           0 < remainingTime s ! j \<Longrightarrow> GanttBlock.endTime (last (ganttChart s)) = currentTime s \<Longrightarrow>
           lastProcessId s = id' (ps ! j)"
  using assms unfolding pre_gantt_inv_def by blast+

lemma pre_gantt_invI:
  assumes "gantt_inv ps s" and "merged (ganttChart s)"
    and "lastProcessId s \<noteq> [] \<Longrightarrow> ganttChart s \<noteq> [] \<and> processId (last (ganttChart s)) = lastProcessId s"
    and "\<And>j. j < length ps \<Longrightarrow> lastProcessId s = id' (ps ! j) \<Longrightarrow> arrivalTime (ps ! j) \<le> currentTime s"
    and "\<And>j. j < length ps \<Longrightarrow> lastProcessId s = id' (ps ! j) \<Longrightarrow> 0 < remainingTime s ! j \<Longrightarrow>
           GanttBlock.endTime (last (ganttChart s)) = currentTime s"
    and "\<And>j. j < length ps \<Longrightarrow> ganttChart s \<noteq> [] \<Longrightarrow> processId (last (ganttChart s)) = id' (ps ! j) \<Longrightarrow>
           0 < remainingTime s ! j \<Longrightarrow> GanttBlock.endTime (last (ganttChart s)) = currentTime s \<Longrightarrow>
           lastProcessId s = id' (ps ! j)"
  shows "pre_gantt_inv ps s"
  unfolding pre_gantt_inv_def using assms by blast

lemma pre_tick_gantt_inv:
  assumes ginv: "pre_gantt_inv ps s" and cinv: "count_inv ps s"
    and ids: "distinct (map id' ps)" and nonempty: "\<forall>p\<in>set ps. id' p \<noteq> []"
    and idx: "idx < length ps" and r: "pre_ready ps s idx"
  shows "pre_gantt_inv ps (pre_tick reset ps idx s)"
proof -
  let ?s' = "pre_tick reset ps idx s"
  let ?g = "ganttChart s"
  let ?b = "mkBlock (id' (ps ! idx)) (currentTime s) (currentTime s + 1)"
  note G = pre_gantt_invD [OF ginv]
  have len: "length (remainingTime s) = length ps" by (rule count_invD(1) [OF cinv])
  have pos: "0 < remainingTime s ! idx" and arr: "arrivalTime (ps ! idx) \<le> currentTime s"
    using r by (simp_all add: pre_ready_def)
  have ne: "id' (ps ! j) \<noteq> []" if "j < length ps" for j using nonempty that by simp
  have r': "remainingTime ?s' = (remainingTime s)[idx := remainingTime s ! idx - 1]"
    and t': "currentTime ?s' = currentTime s + 1"
    by (simp_all add: pre_tick_fields)
  have r'idx: "remainingTime ?s' ! idx = remainingTime s ! idx - 1" using idx len by (simp add: r')
  have l': "lastProcessId ?s' = (if remainingTime ?s' ! idx = 0 \<and> reset then [] else id' (ps ! idx))"
    by (simp add: pre_tick_fields)
  have main: "gantt_inv ps ?s' \<and> merged (ganttChart ?s') \<and> ganttChart ?s' \<noteq> [] \<and>
      processId (last (ganttChart ?s')) = id' (ps ! idx) \<and>
      GanttBlock.endTime (last (ganttChart ?s')) = currentTime s + 1"
  proof (cases "lastProcessId s \<noteq> id' (ps ! idx)")
    case True
    have g': "ganttChart ?s' = ?g @ [?b]" using True by (simp add: pre_tick_fields)
    have gi: "gantt_inv ps ?s'"
      by (rule gantt_inv_push [OF G(1) ids idx len, of 1 "currentTime s"]) (simp_all add: g' r' t')
    have "\<not> (processId (last ?g) = id' (ps ! idx) \<and> GanttBlock.endTime (last ?g) = currentTime s)"
      if "?g \<noteq> []"
    proof
      assume "processId (last ?g) = id' (ps ! idx) \<and> GanttBlock.endTime (last ?g) = currentTime s"
      with G(6) [OF idx that _ pos] True show False by simp
    qed
    then have "merged (?g @ [?b])" using G(2) by (simp add: merged_snoc)
    with gi show ?thesis by (simp add: g')
  next
    case False
    then have eq: "lastProcessId s = id' (ps ! idx)" by simp
    with ne [OF idx] have "lastProcessId s \<noteq> []" by simp
    from G(3) [OF this] eq have gne: "?g \<noteq> []" and lp: "processId (last ?g) = id' (ps ! idx)" by simp_all
    have le: "GanttBlock.endTime (last ?g) = currentTime s" by (rule G(5) [OF idx eq pos])
    have g': "ganttChart ?s' = extend_last ?g" using eq by (simp add: pre_tick_fields)
    have gi: "gantt_inv ps ?s'"
      by (rule gantt_inv_extend [OF G(1) ids idx len gne lp le g' r' t'])
    from gi merged_extend_last [OF G(2) gne] extend_last_fields [OF gne] lp le
    show ?thesis by (simp add: g')
  qed
  show ?thesis
  proof (rule pre_gantt_invI)
    show "gantt_inv ps ?s'" and "merged (ganttChart ?s')" using main by simp_all
    show "ganttChart ?s' \<noteq> [] \<and> processId (last (ganttChart ?s')) = lastProcessId ?s'"
      if "lastProcessId ?s' \<noteq> []"
      using that main l' by (simp split: if_splits)
  next
    fix j assume j: "j < length ps" and lj: "lastProcessId ?s' = id' (ps ! j)"
    from lj l' ne [OF j] have "id' (ps ! idx) = id' (ps ! j)" by (simp split: if_splits)
    with distinct_ids_nth [OF ids idx j] have ji: "j = idx" by simp
    show "arrivalTime (ps ! j) \<le> currentTime ?s'" using ji arr t' by simp
    show "GanttBlock.endTime (last (ganttChart ?s')) = currentTime ?s'" using main t' by simp
  next
    fix j assume j: "j < length ps" and lp: "processId (last (ganttChart ?s')) = id' (ps ! j)"
      and pj: "0 < remainingTime ?s' ! j"
    from lp main have "id' (ps ! idx) = id' (ps ! j)" by simp
    with distinct_ids_nth [OF ids idx j] have ji: "j = idx" by simp
    with pj have "remainingTime ?s' ! idx \<noteq> 0" by simp
    with l' ji show "lastProcessId ?s' = id' (ps ! j)" by simp
  qed
qed

lemma pre_idle_gantt_inv:
  assumes ginv: "pre_gantt_inv ps s"
    and idle: "\<And>j. j < length ps \<Longrightarrow> \<not> pre_ready ps s j"
  shows "pre_gantt_inv ps (s\<lparr>currentTime := currentTime s + 1\<rparr>)"
proof -
  let ?s' = "s\<lparr>currentTime := currentTime s + 1\<rparr>"
  note G = pre_gantt_invD [OF ginv]
  have gi: "gantt_inv ps ?s'" by (rule gantt_inv_idle [OF G(1)]) simp_all
  show ?thesis
  proof (rule pre_gantt_invI)
    show "gantt_inv ps ?s'" by (rule gi)
    show "merged (ganttChart ?s')" using G(2) by simp
    show "ganttChart ?s' \<noteq> [] \<and> processId (last (ganttChart ?s')) = lastProcessId ?s'"
      if "lastProcessId ?s' \<noteq> []" using that G(3) by simp
  next
    fix j assume j: "j < length ps" and lj: "lastProcessId ?s' = id' (ps ! j)"
    then have lj0: "lastProcessId s = id' (ps ! j)" by simp
    from G(4) [OF j lj0] show "arrivalTime (ps ! j) \<le> currentTime ?s'" by simp
    assume "0 < remainingTime ?s' ! j"
    with G(4) [OF j lj0] idle [OF j] show "GanttBlock.endTime (last (ganttChart ?s')) = currentTime ?s'"
      by (simp add: pre_ready_def)
  next
    fix j assume "ganttChart ?s' \<noteq> []"
      and e: "GanttBlock.endTime (last (ganttChart ?s')) = currentTime ?s'"
    then have "last (ganttChart s) \<in> set (ganttChart s)" by simp
    with G(1) have "GanttBlock.endTime (last (ganttChart s)) \<le> currentTime s"
      by (simp add: gantt_inv_def)
    with e show "lastProcessId ?s' = id' (ps ! j)" by simp
  qed
qed

lemma pre_init_gantt_inv:
  assumes "\<forall>p\<in>set ps. id' p \<noteq> []"
  shows "pre_gantt_inv ps (init_run ps)"
proof (rule pre_gantt_invI)
  show "gantt_inv ps (init_run ps)" by (rule gantt_inv_init) simp_all
  show "merged (ganttChart (init_run ps))" by simp
  fix j assume "j < length ps" "lastProcessId (init_run ps) = id' (ps ! j)"
  with assms have False by (metis init_run_fields(10) nth_mem)
  then show "arrivalTime (ps ! j) \<le> currentTime (init_run ps)"
    and "GanttBlock.endTime (last (ganttChart (init_run ps))) = currentTime (init_run ps)" by simp_all
qed simp_all

subsection \<open>The loop of the preemptive solvers\<close>

lemma pre_body_inv:
  assumes sel: "pre_select_ok select" and inv: "pre_inv ps s"
    and b: "pre_body reset select ps s = Next s'"
  shows "pre_inv ps s'"
proof -
  from inv have cinv: "count_inv ps s" and winv: "wait_inv ps s" by (simp_all add: pre_inv_def)
  from pre_select_disj [OF sel, of ps s] show ?thesis
  proof (elim disjE exE conjE)
    assume idle: "select ps s = Inr None" "\<forall>j<length ps. \<not> pre_ready ps s j"
    with b have s': "s' = s\<lparr>currentTime := currentTime s + 1\<rparr>" by (simp add: pre_body_def)
    have "count_inv ps s'" unfolding s' by (rule count_inv_idle [OF cinv]) simp_all
    moreover have "wait_inv ps s'" unfolding s' by (rule wait_inv_idle [OF winv]) simp_all
    ultimately show ?thesis by (simp add: pre_inv_def)
  next
    fix idx assume tick: "select ps s = Inr (Some idx)" "idx < length ps" "pre_ready ps s idx"
    with b have s': "s' = pre_tick reset ps idx s" by (simp add: pre_body_def split: if_splits)
    from pre_tick_count_inv(1) [OF cinv tick(2,3)] pre_tick_wait_inv [OF cinv winv tick(2,3)]
    show ?thesis by (simp add: pre_inv_def s')
  qed
qed

lemma pre_init_inv:
  assumes "\<forall>p\<in>set ps. 1 \<le> burstTime p"
  shows "pre_inv ps (init_run ps)"
  unfolding pre_inv_def
  using count_inv_init [of "init_run ps" ps] wait_inv_init [of "init_run ps" ps] assms by simp

lemma pre_loop_partial:
  assumes sel: "pre_select_ok select" and burst: "\<forall>p\<in>set ps. 1 \<le> burstTime p"
    and run: "pre_loop reset select ps = Some (Inr t)"
  shows "pre_inv ps t \<and> \<not> completed t < length ps"
proof (rule while_loop_invariant [OF run [unfolded pre_loop_def], where I = "pre_inv ps"])
  show "pre_inv ps (init_run ps)" by (rule pre_init_inv [OF burst])
  show "\<And>u u'. pre_inv ps u \<Longrightarrow> completed u < length ps \<Longrightarrow> pre_body reset select ps u = Next u' \<Longrightarrow> pre_inv ps u'"
    by (rule pre_body_inv [OF sel])
  show "\<And>u u'. pre_inv ps u \<Longrightarrow> completed u < length ps \<Longrightarrow> pre_body reset select ps u = Break u' \<Longrightarrow>
      pre_inv ps u' \<and> \<not> completed u' < length ps"
    by (auto simp add: pre_body_def split: sum.splits option.splits if_splits)
  show "\<And>u. pre_inv ps u \<Longrightarrow> \<not> completed u < length ps \<Longrightarrow> pre_inv ps u \<and> \<not> completed u < length ps"
    by simp
qed

lemma pre_body_total:
  assumes sel: "pre_select_ok select" and inv: "pre_inv_total ps s" and lt: "completed s < length ps"
    and nonempty: "\<forall>p\<in>set ps. id' p \<noteq> []"
  shows "\<exists>s'. pre_body reset select ps s = Next s' \<and> pre_inv_total ps s' \<and>
           (s', s) \<in> measures [work_left, idle_left ps]"
proof -
  from inv have pinv: "pre_inv ps s" and nothrow: "ganttChart s = [] \<longrightarrow> lastProcessId s = []"
    and ginv: "distinct (map id' ps) \<longrightarrow> pre_gantt_inv ps s"
    by (simp_all add: pre_inv_total_def)
  from pinv have cinv: "count_inv ps s" by (simp add: pre_inv_def)
  from pre_select_disj [OF sel, of ps s] show ?thesis
  proof (elim disjE exE conjE)
    assume idle: "select ps s = Inr None" "\<forall>j<length ps. \<not> pre_ready ps s j"
    let ?s' = "s\<lparr>currentTime := currentTime s + 1\<rparr>"
    have b: "pre_body reset select ps s = Next ?s'" using idle(1) by (simp add: pre_body_def)
    from count_inv_unfinished [OF cinv lt] obtain i where i: "i < length ps" "0 < remainingTime s ! i"
      by blast
    with idle(2) have late: "currentTime s < arrivalTime (ps ! i)" by (auto simp add: pre_ready_def not_le)
    have "idle_left ps ?s' < idle_left ps s" by (rule idle_left_decreases [OF i(1) late]) simp
    moreover have "work_left ?s' = work_left s" by (simp add: work_left_def)
    ultimately have m: "(?s', s) \<in> measures [work_left, idle_left ps]" by simp
    have g: "pre_gantt_inv ps ?s'" if "distinct (map id' ps)"
      using pre_idle_gantt_inv [of ps s] ginv that idle(2) by blast
    have "pre_inv_total ps ?s'"
      unfolding pre_inv_total_def
      using pre_body_inv [OF sel pinv b] nothrow g by simp
    with b m show ?thesis by blast
  next
    fix idx assume tick: "select ps s = Inr (Some idx)" "idx < length ps" "pre_ready ps s idx"
    let ?s' = "pre_tick reset ps idx s"
    have "id' (ps ! idx) \<noteq> []" using nonempty tick(2) by simp
    with nothrow have "\<not> (lastProcessId s = id' (ps ! idx) \<and> ganttChart s = [])" by auto
    with tick(1) have b: "pre_body reset select ps s = Next ?s'" by (simp add: pre_body_def)
    have m: "(?s', s) \<in> measures [work_left, idle_left ps]"
      using pre_tick_count_inv(2) [OF cinv tick(2,3)] by simp
    have g: "pre_gantt_inv ps ?s'" if ids: "distinct (map id' ps)"
    proof -
      from ginv ids have "pre_gantt_inv ps s" by simp
      from pre_tick_gantt_inv [OF this cinv ids nonempty tick(2,3)] show ?thesis .
    qed
    have ne: "ganttChart ?s' \<noteq> []"
      by (simp add: pre_tick_fields extend_last_def)
    have "pre_inv_total ps ?s'"
      unfolding pre_inv_total_def
      using pre_body_inv [OF sel pinv b] ne g by simp
    with b m show ?thesis by blast
  qed
qed

lemma pre_loop_total:
  assumes sel: "pre_select_ok select" and burst: "\<forall>p\<in>set ps. 1 \<le> burstTime p"
    and nonempty: "\<forall>p\<in>set ps. id' p \<noteq> []"
  shows "\<exists>t. pre_loop reset select ps = Some (Inr t) \<and> pre_inv_total ps t \<and> \<not> completed t < length ps"
  unfolding pre_loop_def
proof (rule while_loop_total [where R = "measures [work_left, idle_left ps]"])
  show "wf (measures [work_left, idle_left ps])" by simp
  show "pre_inv_total ps (init_run ps)"
    unfolding pre_inv_total_def
    using pre_init_inv [OF burst] pre_init_gantt_inv [OF nonempty] by simp
  fix u assume "pre_inv_total ps u" "completed u < length ps"
  from pre_body_total [OF sel this nonempty]
  show "\<exists>u'. pre_body reset select ps u = Next u' \<and> pre_inv_total ps u' \<and>
      (u', u) \<in> measures [work_left, idle_left ps]" .
qed

section \<open>The non-preemptive solvers\<close>

subsection \<open>The scans\<close>

lemma scan_select_ok:
  assumes def: "\<And>s. select sortedP s = scan better init (np_ready sortedP s) (key s) (arr s) (length sortedP)"
    and H: "\<And>s i. i < length sortedP \<Longrightarrow> np_ready sortedP s i \<Longrightarrow> better (key s i) init"
  shows "np_select_ok select sortedP"
  unfolding np_select_ok_def
proof
  fix s
  from scan_total [of "length sortedP" "np_ready sortedP s" better "key s" init "arr s"] H [of _ s]
  obtain r where r: "select sortedP s = Inr r" "r = None \<longrightarrow> (\<forall>j<length sortedP. \<not> np_ready sortedP s j)"
    unfolding def by blast
  show "(select sortedP s = Inr None \<and> (\<forall>j<length sortedP. \<not> np_ready sortedP s j)) \<or>
        (\<exists>idx. select sortedP s = Inr (Some idx) \<and> idx < length sortedP \<and> np_ready sortedP s idx)"
  proof (cases r)
    case None
    with r show ?thesis by simp
  next
    case (Some i)
    with r(1) scan_Some [of better init "np_ready sortedP s" "key s" "arr s" "length sortedP" i]
    show ?thesis unfolding def by simp
  qed
qed

lemma selectSJF_ok: "np_select_ok selectSJF sortedP"
  by (rule scan_select_ok [where better = below and init = None
        and key = "\<lambda>s i. burstTime (sortedP ! i)" and arr = "\<lambda>s i. arrivalTime (sortedP ! i)"])
     (simp_all add: selectSJF_def np_ready_def [abs_def])

lemma selectPriorityNP_ok: "np_select_ok selectPriorityNP sortedP"
  by (rule scan_select_ok [where better = below and init = None
        and key = "\<lambda>s i. priority (sortedP ! i)" and arr = "\<lambda>s i. arrivalTime (sortedP ! i)"])
     (simp_all add: selectPriorityNP_def np_ready_def [abs_def])

lemma selectLJF_ok:
  assumes "\<forall>p\<in>set sortedP. 1 \<le> burstTime p"
  shows "np_select_ok selectLJF sortedP"
proof (rule scan_select_ok [where better = above and init = "Some (- 1)"
        and key = "\<lambda>s i. burstTime (sortedP ! i)" and arr = "\<lambda>s i. arrivalTime (sortedP ! i)"])
  show "\<And>s. selectLJF sortedP s = scan above (Some (- 1)) (np_ready sortedP s)
      (\<lambda>i. burstTime (sortedP ! i)) (\<lambda>i. arrivalTime (sortedP ! i)) (length sortedP)"
    by (simp add: selectLJF_def np_ready_def [abs_def])
  fix s i assume "i < length sortedP"
  with assms have "1 \<le> burstTime (sortedP ! i)" by simp
  then show "above (burstTime (sortedP ! i)) (Some (- 1))" by simp
qed

lemma selectHRRN_ok:
  assumes "\<forall>p\<in>set sortedP. 1 \<le> burstTime p"
  shows "np_select_ok selectHRRN sortedP"
  unfolding np_select_ok_def
proof
  fix s
  let ?r = "fst (foldl (pickHRRN sortedP s) (None, Num (- 1)) [0..<length sortedP])"
  have sel: "selectHRRN sortedP s = Inr ?r" by (simp add: selectHRRN_def)
  have b: "\<And>i. i < length sortedP \<Longrightarrow> 1 \<le> burstTime (sortedP ! i)" using assms by simp
  show "(selectHRRN sortedP s = Inr None \<and> (\<forall>j<length sortedP. \<not> np_ready sortedP s j)) \<or>
        (\<exists>idx. selectHRRN sortedP s = Inr (Some idx) \<and> idx < length sortedP \<and> np_ready sortedP s idx)"
  proof (cases ?r)
    case None
    from foldl_pickHRRN_None [of "length sortedP" sortedP "length sortedP" s, OF b _ None]
    have "\<forall>j<length sortedP. \<not> np_ready sortedP s j" by (simp add: np_ready_def)
    with sel None show ?thesis by simp
  next
    case (Some i)
    with foldl_pickHRRN [of sortedP s "length sortedP"] have "i < length sortedP \<and> np_ready sortedP s i"
      by (simp add: scan_ok_def np_ready_def)
    with sel Some show ?thesis by simp
  qed
qed

lemma card_true_set_update:
  assumes "idx < n" "n = length xs" "\<not> xs ! idx"
  shows "card {i. i < n \<and> xs[idx := True] ! i} = card {i. i < n \<and> xs ! i} + 1"
proof -
  have "{i. i < n \<and> xs[idx := True] ! i} = insert idx {i. i < n \<and> xs ! i}"
    using assms by (auto simp: nth_list_update)
  moreover have "idx \<notin> {i. i < n \<and> xs ! i}" using assms by simp
  moreover have "finite {i. i < n \<and> xs ! i}" by simp
  ultimately show ?thesis by simp
qed

lemma np_invD:
  assumes "np_inv sortedP s"
  shows "length (isCompleted s) = length sortedP"
    and "completed s = card {i. i < length sortedP \<and> isCompleted s ! i}"
    and "length (results s) = completed s"
    and "\<And>r. r \<in> set (results s) \<Longrightarrow> result_ok r"
  using assms unfolding np_inv_def by blast+

lemma np_unfinished:
  assumes inv: "np_inv sortedP s" and lt: "completed s < length sortedP"
  shows "\<exists>i<length sortedP. \<not> isCompleted s ! i"
proof (rule ccontr)
  assume "\<not> ?thesis"
  then have "{i. i < length sortedP \<and> isCompleted s ! i} = {..<length sortedP}" by auto
  with np_invD(2) [OF inv] lt show False by simp
qed

lemma np_finished:
  assumes inv: "np_inv sortedP s" and ge: "\<not> completed s < length sortedP" and i: "i < length sortedP"
  shows "isCompleted s ! i" and "completed s = length sortedP"
proof -
  let ?Z = "{i. i < length sortedP \<and> isCompleted s ! i}"
  have sub: "?Z \<subseteq> {..<length sortedP}" by auto
  have le: "card ?Z \<le> length sortedP" using card_mono [OF _ sub] by simp
  with np_invD(2) [OF inv] ge have "card ?Z = card {..<length sortedP}" by simp
  with sub have "?Z = {..<length sortedP}" by (intro card_subset_eq) simp_all
  with i show "isCompleted s ! i" by blast
  from le np_invD(2) [OF inv] ge show "completed s = length sortedP" by simp
qed

subsection \<open>One iteration\<close>

lemma np_run_fields [simp]:
  "results (np_run sortedP idx s) =
     results s @ [mkResult (sortedP ! idx) (currentTime s) (currentTime s + burstTime (sortedP ! idx))
        (currentTime s + burstTime (sortedP ! idx) - arrivalTime (sortedP ! idx))
        (currentTime s - arrivalTime (sortedP ! idx))]"
  "ganttChart (np_run sortedP idx s) =
     ganttChart s @ [mkBlock (id' (sortedP ! idx)) (currentTime s) (currentTime s + burstTime (sortedP ! idx))]"
  "isCompleted (np_run sortedP idx s) = (isCompleted s)[idx := True]"
  "completed (np_run sortedP idx s) = completed s + 1"
  "currentTime (np_run sortedP idx s) = currentTime s + burstTime (sortedP ! idx)"
  by (simp_all add: np_run_def Let_def)

lemma np_run_inv:
  assumes inv: "np_inv sortedP s" and idx: "idx < length sortedP" and r: "np_ready sortedP s idx"
    and lt: "completed s < length sortedP"
  shows "np_inv sortedP (np_run sortedP idx s)"
    and "np_left sortedP (np_run sortedP idx s) < np_left sortedP s"
proof -
  note I = np_invD [OF inv]
  have nc: "\<not> isCompleted s ! idx" and arr: "arrivalTime (sortedP ! idx) \<le> currentTime s"
    using r by (simp_all add: np_ready_def)
  have "card {i. i < length sortedP \<and> (isCompleted s)[idx := True] ! i} =
        card {i. i < length sortedP \<and> isCompleted s ! i} + 1"
    by (rule card_true_set_update [OF idx I(1) [symmetric] nc])
  moreover have "result_ok (mkResult (sortedP ! idx) (currentTime s) (currentTime s + burstTime (sortedP ! idx))
        (currentTime s + burstTime (sortedP ! idx) - arrivalTime (sortedP ! idx))
        (currentTime s - arrivalTime (sortedP ! idx)))"
    using arr by (simp add: result_ok_def)
  ultimately show "np_inv sortedP (np_run sortedP idx s)"
    using I by (auto simp add: np_inv_def)
  show "np_left sortedP (np_run sortedP idx s) < np_left sortedP s"
    using lt by (simp add: np_left_def)
qed

lemma np_gantt_invD:
  assumes "np_gantt_inv sortedP s"
  shows "chart_ok (ganttChart s)"
    and "\<And>b. b \<in> set (ganttChart s) \<Longrightarrow> GanttBlock.endTime b \<le> currentTime s"
    and "\<And>i. i < length sortedP \<Longrightarrow> block_time (id' (sortedP ! i)) (ganttChart s) =
        (if isCompleted s ! i then burstTime (sortedP ! i) else 0)"
    and "distinct (map processId (ganttChart s))"
    and "set (map processId (ganttChart s)) = {id' (sortedP ! i) |i. i < length sortedP \<and> isCompleted s ! i}"
  using assms unfolding np_gantt_inv_def by blast+

lemma np_run_gantt_inv:
  assumes ginv: "np_gantt_inv sortedP s" and inv: "np_inv sortedP s"
    and ids: "distinct (map id' sortedP)" and burst: "\<forall>p\<in>set sortedP. 1 \<le> burstTime p"
    and idx: "idx < length sortedP" and r: "np_ready sortedP s idx"
  shows "np_gantt_inv sortedP (np_run sortedP idx s)"
proof -
  let ?s' = "np_run sortedP idx s"
  let ?b = "mkBlock (id' (sortedP ! idx)) (currentTime s) (currentTime s + burstTime (sortedP ! idx))"
  note G = np_gantt_invD [OF ginv]
  have len: "length (isCompleted s) = length sortedP" by (rule np_invD(1) [OF inv])
  have nc: "\<not> isCompleted s ! idx" using r by (simp add: np_ready_def)
  have b: "0 < burstTime (sortedP ! idx)"
  proof -
    from burst idx have "1 \<le> burstTime (sortedP ! idx)" by simp
    then show ?thesis by simp
  qed
  have c': "isCompleted ?s' ! i \<longleftrightarrow> isCompleted s ! i \<or> i = idx" if "i < length sortedP" for i
    using that len idx by (cases "i = idx") simp_all
  have 1: "chart_ok (ganttChart ?s')"
    using chart_ok_push [OF G(1) _ b, of "currentTime s"] G(2) by simp
  have 2: "\<forall>b\<in>set (ganttChart ?s'). GanttBlock.endTime b \<le> currentTime ?s'"
    using G(2) b by fastforce
  have 3: "\<forall>i<length sortedP. block_time (id' (sortedP ! i)) (ganttChart ?s') =
        (if isCompleted ?s' ! i then burstTime (sortedP ! i) else 0)"
  proof (intro allI impI)
    fix i assume i: "i < length sortedP"
    show "block_time (id' (sortedP ! i)) (ganttChart ?s') =
        (if isCompleted ?s' ! i then burstTime (sortedP ! i) else 0)"
    proof (cases "i = idx")
      case True
      with G(3) [OF idx] nc c' [OF idx] show ?thesis by simp
    next
      case False
      with distinct_ids_nth [OF ids idx i] G(3) [OF i] c' [OF i] show ?thesis by simp
    qed
  qed
  have notin: "id' (sortedP ! idx) \<notin> set (map processId (ganttChart s))"
  proof
    assume "id' (sortedP ! idx) \<in> set (map processId (ganttChart s))"
    with G(5) obtain i where i: "i < length sortedP" "isCompleted s ! i" "id' (sortedP ! idx) = id' (sortedP ! i)"
      by auto
    with distinct_ids_nth [OF ids idx i(1)] nc show False by simp
  qed
  have 4: "distinct (map processId (ganttChart ?s'))" using G(4) notin by simp
  have 5: "set (map processId (ganttChart ?s')) = {id' (sortedP ! i) |i. i < length sortedP \<and> isCompleted ?s' ! i}"
  proof -
    have "{id' (sortedP ! i) |i. i < length sortedP \<and> isCompleted ?s' ! i} =
          insert (id' (sortedP ! idx)) {id' (sortedP ! i) |i. i < length sortedP \<and> isCompleted s ! i}"
      using c' idx by auto
    with G(5) show ?thesis by simp
  qed
  show ?thesis unfolding np_gantt_inv_def by (intro conjI 1 2 3 4 5)
qed

lemma np_body_total:
  assumes sel: "np_select_ok select sortedP" and inv: "np_inv_total sortedP s"
    and lt: "completed s < length sortedP" and burst: "\<forall>p\<in>set sortedP. 1 \<le> burstTime p"
  shows "\<exists>s'. np_body select sortedP s = Next s' \<and> np_inv_total sortedP s' \<and>
           (s', s) \<in> measures [np_left sortedP, idle_left sortedP]"
proof -
  from inv have ninv: "np_inv sortedP s" and ginv: "distinct (map id' sortedP) \<longrightarrow> np_gantt_inv sortedP s"
    by (simp_all add: np_inv_total_def)
  from sel have "(select sortedP s = Inr None \<and> (\<forall>j<length sortedP. \<not> np_ready sortedP s j)) \<or>
      (\<exists>idx. select sortedP s = Inr (Some idx) \<and> idx < length sortedP \<and> np_ready sortedP s idx)"
    by (simp add: np_select_ok_def)
  then show ?thesis
  proof (elim disjE exE conjE)
    assume idle: "select sortedP s = Inr None" "\<forall>j<length sortedP. \<not> np_ready sortedP s j"
    let ?s' = "s\<lparr>currentTime := currentTime s + 1\<rparr>"
    have b: "np_body select sortedP s = Next ?s'" using idle(1) by (simp add: np_body_def)
    from np_unfinished [OF ninv lt] obtain i where i: "i < length sortedP" "\<not> isCompleted s ! i" by blast
    with idle(2) have late: "currentTime s < arrivalTime (sortedP ! i)"
      by (auto simp add: np_ready_def not_le)
    have "idle_left sortedP ?s' < idle_left sortedP s" by (rule idle_left_decreases [OF i(1) late]) simp
    moreover have "np_left sortedP ?s' = np_left sortedP s" by (simp add: np_left_def)
    ultimately have m: "(?s', s) \<in> measures [np_left sortedP, idle_left sortedP]" by simp
    have n': "np_inv sortedP ?s'" using ninv by (simp add: np_inv_def)
    have g': "np_gantt_inv sortedP ?s'" if "distinct (map id' sortedP)"
    proof -
      from ginv that have "np_gantt_inv sortedP s" by simp
      then show ?thesis by (fastforce simp add: np_gantt_inv_def)
    qed
    from b m n' g' show ?thesis unfolding np_inv_total_def by blast
  next
    fix idx assume tick: "select sortedP s = Inr (Some idx)" "idx < length sortedP" "np_ready sortedP s idx"
    let ?s' = "np_run sortedP idx s"
    have b: "np_body select sortedP s = Next ?s'" using tick(1) by (simp add: np_body_def)
    note R = np_run_inv [OF ninv tick(2,3) lt]
    have m: "(?s', s) \<in> measures [np_left sortedP, idle_left sortedP]" using R(2) by simp
    have g': "np_gantt_inv sortedP ?s'" if ids: "distinct (map id' sortedP)"
    proof -
      from ginv ids have "np_gantt_inv sortedP s" by simp
      from np_run_gantt_inv [OF this ninv ids burst tick(2,3)] show ?thesis .
    qed
    from b m R(1) g' show ?thesis unfolding np_inv_total_def by blast
  qed
qed

subsection \<open>The sort\<close>

lemma mset_insertJS [simp]: "mset (insertJS cmp x xs) = add_mset x (mset xs)"
  by (induction xs) simp_all

lemma mset_sortJS [simp]: "mset (sortJS cmp xs) = mset xs"
  unfolding sortJS_def by (induction xs) simp_all

lemma set_sortJS [simp]: "set (sortJS cmp xs) = set xs"
  using mset_sortJS [of cmp xs] by (metis set_mset_mset)

lemma length_sortJS [simp]: "length (sortJS cmp xs) = length xs"
  using mset_sortJS [of cmp xs] by (metis size_mset)

lemma distinct_map_sortJS [simp]: "distinct (map f (sortJS cmp xs)) = distinct (map f xs)"
proof -
  have "mset (map f (sortJS cmp xs)) = mset (map f xs)" by simp
  then show ?thesis by (rule mset_eq_imp_distinct_iff)
qed

subsection \<open>The loop of the non-preemptive solvers\<close>

lemma np_init_inv: "np_inv_total sortedP (init_state\<lparr>isCompleted := replicate (length sortedP) False\<rparr>)"
  by (simp add: np_inv_total_def np_inv_def np_gantt_inv_def init_state_def chart_ok_def block_time_def)

lemma np_loop_total:
  assumes sel: "np_select_ok select (sortJS byArrival ps)" and burst: "\<forall>p\<in>set ps. 1 \<le> burstTime p"
  shows "\<exists>t. np_loop select ps = Some (Inr t) \<and> np_inv_total (sortJS byArrival ps) t \<and>
           \<not> completed t < length ps"
proof -
  let ?srt = "sortJS byArrival ps"
  have b: "\<forall>p\<in>set ?srt. 1 \<le> burstTime p" using burst by simp
  have "\<exists>t. while_loop (\<lambda>s. completed s < length ?srt) (np_body select ?srt)
          (init_state\<lparr>isCompleted := replicate (length ?srt) False\<rparr>) = Some (Inr t) \<and>
          np_inv_total ?srt t \<and> \<not> completed t < length ?srt"
  proof (rule while_loop_total [where R = "measures [np_left ?srt, idle_left ?srt]"])
    show "wf (measures [np_left ?srt, idle_left ?srt])" by simp
    show "np_inv_total ?srt (init_state\<lparr>isCompleted := replicate (length ?srt) False\<rparr>)"
      by (rule np_init_inv)
    fix u assume "np_inv_total ?srt u" "completed u < length ?srt"
    from np_body_total [OF sel this b]
    show "\<exists>u'. np_body select ?srt u = Next u' \<and> np_inv_total ?srt u' \<and>
        (u', u) \<in> measures [np_left ?srt, idle_left ?srt]" .
  qed
  then show ?thesis by (simp add: np_loop_def Let_def)
qed

subsection \<open>FCFS\<close>

lemma block_time_absent:
  "p \<notin> set (map processId g) \<Longrightarrow> block_time p g = 0"
  by (induction g) (auto simp add: block_time_def)

lemma fcfs_step_fields [simp]:
  "results (fcfs_step s p) =
     results s @ [mkResult p (max (currentTime s) (arrivalTime p)) (max (currentTime s) (arrivalTime p) + burstTime p)
        (max (currentTime s) (arrivalTime p) + burstTime p - arrivalTime p)
        (max (currentTime s) (arrivalTime p) - arrivalTime p)]"
  "ganttChart (fcfs_step s p) =
     ganttChart s @ [mkBlock (id' p) (max (currentTime s) (arrivalTime p))
        (max (currentTime s) (arrivalTime p) + burstTime p)]"
  "currentTime (fcfs_step s p) = max (currentTime s) (arrivalTime p) + burstTime p"
  by (simp_all add: fcfs_step_def Let_def max_def)

lemma fcfs_step_inv:
  assumes inv: "fcfs_inv xs s" and b: "1 \<le> burstTime p"
  shows "fcfs_inv (xs @ [p]) (fcfs_step s p)"
proof -
  let ?t = "max (currentTime s) (arrivalTime p)"
  from inv have len: "length (results s) = length xs" and ok: "\<forall>r\<in>set (results s). result_ok r"
    and ch: "chart_ok (ganttChart s)" and en: "\<forall>b\<in>set (ganttChart s). GanttBlock.endTime b \<le> currentTime s"
    and pids: "map processId (ganttChart s) = map id' xs"
    and bt: "distinct (map id' xs) \<longrightarrow> (\<forall>p\<in>set xs. block_time (id' p) (ganttChart s) = burstTime p)"
    by (simp_all add: fcfs_inv_def)
  have b0: "0 < burstTime p" using b by simp
  have en': "\<forall>b\<in>set (ganttChart s). GanttBlock.endTime b \<le> ?t" using en by fastforce
  have 1: "chart_ok (ganttChart (fcfs_step s p))"
    using chart_ok_push [OF ch en' b0] by simp
  have 2: "\<forall>b\<in>set (ganttChart (fcfs_step s p)). GanttBlock.endTime b \<le> currentTime (fcfs_step s p)"
    using en' b0 by fastforce
  have "result_ok (mkResult p ?t (?t + burstTime p) (?t + burstTime p - arrivalTime p) (?t - arrivalTime p))"
    by (simp add: result_ok_def)
  with ok have 3: "\<forall>r\<in>set (results (fcfs_step s p)). result_ok r"
    by simp
  have 4: "\<forall>q\<in>set (xs @ [p]). block_time (id' q) (ganttChart (fcfs_step s p)) = burstTime q"
    if d: "distinct (map id' (xs @ [p]))"
  proof
    fix q assume q: "q \<in> set (xs @ [p])"
    from d have dx: "distinct (map id' xs)" and np: "id' p \<notin> id' ` set xs" by simp_all
    show "block_time (id' q) (ganttChart (fcfs_step s p)) = burstTime q"
    proof (cases "q \<in> set xs")
      case True
      with np have "id' p \<noteq> id' q" by auto
      with bt dx True show ?thesis by simp
    next
      case False
      with q have qp: "q = p" by simp
      have "id' p \<notin> set (map processId (ganttChart s))" using np pids by simp
      from block_time_absent [OF this] qp show ?thesis by simp
    qed
  qed
  show ?thesis
    unfolding fcfs_inv_def using len pids 1 2 3 4 by simp
qed

lemma fcfs_fold_inv:
  assumes "\<forall>p\<in>set xs. 1 \<le> burstTime p"
  shows "fcfs_inv xs (foldl fcfs_step init_state xs)"
  using assms
proof (induction xs rule: rev_induct)
  case Nil
  then show ?case by (simp add: fcfs_inv_def init_state_def chart_ok_def)
next
  case (snoc x xs)
  then have "fcfs_inv xs (foldl fcfs_step init_state xs)" "1 \<le> burstTime x" by simp_all
  from fcfs_step_inv [OF this] show ?case by simp
qed

section \<open>The outputs of the solvers\<close>

subsection \<open>From the final state of a loop to the output\<close>

lemma finish_Some:
  "finish lc r = Some (Inr out) \<longleftrightarrow>
   (\<exists>t. r = Some (Inr t) \<and> out = calculateAverages lc (results t) (ganttChart t))"
  by (cases r rule: option.exhaust; auto simp add: finish_def map_sum_def split: sum.splits)

lemma finish_state [simp]:
  "finish lc (Some (Inr t)) = Some (Inr (calculateAverages lc (results t) (ganttChart t)))"
  by (simp add: finish_def)

lemma calculateAverages_fields [simp]:
  "set (SchedulerOutput.results (calculateAverages lc rs g)) = set rs"
  "length (SchedulerOutput.results (calculateAverages lc rs g)) = length rs"
  "SchedulerOutput.ganttChart (calculateAverages lc rs g) = g"
  by (simp_all add: calculateAverages_def Let_def)

lemma results_all_ok:
  assumes cinv: "count_inv ps t" and winv: "wait_inv ps t" and fin: "\<not> completed t < length ps"
  shows "\<forall>r\<in>set (results t). result_ok r"
proof
  fix r assume "r \<in> set (results t)"
  then obtain i where i: "i < length (results t)" "r = results t ! i" by (auto simp add: in_set_conv_nth)
  with wait_invD(1) [OF winv] have il: "i < length ps" by simp
  from wait_invD(4) [OF winv il count_inv_finished [OF cinv fin il]] i show "result_ok r" by simp
qed

lemma gantt_all_done:
  assumes cinv: "count_inv ps t" and ginv: "gantt_inv ps t" and fin: "\<not> completed t < length ps"
  shows "chart_of ps (ganttChart t)"
proof -
  have "block_time (id' p) (ganttChart t) = burstTime p" if "p \<in> set ps" for p
  proof -
    from that obtain i where i: "i < length ps" "p = ps ! i" by (auto simp add: in_set_conv_nth)
    with ginv have "block_time (id' p) (ganttChart t) = burstTime p - remainingTime t ! i"
      by (simp add: gantt_inv_def)
    with count_inv_finished [OF cinv fin i(1)] show ?thesis by simp
  qed
  with ginv show ?thesis by (simp add: chart_of_def gantt_inv_def)
qed

lemma count_inv_completed:
  assumes cinv: "count_inv ps t" and fin: "\<not> completed t < length ps"
  shows "completed t = length ps"
proof -
  have "{i. i < length ps \<and> remainingTime t ! i = 0} = {..<length ps}"
    using count_inv_finished [OF cinv fin] by auto
  with count_invD(4) [OF cinv] show ?thesis by simp
qed

subsection \<open>The final states of the five loops\<close>

lemma rr_results_length:
  assumes burst: "\<forall>p\<in>set ps. 1 \<le> burstTime p" and q: "1 \<le> q"
    and run: "rr_loop ps q = Some (Inr t)"
  shows "length (results t) = length ps"
proof -
  let ?I = "\<lambda>s. rr_inv1 ps s \<and> length (results s) = length ps"
  have "?I t"
  proof (rule while_loop_invariant [OF run [unfolded rr_loop_def], where I = ?I])
    show "?I (rr_init ps)" using rr_init_inv1 [OF burst] by simp
  next
    fix u u' assume I: "?I u" and lt: "completed u < length ps" and b: "rr_body ps q u = Next u'"
    from I have cinv: "count_inv ps u" and qinv: "rr_queue_inv ps u" by (simp_all add: rr_inv1_def)
    from rr_body_shape [OF cinv qinv lt burst, of q] b obtain s0 where
      u': "u' = rr_slice ps q s0" and ne: "queue s0 \<noteq> []" and q0: "rr_queue_inv ps s0"
      and r0: "remainingTime s0 = remainingTime u" and res0: "results s0 = results u"
      and c0: "completed s0 = completed u" by auto
    have c0': "count_inv ps s0" using cinv r0 c0 by (simp add: count_inv_def)
    from ne have "hd (queue s0) \<in> set (queue s0)" by simp
    with rr_queue_invD(3) [OF q0] count_invD(1) [OF c0']
    have hd: "hd (queue s0) < length (remainingTime s0)" by simp
    from rr_slice_same_run(1) [OF hd, of q ps]
    have "results u' = results (after_slice ps (hd (queue s0)) (min q (remainingTime s0 ! hd (queue s0))) s0)"
      by (simp add: same_run_def u')
    then have "length (results u') = length ps" using I res0 by (simp add: after_slice_fields)
    moreover from rr_slice_count_inv(1) [OF c0' q0 ne q] rr_slice_queue_inv [OF q0 ne, of q]
    have "rr_inv1 ps u'" by (simp add: rr_inv1_def u')
    ultimately show "?I u'" by simp
  next
    fix u u' assume "?I u" "rr_body ps q u = Break u'"
    then show "?I u'" by (auto simp add: rr_body_def split: if_splits option.splits)
  qed simp
  then show ?thesis by simp
qed

lemma rr_final:
  assumes burst: "\<forall>p\<in>set ps. 1 \<le> burstTime p" and q: "1 \<le> q"
  shows "\<exists>t. rr_loop ps q = Some (Inr t) \<and> completed t = length ps \<and> length (results t) = length ps \<and>
           ((\<forall>p\<in>set ps. 0 \<le> arrivalTime p) \<longrightarrow> (\<forall>r\<in>set (results t). result_ok r) \<and>
              (distinct (map id' ps) \<longrightarrow> chart_of ps (ganttChart t)))"
proof (cases "\<forall>p\<in>set ps. 0 \<le> arrivalTime p")
  case True
  from rr_loop_total2 [OF burst True q] obtain t where t: "rr_loop ps q = Some (Inr t)"
    "rr_inv2 ps t" "distinct (map id' ps) \<longrightarrow> gantt_inv ps t" "\<not> completed t < length ps" by blast
  from t(2) have c: "count_inv ps t" and w: "wait_inv ps t" by (simp_all add: rr_inv2_def rr_inv1_def)
  from t(1,3) results_all_ok [OF c w t(4)] gantt_all_done [OF c _ t(4)] count_inv_completed [OF c t(4)]
    wait_invD(1) [OF w]
  show ?thesis by blast
next
  case False
  from rr_loop_total1 [OF burst q] obtain t where t: "rr_loop ps q = Some (Inr t)"
    "rr_inv1 ps t" "\<not> completed t < length ps" by blast
  from t(2) have c: "count_inv ps t" by (simp add: rr_inv1_def)
  from t(1) False count_inv_completed [OF c t(3)] rr_results_length [OF burst q t(1)]
  show ?thesis by blast
qed

lemma level_final:
  assumes inv: "queue_level_inv ps Q t" and fin: "\<not> completed t < length ps"
  shows "completed t = length ps \<and> length (results t) = length ps \<and>
         (\<forall>r\<in>set (results t). result_ok r) \<and>
         (distinct (map id' ps) \<longrightarrow> chart_of ps (ganttChart t))"
proof -
  note D = queue_level_invD [OF inv]
  from count_inv_completed [OF D(1) fin] wait_invD(1) [OF D(3)] results_all_ok [OF D(1,3) fin]
    gantt_all_done [OF D(1) D(5) fin]
  show ?thesis by blast
qed

lemma mlq_final:
  assumes burst: "\<forall>p\<in>set ps. 1 \<le> burstTime p" and q: "1 \<le> q"
  shows "\<exists>t. mlq_loop ps q = Some (Inr t) \<and> completed t = length ps \<and> length (results t) = length ps \<and>
           (\<forall>r\<in>set (results t). result_ok r) \<and>
           (distinct (map id' ps) \<longrightarrow> chart_of ps (ganttChart t))"
  using mlq_loop_total [OF burst q] level_final by blast

lemma mlfq_final:
  assumes burst: "\<forall>p\<in>set ps. 1 \<le> burstTime p" and q: "1 \<le> q"
  shows "\<exists>t. mlfq_loop ps q = Some (Inr t) \<and> completed t = length ps \<and> length (results t) = length ps \<and>
           (\<forall>r\<in>set (results t). result_ok r) \<and>
           (distinct (map id' ps) \<longrightarrow> chart_of ps (ganttChart t))"
  using mlfq_loop_total [OF burst q] level_final by blast

lemma pre_final_partial:
  assumes sel: "pre_select_ok select" and burst: "\<forall>p\<in>set ps. 1 \<le> burstTime p"
    and run: "pre_loop reset select ps = Some (Inr t)"
  shows "\<forall>r\<in>set (results t). result_ok r"
proof -
  from pre_loop_partial [OF sel burst run] have "count_inv ps t" "wait_inv ps t" "\<not> completed t < length ps"
    by (simp_all add: pre_inv_def)
  then show ?thesis by (rule results_all_ok)
qed

lemma pre_final:
  assumes sel: "pre_select_ok select" and burst: "\<forall>p\<in>set ps. 1 \<le> burstTime p"
    and nonempty: "\<forall>p\<in>set ps. id' p \<noteq> []"
  shows "\<exists>t. pre_loop reset select ps = Some (Inr t) \<and> completed t = length ps \<and>
           length (results t) = length ps \<and>
           (distinct (map id' ps) \<longrightarrow> chart_of ps (ganttChart t) \<and> merged (ganttChart t))"
proof -
  from pre_loop_total [OF sel burst nonempty, of reset] obtain t where
    t: "pre_loop reset select ps = Some (Inr t)" "pre_inv_total ps t" "\<not> completed t < length ps" by blast
  from t(2) have c: "count_inv ps t" and w: "wait_inv ps t"
    and g: "distinct (map id' ps) \<longrightarrow> pre_gantt_inv ps t"
    by (simp_all add: pre_inv_total_def pre_inv_def)
  have "chart_of ps (ganttChart t) \<and> merged (ganttChart t)" if "distinct (map id' ps)"
    using g that pre_gantt_invD(1,2) gantt_all_done [OF c _ t(3)] by blast
  with t(1) count_inv_completed [OF c t(3)] wait_invD(1) [OF w] show ?thesis by blast
qed

lemma distinct_ids_merged: "distinct (map processId g) \<Longrightarrow> merged g"
  by (induction g rule: merged.induct) auto

lemma np_final:
  assumes sel: "np_select_ok select (sortJS byArrival ps)" and burst: "\<forall>p\<in>set ps. 1 \<le> burstTime p"
  shows "\<exists>t. np_loop select ps = Some (Inr t) \<and> completed t = length ps \<and>
           length (results t) = length ps \<and> (\<forall>r\<in>set (results t). result_ok r) \<and>
           (distinct (map id' ps) \<longrightarrow> chart_of ps (ganttChart t) \<and> merged (ganttChart t))"
proof -
  let ?srt = "sortJS byArrival ps"
  from np_loop_total [OF sel burst] obtain t where t: "np_loop select ps = Some (Inr t)"
    "np_inv_total ?srt t" "\<not> completed t < length ps" by blast
  from t(2) have n: "np_inv ?srt t" and g: "distinct (map id' ?srt) \<longrightarrow> np_gantt_inv ?srt t"
    by (simp_all add: np_inv_total_def)
  note N = np_invD [OF n]
  have le: "completed t \<le> length ps"
    using N(2) card_mono [of "{..<length ?srt}" "{i. i < length ?srt \<and> isCompleted t ! i}"]
    by (auto simp add: length_sortJS)
  with t(3) have c: "completed t = length ps" by simp
  have all: "isCompleted t ! i" if "i < length ?srt" for i
    using np_finished [OF n] t(3) that by (simp add: length_sortJS)
  have "chart_of ps (ganttChart t) \<and> merged (ganttChart t)" if d: "distinct (map id' ps)"
  proof -
    from d have "distinct (map id' ?srt)" by simp
    with g have G: "np_gantt_inv ?srt t" by simp
    note D = np_gantt_invD [OF G]
    have 1: "block_time (id' p) (ganttChart t) = burstTime p" if "p \<in> set ps" for p
    proof -
      from that have "p \<in> set ?srt" by (simp add: set_sortJS)
      then obtain i where i: "i < length ?srt" "p = ?srt ! i" unfolding in_set_conv_nth by blast
      with D(3) [OF i(1)] all [OF i(1)] show ?thesis by simp
    qed
    have 2: "processId b \<in> id' ` set ps" if "b \<in> set (ganttChart t)" for b
    proof -
      from that have "processId b \<in> set (map processId (ganttChart t))" by simp
      with D(5) obtain i where "i < length ?srt" "processId b = id' (?srt ! i)" by auto
      then have "processId b \<in> id' ` set ?srt" by (metis imageI nth_mem)
      then show ?thesis by (simp add: set_sortJS)
    qed
    from 1 2 D(1) distinct_ids_merged [OF D(4)] show ?thesis by (simp add: chart_of_def)
  qed
  with t(1) c N(3,4) show ?thesis by auto
qed

lemma fcfs_final:
  assumes burst: "\<forall>p\<in>set ps. 1 \<le> burstTime p"
  shows "length (SchedulerOutput.results (solveFCFS lc ps)) = length ps \<and>
         (\<forall>r\<in>set (SchedulerOutput.results (solveFCFS lc ps)). result_ok r) \<and>
         (distinct (map id' ps) \<longrightarrow> chart_of ps (SchedulerOutput.ganttChart (solveFCFS lc ps)) \<and>
            merged (SchedulerOutput.ganttChart (solveFCFS lc ps)))"
proof -
  let ?srt = "sortJS byArrival ps"
  let ?t = "foldl fcfs_step init_state ?srt"
  have b: "\<forall>p\<in>set ?srt. 1 \<le> burstTime p" using burst by (simp add: set_sortJS)
  from fcfs_fold_inv [OF b] have F: "fcfs_inv ?srt ?t" .
  have out: "SchedulerOutput.ganttChart (solveFCFS lc ps) = ganttChart ?t"
    "set (SchedulerOutput.results (solveFCFS lc ps)) = set (results ?t)"
    "length (SchedulerOutput.results (solveFCFS lc ps)) = length (results ?t)"
    by (simp_all add: solveFCFS_def Let_def)
  have "chart_of ps (ganttChart ?t) \<and> merged (ganttChart ?t)" if d: "distinct (map id' ps)"
  proof -
    from d have ds: "distinct (map id' ?srt)" by simp
    from F have ids: "map processId (ganttChart ?t) = map id' ?srt" by (simp add: fcfs_inv_def)
    have "processId b \<in> id' ` set ps" if "b \<in> set (ganttChart ?t)" for b
    proof -
      from that have "processId b \<in> set (map processId (ganttChart ?t))" by simp
      then show ?thesis unfolding ids by (simp add: set_sortJS)
    qed
    moreover have "merged (ganttChart ?t)" using ds ids by (simp add: distinct_ids_merged)
    moreover from F ds have "\<forall>p\<in>set ps. block_time (id' p) (ganttChart ?t) = burstTime p"
      by (simp add: fcfs_inv_def set_sortJS)
    ultimately show ?thesis using F by (simp add: chart_of_def fcfs_inv_def)
  qed
  with F show ?thesis unfolding out by (simp add: fcfs_inv_def length_sortJS)
qed

section \<open>The solvers on every input\<close>

lemma solve_cases:
  assumes "P (Some (Inr (solveFCFS lc ps)))"
    and "P (solveSJF lc ps)" and "P (solveSRTF lc ps)" and "P (solvePriorityNP lc ps)"
    and "P (solvePriorityP lc ps)" and "P (solveRR lc ps q)" and "P (solveLJF lc ps)"
    and "P (solveLRTF lc ps)" and "P (solveHRRN lc ps)" and "P (solveMLQ lc ps q)"
    and "P (solveMLFQ lc ps q)"
  shows "P (solve lc algorithm ps q)"
  using assms by (simp add: solve_def)

lemma np_selects_ok:
  assumes "\<forall>p\<in>set ps. 1 \<le> burstTime p"
  shows "np_select_ok selectSJF (sortJS byArrival ps)" "np_select_ok selectPriorityNP (sortJS byArrival ps)"
    "np_select_ok selectLJF (sortJS byArrival ps)" "np_select_ok selectHRRN (sortJS byArrival ps)"
  using assms by (simp_all add: selectSJF_ok selectPriorityNP_ok selectLJF_ok selectHRRN_ok)

lemma finish_results_ok:
  assumes "\<And>t. r = Some (Inr t) \<Longrightarrow> \<forall>x\<in>set (results t). result_ok x"
    and "finish lc r = Some (Inr out)"
  shows "\<forall>x\<in>set (SchedulerOutput.results out). result_ok x"
  using assms by (auto simp add: finish_Some)

lemma np_results_ok:
  assumes "np_select_ok select (sortJS byArrival ps)" and "\<forall>p\<in>set ps. 1 \<le> burstTime p"
    and "np_loop select ps = Some (Inr t)"
  shows "\<forall>x\<in>set (results t). result_ok x"
  using np_final [OF assms(1,2)] assms(3) by auto

lemma rr_results_ok:
  assumes "\<forall>p\<in>set ps. 1 \<le> burstTime p" and "1 \<le> q" and "\<forall>p\<in>set ps. 0 \<le> arrivalTime p"
    and "rr_loop ps q = Some (Inr t)"
  shows "\<forall>x\<in>set (results t). result_ok x"
  using rr_final [OF assms(1,2)] assms(3,4) by auto

lemma mlq_results_ok:
  assumes "\<forall>p\<in>set ps. 1 \<le> burstTime p" and "1 \<le> q" and "mlq_loop ps q = Some (Inr t)"
  shows "\<forall>x\<in>set (results t). result_ok x"
  using mlq_final [OF assms(1,2)] assms(3) by auto

lemma mlfq_results_ok:
  assumes "\<forall>p\<in>set ps. 1 \<le> burstTime p" and "1 \<le> q" and "mlfq_loop ps q = Some (Inr t)"
  shows "\<forall>x\<in>set (results t). result_ok x"
  using mlfq_final [OF assms(1,2)] assms(3) by auto

text \<open>
  C1. On a valid input every result that any of the solvers returns satisfies:
  turnaround time = completion time - arrival time, waiting time = turnaround time -
  burst time, and the waiting time is not negative. A valid input has integer fields,
  burst times of at least 1, arrival times of at least 0 and a quantum of at least 1,
  and its latest arrival time plus the sum of its burst times is below \<open>2 ^ 26\<close>: this
  is the range in which the integers of the model are the doubles of the code, and the
  input contract of the specification lies within it. Beyond the range the code rounds
  its sums, and the second equation can fail there.
\<close>

theorem results_turnaround_waiting:
  assumes valid: "\<forall>p\<in>set ps. 1 \<le> burstTime p \<and> 0 \<le> arrivalTime p"
    and range: "time_bound ps < 2 ^ 26" and q: "1 \<le> q"
    and run: "solve lc algorithm ps q = Some (Inr out)"
  shows "\<forall>r\<in>set (SchedulerOutput.results out).
           turnaroundTime r = endTime r - arrivalTime r \<and>
           waitingTime r = turnaroundTime r - burstTime r \<and>
           0 \<le> waitingTime r"
proof -
  from valid have burst: "\<forall>p\<in>set ps. 1 \<le> burstTime p" and arr: "\<forall>p\<in>set ps. 0 \<le> arrivalTime p"
    by simp_all
  let ?P = "\<lambda>r. r = Some (Inr out) \<longrightarrow> (\<forall>x\<in>set (SchedulerOutput.results out). result_ok x)"
  note S = np_selects_ok [OF burst]
  have "?P (solve lc algorithm ps q)"
  proof (rule solve_cases)
    show "?P (Some (Inr (solveFCFS lc ps)))" using fcfs_final [OF burst, of lc] by simp
    show "?P (solveSJF lc ps)" unfolding solveSJF_def
      by (rule impI, rule finish_results_ok [OF np_results_ok [OF S(1) burst]])
    show "?P (solvePriorityNP lc ps)" unfolding solvePriorityNP_def
      by (rule impI, rule finish_results_ok [OF np_results_ok [OF S(2) burst]])
    show "?P (solveLJF lc ps)" unfolding solveLJF_def
      by (rule impI, rule finish_results_ok [OF np_results_ok [OF S(3) burst]])
    show "?P (solveHRRN lc ps)" unfolding solveHRRN_def
      by (rule impI, rule finish_results_ok [OF np_results_ok [OF S(4) burst]])
    show "?P (solveSRTF lc ps)" unfolding solveSRTF_def
      by (rule impI, rule finish_results_ok [OF pre_final_partial [OF selectSRTF_ok burst]])
    show "?P (solvePriorityP lc ps)" unfolding solvePriorityP_def
      by (rule impI, rule finish_results_ok [OF pre_final_partial [OF selectPriorityP_ok burst]])
    show "?P (solveLRTF lc ps)" unfolding solveLRTF_def
      by (rule impI, rule finish_results_ok [OF pre_final_partial [OF selectLRTF_ok burst]])
    show "?P (solveMLQ lc ps q)" unfolding solveMLQ_def
      by (rule impI, rule finish_results_ok [OF mlq_results_ok [OF burst q]])
    show "?P (solveMLFQ lc ps q)" unfolding solveMLFQ_def
      by (rule impI, rule finish_results_ok [OF mlfq_results_ok [OF burst q]])
    show "?P (solveRR lc ps q)" unfolding solveRR_def
      by (rule impI, rule finish_results_ok [OF rr_results_ok [OF burst q arr]])
  qed
  with run show ?thesis unfolding result_ok_def by blast
qed

theorem results_turnaround_waiting_witness:
  "solve codeUnitCompare ''SRTF (Preemptive)'' spec_example 2 = Some (Inr srtf_example_output) \<and>
   list_all (\<lambda>r. turnaroundTime r = endTime r - arrivalTime r \<and>
                  waitingTime r = turnaroundTime r - burstTime r \<and>
                  0 \<le> waitingTime r)
     (SchedulerOutput.results srtf_example_output)"
proof -
  have valid: "\<forall>p\<in>set spec_example. 1 \<le> burstTime p \<and> 0 \<le> arrivalTime p"
    by (simp add: spec_example_def mkProcess_def)
  have range: "time_bound spec_example < 2 ^ 26"
    by (simp add: time_bound_def max_arrival_def spec_example_def mkProcess_def)
  have q: "(1::int) \<le> 2" by simp
  have run: "solve codeUnitCompare ''SRTF (Preemptive)'' spec_example 2 = Some (Inr srtf_example_output)"
    by code_simp
  from run results_turnaround_waiting [OF valid range q run] show ?thesis
    unfolding list_all_iff by (intro conjI)
qed

lemma while_loop_diverges:
  assumes init: "I s" and step: "\<And>u. I u \<Longrightarrow> b u \<and> (\<exists>u'. c u = Next u' \<and> I u')"
  shows "while_loop b c s = None"
proof -
  have "b0 = b \<longrightarrow> c0 = c \<longrightarrow> I s0 \<longrightarrow> False"
    if "while_loop b0 c0 s0 = Some r" for b0 c0 s0 r
  proof (rule while_loop.raw_induct [where P = "\<lambda>b0 c0 s0 r. b0 = b \<longrightarrow> c0 = c \<longrightarrow> I s0 \<longrightarrow> False", OF _ that])
    fix w b1 c1 s1 r1
    assume 1: "\<And>b0 c0 s0 r. w b0 c0 s0 = Some r \<Longrightarrow> b0 = b \<longrightarrow> c0 = c \<longrightarrow> I s0 \<longrightarrow> False"
      "(if b1 s1 then case c1 s1 of Next s' \<Rightarrow> w b1 c1 s' | Break s' \<Rightarrow> Some (Inr s') | Throw e \<Rightarrow> Some (Inl e)
        else Some (Inr s1)) = Some r1"
    show "b1 = b \<longrightarrow> c1 = c \<longrightarrow> I s1 \<longrightarrow> False"
    proof (intro impI)
      assume eq: "b1 = b" "c1 = c" and inv: "I s1"
      from step [OF inv] obtain u' where u: "b s1" "c s1 = Next u'" "I u'" by blast
      with 1(2) eq have "w b c u' = Some r1" by simp
      from 1(1) [OF this] u(3) show False by simp
    qed
  qed
  with init show ?thesis by (cases "while_loop b c s") auto
qed

section \<open>The chart of every solver\<close>

lemma finish_chart_of:
  assumes "\<And>t. r = Some (Inr t) \<Longrightarrow> chart_of ps (ganttChart t)"
    and "finish lc r = Some (Inr out)"
  shows "chart_of ps (SchedulerOutput.ganttChart out)"
  using assms by (auto simp add: finish_Some)

lemma finish_merged:
  assumes "\<And>t. r = Some (Inr t) \<Longrightarrow> merged (ganttChart t)"
    and "finish lc r = Some (Inr out)"
  shows "merged (SchedulerOutput.ganttChart out)"
  using assms by (auto simp add: finish_Some)

lemma np_chart:
  assumes "np_select_ok select (sortJS byArrival ps)" and "\<forall>p\<in>set ps. 1 \<le> burstTime p"
    and "distinct (map id' ps)" and "np_loop select ps = Some (Inr t)"
  shows "chart_of ps (ganttChart t) \<and> merged (ganttChart t)"
  using np_final [OF assms(1,2)] assms(3,4) by auto

lemma pre_chart:
  assumes "pre_select_ok select" and "\<forall>p\<in>set ps. 1 \<le> burstTime p" and "\<forall>p\<in>set ps. id' p \<noteq> []"
    and "distinct (map id' ps)" and "pre_loop reset select ps = Some (Inr t)"
  shows "chart_of ps (ganttChart t) \<and> merged (ganttChart t)"
  using pre_final [OF assms(1,2,3), of reset] assms(4,5) by auto

lemma rr_chart:
  assumes "\<forall>p\<in>set ps. 1 \<le> burstTime p" and "1 \<le> q" and "\<forall>p\<in>set ps. 0 \<le> arrivalTime p"
    and "distinct (map id' ps)" and "rr_loop ps q = Some (Inr t)"
  shows "chart_of ps (ganttChart t)"
  using rr_final [OF assms(1,2)] assms(3,4,5) by auto

lemma mlq_chart:
  assumes "\<forall>p\<in>set ps. 1 \<le> burstTime p" and "1 \<le> q"
    and "distinct (map id' ps)" and "mlq_loop ps q = Some (Inr t)"
  shows "chart_of ps (ganttChart t)"
  using mlq_final [OF assms(1,2)] assms(3,4) by auto

lemma mlfq_chart:
  assumes "\<forall>p\<in>set ps. 1 \<le> burstTime p" and "1 \<le> q"
    and "distinct (map id' ps)" and "mlfq_loop ps q = Some (Inr t)"
  shows "chart_of ps (ganttChart t)"
  using mlfq_final [OF assms(1,2)] assms(3,4) by auto

lemma valid_inputD:
  assumes "valid_input ps q"
  shows "distinct (map id' ps)" "\<forall>p\<in>set ps. id' p \<noteq> []" "\<forall>p\<in>set ps. 0 \<le> arrivalTime p"
    "\<forall>p\<in>set ps. 1 \<le> burstTime p" "1 \<le> q"
  using assms by (simp_all add: valid_input_def)

lemma solve_chart_of:
  assumes valid: "valid_input ps q" and run: "solve lc algorithm ps q = Some (Inr out)"
  shows "chart_of ps (SchedulerOutput.ganttChart out)"
proof -
  note V = valid_inputD [OF valid]
  note S = np_selects_ok [OF V(4)]
  let ?P = "\<lambda>r. r = Some (Inr out) \<longrightarrow> chart_of ps (SchedulerOutput.ganttChart out)"
  have "?P (solve lc algorithm ps q)"
  proof (rule solve_cases)
    show "?P (Some (Inr (solveFCFS lc ps)))" using fcfs_final [OF V(4), of lc] V(1) by auto
    show "?P (solveSJF lc ps)" unfolding solveSJF_def
      by (rule impI, rule finish_chart_of [OF conjunct1 [OF np_chart [OF S(1) V(4,1)]]])
    show "?P (solvePriorityNP lc ps)" unfolding solvePriorityNP_def
      by (rule impI, rule finish_chart_of [OF conjunct1 [OF np_chart [OF S(2) V(4,1)]]])
    show "?P (solveLJF lc ps)" unfolding solveLJF_def
      by (rule impI, rule finish_chart_of [OF conjunct1 [OF np_chart [OF S(3) V(4,1)]]])
    show "?P (solveHRRN lc ps)" unfolding solveHRRN_def
      by (rule impI, rule finish_chart_of [OF conjunct1 [OF np_chart [OF S(4) V(4,1)]]])
    show "?P (solveSRTF lc ps)" unfolding solveSRTF_def
      by (rule impI, rule finish_chart_of [OF conjunct1 [OF pre_chart [OF selectSRTF_ok V(4,2,1)]]])
    show "?P (solvePriorityP lc ps)" unfolding solvePriorityP_def
      by (rule impI, rule finish_chart_of [OF conjunct1 [OF pre_chart [OF selectPriorityP_ok V(4,2,1)]]])
    show "?P (solveLRTF lc ps)" unfolding solveLRTF_def
      by (rule impI, rule finish_chart_of [OF conjunct1 [OF pre_chart [OF selectLRTF_ok V(4,2,1)]]])
    show "?P (solveRR lc ps q)" unfolding solveRR_def
      by (rule impI, rule finish_chart_of [OF rr_chart [OF V(4,5,3,1)]])
    show "?P (solveMLQ lc ps q)" unfolding solveMLQ_def
      by (rule impI, rule finish_chart_of [OF mlq_chart [OF V(4,5,1)]])
    show "?P (solveMLFQ lc ps q)" unfolding solveMLFQ_def
      by (rule impI, rule finish_chart_of [OF mlfq_chart [OF V(4,5,1)]])
  qed
  with run show ?thesis by simp
qed

lemma solve_merged:
  assumes valid: "valid_input ps q" and run: "solve lc algorithm ps q = Some (Inr out)"
    and alg: "algorithm \<notin> {''Round Robin'', ''Multilevel Queue'', ''Multilevel Feedback Queue (MLFQ)''}"
  shows "merged (SchedulerOutput.ganttChart out)"
proof -
  note V = valid_inputD [OF valid]
  note S = np_selects_ok [OF V(4)]
  have fcfs: "merged (SchedulerOutput.ganttChart (solveFCFS lc ps))"
    using fcfs_final [OF V(4), of lc] V(1) by simp
  have sjf: "solveSJF lc ps = Some (Inr out) \<Longrightarrow> ?thesis" unfolding solveSJF_def
    by (rule finish_merged [OF conjunct2 [OF np_chart [OF S(1) V(4,1)]]])
  have pnp: "solvePriorityNP lc ps = Some (Inr out) \<Longrightarrow> ?thesis" unfolding solvePriorityNP_def
    by (rule finish_merged [OF conjunct2 [OF np_chart [OF S(2) V(4,1)]]])
  have ljf: "solveLJF lc ps = Some (Inr out) \<Longrightarrow> ?thesis" unfolding solveLJF_def
    by (rule finish_merged [OF conjunct2 [OF np_chart [OF S(3) V(4,1)]]])
  have hrrn: "solveHRRN lc ps = Some (Inr out) \<Longrightarrow> ?thesis" unfolding solveHRRN_def
    by (rule finish_merged [OF conjunct2 [OF np_chart [OF S(4) V(4,1)]]])
  have srtf: "solveSRTF lc ps = Some (Inr out) \<Longrightarrow> ?thesis" unfolding solveSRTF_def
    by (rule finish_merged [OF conjunct2 [OF pre_chart [OF selectSRTF_ok V(4,2,1)]]])
  have pp: "solvePriorityP lc ps = Some (Inr out) \<Longrightarrow> ?thesis" unfolding solvePriorityP_def
    by (rule finish_merged [OF conjunct2 [OF pre_chart [OF selectPriorityP_ok V(4,2,1)]]])
  have lrtf: "solveLRTF lc ps = Some (Inr out) \<Longrightarrow> ?thesis" unfolding solveLRTF_def
    by (rule finish_merged [OF conjunct2 [OF pre_chart [OF selectLRTF_ok V(4,2,1)]]])
  from run alg fcfs sjf pnp ljf hrrn srtf pp lrtf show ?thesis
    by (simp add: solve_def split: if_splits)
qed

lemma chart_ok_sorted:
  assumes "chart_ok g"
  shows "sorted (map GanttBlock.startTime g)"
    and "\<forall>i j. i < j \<and> j < length g \<longrightarrow> GanttBlock.endTime (g ! i) \<le> GanttBlock.startTime (g ! j)"
proof -
  from assms have sw: "sorted_wrt (\<lambda>a b. GanttBlock.endTime a \<le> GanttBlock.startTime b) g"
    and pos: "\<forall>b\<in>set g. GanttBlock.startTime b < GanttBlock.endTime b"
    by (simp_all add: chart_ok_def)
  have "sorted_wrt (\<lambda>a b. GanttBlock.startTime a \<le> GanttBlock.startTime b) g"
    by (rule sorted_wrt_mono_rel [OF _ sw]) (use pos in fastforce)
  then show "sorted (map GanttBlock.startTime g)" by (simp add: sorted_map)
  from sw show "\<forall>i j. i < j \<and> j < length g \<longrightarrow> GanttBlock.endTime (g ! i) \<le> GanttBlock.startTime (g ! j)"
    by (simp add: sorted_wrt_iff_nth_less)
qed

section \<open>The chart that \<open>solve\<close> returns\<close>

text \<open>
  C2. On a valid input the chart that any solver returns gives every process blocks
  whose durations add up to its burst time; the blocks are in the order of their start
  times, no block starts before an earlier one has ended, and every block ends after it
  starts. A valid input has integer fields, distinct and non-empty identifiers, arrival
  times of at least 0, burst times of at least 1 and a quantum of at least 1, and its
  latest arrival time plus the sum of its burst times is below \<open>2 ^ 26\<close>: this is the
  range in which the integers of the model are the doubles of the code, and the input
  contract of the specification lies within it. Beyond the range the code rounds its
  sums, and a block can end where it starts.
\<close>

theorem gantt_chart_accounts_for_bursts:
  assumes valid: "valid_input ps q" and range: "time_bound ps < 2 ^ 26"
    and run: "solve lc algorithm ps q = Some (Inr out)"
  shows "(\<forall>p\<in>set ps. block_time (id' p) (SchedulerOutput.ganttChart out) = burstTime p) \<and>
         sorted (map GanttBlock.startTime (SchedulerOutput.ganttChart out)) \<and>
         (\<forall>i j. i < j \<and> j < length (SchedulerOutput.ganttChart out) \<longrightarrow>
            GanttBlock.endTime (SchedulerOutput.ganttChart out ! i)
              \<le> GanttBlock.startTime (SchedulerOutput.ganttChart out ! j)) \<and>
         (\<forall>b\<in>set (SchedulerOutput.ganttChart out). GanttBlock.startTime b < GanttBlock.endTime b)"
proof -
  from solve_chart_of [OF valid run] have c: "chart_of ps (SchedulerOutput.ganttChart out)" .
  then have ok: "chart_ok (SchedulerOutput.ganttChart out)" by (simp add: chart_of_def)
  from c have "\<forall>p\<in>set ps. block_time (id' p) (SchedulerOutput.ganttChart out) = burstTime p"
    by (simp add: chart_of_def)
  moreover from ok have "\<forall>b\<in>set (SchedulerOutput.ganttChart out). GanttBlock.startTime b < GanttBlock.endTime b"
    by (simp add: chart_ok_def)
  ultimately show ?thesis using chart_ok_sorted [OF ok] by blast
qed

theorem gantt_chart_accounts_for_bursts_witness:
  "solve codeUnitCompare ''Multilevel Feedback Queue (MLFQ)'' spec_example 2 = Some (Inr mlfq_example_output) \<and>
   list_all (\<lambda>p. block_time (id' p) (SchedulerOutput.ganttChart mlfq_example_output) = burstTime p)
     spec_example \<and>
   sorted (map GanttBlock.startTime (SchedulerOutput.ganttChart mlfq_example_output)) \<and>
   sorted_wrt (\<lambda>a b. GanttBlock.endTime a \<le> GanttBlock.startTime b)
     (SchedulerOutput.ganttChart mlfq_example_output) \<and>
   list_all (\<lambda>b. GanttBlock.startTime b < GanttBlock.endTime b)
     (SchedulerOutput.ganttChart mlfq_example_output)"
proof -
  have valid: "valid_input spec_example 2"
    by (simp add: valid_input_def spec_example_def mkProcess_def)
  have range: "time_bound spec_example < 2 ^ 26"
    by (simp add: time_bound_def max_arrival_def spec_example_def mkProcess_def)
  have run: "solve codeUnitCompare ''Multilevel Feedback Queue (MLFQ)'' spec_example 2 =
      Some (Inr mlfq_example_output)"
    by code_simp
  note T = gantt_chart_accounts_for_bursts [OF valid range run]
  from T have "sorted_wrt (\<lambda>a b. GanttBlock.endTime a \<le> GanttBlock.startTime b)
      (SchedulerOutput.ganttChart mlfq_example_output)"
    unfolding sorted_wrt_iff_nth_less by blast
  with run T show ?thesis unfolding list_all_iff by (intro conjI) blast+
qed

text \<open>
  C6, as the specification states it, fails for Round Robin (and in the same way for
  MLQ and MLFQ, which push one block for each slice): a single process with a burst
  time of 3 and the quantum 2 gets the two blocks 0-2 and 2-3, which touch and are not
  merged.
\<close>

theorem rr_chart_is_not_merged:
  "solve codeUnitCompare ''Round Robin'' [mkProcess ''P1'' 0 3 0] 2 =
     Some (Inr \<lparr>SchedulerOutput.results = [mkResult (mkProcess ''P1'' 0 3 0) 0 3 3 0],
                SchedulerOutput.ganttChart = [mkBlock ''P1'' 0 2, mkBlock ''P1'' 2 3],
                averageTurnaroundTime = 3, averageWaitingTime = 0\<rparr>) \<and>
   \<not> merged [mkBlock ''P1'' 0 2, mkBlock ''P1'' 2 3]"
  by code_simp

text \<open>
  C6, as the code has it. On a valid input every block of the chart carries the
  identifier of a process of the input, so that idle time leaves a gap and no block; and
  for the eight algorithms other than Round Robin, MLQ and MLFQ no two neighbouring
  blocks have the same process and touch.
\<close>

theorem gantt_chart_merged_without_idle_blocks:
  assumes valid: "valid_input ps q" and run: "solve lc algorithm ps q = Some (Inr out)"
  shows "(algorithm \<notin> {''Round Robin'', ''Multilevel Queue'', ''Multilevel Feedback Queue (MLFQ)''} \<longrightarrow>
            merged (SchedulerOutput.ganttChart out)) \<and>
         (\<forall>b\<in>set (SchedulerOutput.ganttChart out). processId b \<in> id' ` set ps)"
proof -
  from solve_chart_of [OF valid run]
  have "\<forall>b\<in>set (SchedulerOutput.ganttChart out). processId b \<in> id' ` set ps"
    by (simp add: chart_of_def)
  moreover have "merged (SchedulerOutput.ganttChart out)"
    if "algorithm \<notin> {''Round Robin'', ''Multilevel Queue'', ''Multilevel Feedback Queue (MLFQ)''}"
    using that by (rule solve_merged [OF valid run])
  ultimately show ?thesis by (intro conjI impI)
qed

theorem gantt_chart_merged_without_idle_blocks_witness:
  "solve codeUnitCompare ''LRTF (Preemptive)'' spec_example 2 = Some (Inr lrtf_example_output) \<and>
   merged (SchedulerOutput.ganttChart lrtf_example_output) \<and>
   list_all (\<lambda>b. processId b \<in> id' ` set spec_example) (SchedulerOutput.ganttChart lrtf_example_output)"
proof -
  have valid: "valid_input spec_example 2"
    by (simp add: valid_input_def spec_example_def mkProcess_def)
  have run: "solve codeUnitCompare ''LRTF (Preemptive)'' spec_example 2 = Some (Inr lrtf_example_output)"
    by code_simp
  have alg: "''LRTF (Preemptive)'' \<notin> {''Round Robin'', ''Multilevel Queue'', ''Multilevel Feedback Queue (MLFQ)''}"
    by simp
  note T = gantt_chart_merged_without_idle_blocks [OF valid run]
  from conjunct1 [OF T] alg have m: "merged (SchedulerOutput.ganttChart lrtf_example_output)"
    by (rule mp)
  from run m conjunct2 [OF T] show ?thesis unfolding list_all_iff by (intro conjI)
qed

section \<open>The queue of Round Robin\<close>

lemma sorted_map_nth_filter_upt:
  assumes "sorted (map f ps)"
  shows "sorted (map (\<lambda>i. f (ps ! i)) (filter P [0..<length ps]))"
proof -
  have "sorted_wrt (<) (filter P [0..<length ps])" by (simp add: sorted_wrt_filter)
  moreover have "f (ps ! i) \<le> f (ps ! j)"
    if "i \<in> set (filter P [0..<length ps])" "j \<in> set (filter P [0..<length ps])" "i < j" for i j
  proof -
    from that have "i \<le> j" "j < length (map f ps)" by simp_all
    from sorted_nth_mono [OF assms this] that show ?thesis by simp
  qed
  ultimately have "sorted_wrt (\<lambda>i j. f (ps ! i) \<le> f (ps ! j)) (filter P [0..<length ps])"
    by (rule sorted_wrt_mono_rel [rotated])
  then show ?thesis by (simp add: sorted_map)
qed

text \<open>
  C5, as the specification states it, fails: the admission loop of \<^verbatim>\<open>solveRR\<close> runs over
  the indices of the input list, not over the arrival times. With A(0,5), B(3,1), C(1,1)
  and the quantum 4, the first slice runs A from 0 to 4 and leaves the queue B, C, A:
  B, which arrived at 3, is enqueued before C, which arrived at 1.
\<close>

theorem rr_newcomers_not_in_arrival_order:
  "map_outcome queue (rr_body rr_unsorted_example 4 (rr_init rr_unsorted_example)) = Next [1, 2, 0] \<and>
   arrivalTime (rr_unsorted_example ! 2) < arrivalTime (rr_unsorted_example ! 1)"
  by code_simp

text \<open>
  C5, as the code has it. An iteration of the loop of Round Robin that does not leave
  it runs one slice, from the state \<open>s0\<close> that the fast-forward leaves when the queue was
  empty. The slice leaves in the queue: the processes that were waiting behind the one
  that ran; then the newcomers, in the order of the input list, a newcomer being a
  process not yet visited that has arrived by the end of the slice and has time
  remaining; then the process that ran, if it has time remaining. When the input list
  is sorted by arrival time, the newcomers are in the order of their arrival.
\<close>

theorem rr_slice_queue_order:
  assumes "rr_body ps q s = Next s'"
  shows "\<exists>s0. (if queue s = [] then \<exists>a k. s0 = rr_forward s a k else s0 = s) \<and>
           queue s0 \<noteq> [] \<and>
           queue s' =
             tl (queue s0) @ filter (rr_newcomer ps (rr_ran ps q s0)) [0..<length ps] @
             (if 0 < remainingTime (rr_ran ps q s0) ! hd (queue s0) then [hd (queue s0)] else []) \<and>
           (sorted (map arrivalTime ps) \<longrightarrow>
              sorted (map (\<lambda>i. arrivalTime (ps ! i))
                (filter (rr_newcomer ps (rr_ran ps q s0)) [0..<length ps])))"
proof -
  have slice: "queue (rr_slice ps q u) =
       tl (queue u) @ filter (rr_newcomer ps (rr_ran ps q u)) [0..<length ps] @
       (if 0 < remainingTime (rr_ran ps q u) ! hd (queue u) then [hd (queue u)] else [])" for u
    by (simp add: rr_slice_alt Let_def rr_admit_fold_queue)
  have order: "sorted (map arrivalTime ps) \<longrightarrow>
      sorted (map (\<lambda>i. arrivalTime (ps ! i)) (filter (rr_newcomer ps (rr_ran ps q u)) [0..<length ps]))"
    for u
    by (rule impI) (rule sorted_map_nth_filter_upt)
  have at: "\<exists>s0. (if queue s = [] then \<exists>a k. s0 = rr_forward s a k else s0 = s) \<and>
           queue s0 \<noteq> [] \<and>
           queue s' =
             tl (queue s0) @ filter (rr_newcomer ps (rr_ran ps q s0)) [0..<length ps] @
             (if 0 < remainingTime (rr_ran ps q s0) ! hd (queue s0) then [hd (queue s0)] else []) \<and>
           (sorted (map arrivalTime ps) \<longrightarrow>
              sorted (map (\<lambda>i. arrivalTime (ps ! i))
                (filter (rr_newcomer ps (rr_ran ps q s0)) [0..<length ps])))"
    if u: "s' = rr_slice ps q u" "queue u \<noteq> []"
      "if queue s = [] then \<exists>a k. u = rr_forward s a k else u = s" for u
  proof (intro exI [of _ u] conjI)
    show "if queue s = [] then \<exists>a k. u = rr_forward s a k else u = s" by (rule u(3))
    show "queue u \<noteq> []" by (rule u(2))
    show "queue s' =
        tl (queue u) @ filter (rr_newcomer ps (rr_ran ps q u)) [0..<length ps] @
        (if 0 < remainingTime (rr_ran ps q u) ! hd (queue u) then [hd (queue u)] else [])"
      unfolding u(1) by (rule slice)
    show "sorted (map arrivalTime ps) \<longrightarrow>
        sorted (map (\<lambda>i. arrivalTime (ps ! i)) (filter (rr_newcomer ps (rr_ran ps q u)) [0..<length ps]))"
      by (rule order)
  qed
  show ?thesis
  proof (cases "queue s = []")
    case False
    with assms have "s' = rr_slice ps q s" by (simp add: rr_body_def)
    then show ?thesis using False by (rule at) (simp add: False)
  next
    case True
    with assms obtain a k where s': "s' = rr_slice ps q (rr_forward s a k)"
      by (auto simp add: rr_body_def split: option.splits)
    have ne: "queue (rr_forward s a k) \<noteq> []" by (simp add: rr_forward_def)
    have "if queue s = [] then \<exists>a' k'. rr_forward s a k = rr_forward s a' k' else rr_forward s a k = s"
      using True by auto
    with s' ne show ?thesis by (rule at)
  qed
qed

theorem rr_slice_queue_order_witness:
  "map_outcome queue (rr_body spec_example 4 (rr_init spec_example)) = Next [1, 2, 0] \<and>
   queue (rr_init spec_example) = [0] \<and>
   filter (rr_newcomer spec_example (rr_ran spec_example 4 (rr_init spec_example)))
     [0..<length spec_example] = [1, 2] \<and>
   sorted (map (\<lambda>i. arrivalTime (spec_example ! i)) [1, 2])"
proof -
  let ?s = "rr_init spec_example"
  have h: "sorted (map arrivalTime spec_example)" by (simp add: spec_example_def mkProcess_def)
  have b: "rr_body spec_example 4 ?s = Next (rr_slice spec_example 4 ?s)" by code_simp
  have m: "map_outcome queue (rr_body spec_example 4 ?s) = Next [1, 2, 0]" by code_simp
  have q: "queue ?s = [0]" by code_simp
  have f: "filter (rr_newcomer spec_example (rr_ran spec_example 4 ?s)) [0..<length spec_example] = [1, 2]"
    by code_simp
  from rr_slice_queue_order [OF b] q obtain s0 where "s0 = ?s"
    and "sorted (map arrivalTime spec_example) \<longrightarrow>
      sorted (map (\<lambda>i. arrivalTime (spec_example ! i))
        (filter (rr_newcomer spec_example (rr_ran spec_example 4 s0)) [0..<length spec_example]))"
    by auto
  with h f have "sorted (map (\<lambda>i. arrivalTime (spec_example ! i)) [1, 2])" by simp
  with m q f show ?thesis by (intro conjI)
qed

section \<open>A short process in the feedback queues\<close>

lemma mlfq_body_Next: "\<exists>s'. mlfq_body ps q s = Next s'"
  by (simp add: mlfq_body_def Let_def)

lemma mlfq_run_Suc:
  assumes "mlfq_run ps q (Suc k) = Some s'"
  obtains s where "mlfq_run ps q k = Some s" "completed s < length ps" "mlfq_body ps q s = Next s'"
  using assms by (auto split: option.splits if_splits outcome.splits)

lemma mlfq_loop_run:
  assumes "mlfq_loop ps q = Some (Inr t)"
  shows "\<exists>k. mlfq_run ps q k = Some t"
proof (rule while_loop_invariant [OF assms [unfolded mlfq_loop_def],
      where I = "\<lambda>s. \<exists>k. mlfq_run ps q k = Some s"])
  show "\<exists>k. mlfq_run ps q k = Some (init_visit ps)" by (rule exI [of _ 0]) simp
next
  fix u u' assume "\<exists>k. mlfq_run ps q k = Some u" and b: "completed u < length ps"
    and c: "mlfq_body ps q u = Next u'"
  then obtain k where "mlfq_run ps q k = Some u" by blast
  with b c have "mlfq_run ps q (Suc k) = Some u'" by simp
  then show "\<exists>k. mlfq_run ps q k = Some u'" by blast
next
  fix u u' assume "mlfq_body ps q u = Break u'"
  with mlfq_body_Next [of ps q u] show "\<exists>k. mlfq_run ps q k = Some u'" by simp
qed simp

lemma short_inv_admit:
  assumes "short_inv ps i s"
  shows "short_inv ps i (foldl (mlfq_admit ps) s [0..<length ps])"
  using assms by (auto simp add: short_inv_def mlfq_admit_fold_queue)

lemma short_inv_dispatch:
  assumes J: "short_inv ps i s" and idx: "idx < length ps" and lvl: "idx = i \<longrightarrow> lvl = 0 \<and> qt = q"
    and q: "1 \<le> q" and short: "burstTime (ps ! i) \<le> q"
  shows "short_inv ps i (mlfq_dispatch ps idx lvl qt s)"
proof -
  let ?s' = "mlfq_dispatch ps idx lvl qt s"
  let ?r = "mlfq_ran ps idx lvl qt s"
  from J have len: "length (remainingTime s) = length ps"
    and bound: "\<forall>j\<in>set (q0 s @ q1 s @ q2 s). j < length ps"
    and n1: "i \<notin> set (q1 s)" and n2: "i \<notin> set (q2 s)"
    and rem: "remainingTime s ! i = burstTime (ps ! i) \<or> remainingTime s ! i = 0"
    by (simp_all add: short_inv_def)
  have r: "remainingTime ?s' = (remainingTime s)[idx := remainingTime s ! idx - mlfq_runTime lvl qt idx s]"
    by (simp add: mlfq_dispatch_other_fields)
  have ri: "remainingTime ?r ! i = burstTime (ps ! i) \<or> remainingTime ?r ! i = 0"
  proof (cases "idx = i")
    case False
    with rem show ?thesis by simp
  next
    case True
    with lvl have "mlfq_runTime lvl qt idx s = min (remainingTime s ! i) q"
      by (simp add: mlfq_runTime_def)
    also from rem short q have "\<dots> = remainingTime s ! i" by auto
    finally show ?thesis using True idx len by simp
  qed
  have zero: "remainingTime ?r ! idx = 0" if "idx = i"
  proof -
    from that lvl have "mlfq_runTime lvl qt idx s = min (remainingTime s ! i) q"
      by (simp add: mlfq_runTime_def)
    also from rem short q have "\<dots> = remainingTime s ! i" by auto
    finally show ?thesis using that idx len by simp
  qed
  have "length (remainingTime ?s') = length ps" using len by (simp add: r)
  moreover have "\<forall>j\<in>set (q0 ?s' @ q1 ?s' @ q2 ?s'). j < length ps"
  proof
    fix j assume "j \<in> set (q0 ?s' @ q1 ?s' @ q2 ?s')"
    then have "j \<in> set (q0 s @ q1 s @ q2 s) \<or> j = idx \<or> j \<in> set [0..<length ps] \<or> j \<in> set (tl (q2 s))"
      by (auto simp add: mlfq_dispatch_queues split: if_splits)
    moreover have "j \<in> set (q2 s)" if "j \<in> set (tl (q2 s))" using that by (cases "q2 s") auto
    ultimately show "j < length ps" using bound idx by auto
  qed
  moreover have "i \<notin> set (q1 ?s')" using n1 zero by (auto simp add: mlfq_dispatch_queues)
  moreover have "i \<notin> set (q2 ?s')"
  proof -
    have "set (tl (q2 s)) \<subseteq> set (q2 s)" by (cases "q2 s") auto
    with n2 zero lvl show ?thesis by (auto simp add: mlfq_dispatch_queues)
  qed
  moreover have "remainingTime ?s' ! i = burstTime (ps ! i) \<or> remainingTime ?s' ! i = 0"
    using ri by (simp add: mlfq_dispatch_other_fields)
  ultimately show ?thesis unfolding short_inv_def by (intro conjI)
qed

lemma short_inv_pop:
  assumes "short_inv ps i s"
  shows "short_inv ps i (s\<lparr>q0 := tl (q0 s)\<rparr>)" "short_inv ps i (s\<lparr>q1 := tl (q1 s)\<rparr>)"
proof -
  have "set (tl xs) \<subseteq> set xs" for xs :: "nat list" by (cases xs) auto
  then have "\<And>j xs. j \<in> set (tl xs) \<Longrightarrow> j \<in> set (xs :: nat list)" by blast
  with assms show "short_inv ps i (s\<lparr>q0 := tl (q0 s)\<rparr>)" "short_inv ps i (s\<lparr>q1 := tl (q1 s)\<rparr>)"
    by (auto simp add: short_inv_def)
qed

lemma short_inv_body:
  assumes J: "short_inv ps i s" and b: "mlfq_body ps q s = Next s'"
    and q: "1 \<le> q" and short: "burstTime (ps ! i) \<le> q"
  shows "short_inv ps i s'"
proof -
  define s0 where "s0 = foldl (mlfq_admit ps) s [0..<length ps]"
  have J0: "short_inv ps i s0" unfolding s0_def by (rule short_inv_admit [OF J])
  then have bound: "\<forall>j\<in>set (q0 s0 @ q1 s0 @ q2 s0). j < length ps"
    and n1: "i \<notin> set (q1 s0)" and n2: "i \<notin> set (q2 s0)"
    by (simp_all add: short_inv_def)
  consider (a) "q0 s0 \<noteq> []" | (b) "q0 s0 = []" "q1 s0 \<noteq> []"
    | (c) "q0 s0 = []" "q1 s0 = []" "q2 s0 \<noteq> []" | (d) "q0 s0 = []" "q1 s0 = []" "q2 s0 = []"
    by blast
  then show ?thesis
  proof cases
    case a
    with b have s': "s' = mlfq_dispatch ps (hd (q0 s0)) 0 q (s0\<lparr>q0 := tl (q0 s0)\<rparr>)"
      by (simp add: mlfq_body_def Let_def s0_def)
    from a bound have "hd (q0 s0) < length ps" by simp
    then show ?thesis unfolding s'
      by (rule short_inv_dispatch [OF short_inv_pop(1) [OF J0] _ _ q short]) simp
  next
    case b': b
    with b have s': "s' = mlfq_dispatch ps (hd (q1 s0)) 1 (q * 2) (s0\<lparr>q1 := tl (q1 s0)\<rparr>)"
      by (simp add: mlfq_body_def Let_def s0_def)
    from b' bound have idx: "hd (q1 s0) < length ps" by simp
    from b' n1 have "hd (q1 s0) \<noteq> i" by (metis hd_in_set)
    then have "hd (q1 s0) = i \<longrightarrow> (1::nat) = 0 \<and> q * 2 = q" by simp
    with idx show ?thesis unfolding s'
      by (intro short_inv_dispatch [OF short_inv_pop(2) [OF J0] _ _ q short])
  next
    case c
    with b have s': "s' = mlfq_dispatch ps (hd (q2 s0)) 2 0 s0"
      by (simp add: mlfq_body_def Let_def s0_def)
    from c bound have idx: "hd (q2 s0) < length ps" by simp
    from c n2 have "hd (q2 s0) \<noteq> i" by (metis hd_in_set)
    then have "hd (q2 s0) = i \<longrightarrow> (2::nat) = 0 \<and> 0 = q" by simp
    with idx show ?thesis unfolding s'
      by (intro short_inv_dispatch [OF J0 _ _ q short])
  next
    case d
    with b have s': "s' = s0\<lparr>currentTime := currentTime s0 + 1\<rparr>"
      by (simp add: mlfq_body_def Let_def s0_def)
    from J0 show ?thesis unfolding s' by (simp add: short_inv_def)
  qed
qed

lemma short_inv_run:
  assumes "mlfq_run ps q k = Some s" and i: "i < length ps"
    and q: "1 \<le> q" and short: "burstTime (ps ! i) \<le> q"
  shows "short_inv ps i s"
  using assms(1)
proof (induction k arbitrary: s)
  case 0
  then show ?case using i by (auto simp add: short_inv_def)
next
  case (Suc k)
  from Suc.prems obtain u where u: "mlfq_run ps q k = Some u" "mlfq_body ps q u = Next s"
    by (rule mlfq_run_Suc)
  from short_inv_body [OF Suc.IH [OF u(1)] u(2) q short] show ?case .
qed

lemma mlfq_run_level_inv:
  assumes burst: "\<forall>p\<in>set ps. 1 \<le> burstTime p" and q: "1 \<le> q"
    and run: "mlfq_run ps q k = Some s"
  shows "queue_level_inv ps (\<lambda>s. q0 s @ q1 s @ q2 s) s"
  using run
proof (induction k arbitrary: s)
  case 0
  then have "s = init_visit ps" by simp
  then show ?case using init_visit_level_inv [OF burst, of "\<lambda>s. q0 s @ q1 s @ q2 s"] by simp
next
  case (Suc k)
  from Suc.prems obtain u where u: "mlfq_run ps q k = Some u" "completed u < length ps"
    "mlfq_body ps q u = Next s"
    by (rule mlfq_run_Suc)
  note D = queue_level_invD [OF Suc.IH [OF u(1)]]
  from mlfq_body_step [OF D(1,2) u(2) burst q] u(3) D(3,4,5)
  show ?case by (auto simp add: queue_level_inv_def)
qed

lemma start_after_slice:
  assumes "idx < length (results s)"
  shows "startTime (results (after_slice ps idx d s) ! idx) =
         (if startTime (results s ! idx) = - 1 then currentTime s else startTime (results s ! idx))"
  using assms by (simp add: after_slice_def Let_def run_def complete_def finalize_def mark_start_def)

lemma once_inv_cong:
  assumes "remainingTime s' ! i = remainingTime s ! i" "results s' ! i = results s ! i"
  shows "once_inv ps i s' = once_inv ps i s"
  using assms by (simp add: once_inv_def)

lemma once_inv_dispatch_other:
  assumes "idx \<noteq> i" and "once_inv ps i s"
  shows "once_inv ps i (mlfq_dispatch ps idx lvl qt s)"
proof -
  let ?a = "after_slice ps idx (mlfq_runTime lvl qt idx s) s"
  from mlfq_dispatch_same_run(1) [of ps idx lvl qt s]
  have "remainingTime (mlfq_dispatch ps idx lvl qt s) = remainingTime ?a"
    "results (mlfq_dispatch ps idx lvl qt s) = results ?a"
    by (simp_all add: same_run_def)
  with assms(1) have "remainingTime (mlfq_dispatch ps idx lvl qt s) ! i = remainingTime s ! i"
    "results (mlfq_dispatch ps idx lvl qt s) ! i = results s ! i"
    by (simp_all add: after_slice_fields results_after_slice_other)
  from once_inv_cong [OF this] assms(2) show ?thesis by simp
qed

lemma once_inv_dispatch_self:
  assumes K: "once_inv ps i s" and len: "i < length (results s)" "i < length (remainingTime s)"
    and rem: "remainingTime s ! i = burstTime (ps ! i)" and pos: "0 < burstTime (ps ! i)"
    and short: "burstTime (ps ! i) \<le> q"
  shows "once_inv ps i (mlfq_dispatch ps i 0 q s)"
proof -
  have d: "mlfq_runTime 0 q i s = burstTime (ps ! i)" using rem short by (simp add: mlfq_runTime_def)
  let ?a = "after_slice ps i (burstTime (ps ! i)) s"
  from mlfq_dispatch_same_run(1) [of ps i 0 q s]
  have eq: "remainingTime (mlfq_dispatch ps i 0 q s) = remainingTime ?a"
    "results (mlfq_dispatch ps i 0 q s) = results ?a"
    by (simp_all add: same_run_def d)
  from K rem pos have "startTime (results s ! i) = - 1" by (simp add: once_inv_def)
  with start_after_slice [OF len(1), of ps "burstTime (ps ! i)"]
  have st: "startTime (results ?a ! i) = currentTime s" by simp
  from results_after_slice_idx(4) [OF len rem, of ps]
  have en: "endTime (results ?a ! i) = currentTime s + burstTime (ps ! i)" by simp
  have "remainingTime ?a ! i = 0" using len(2) rem by (simp add: after_slice_fields)
  with st en show ?thesis by (simp add: once_inv_def eq)
qed

lemma once_inv_body:
  assumes L: "queue_level_inv ps (\<lambda>s. q0 s @ q1 s @ q2 s) s" and J: "short_inv ps i s"
    and K: "once_inv ps i s" and b: "mlfq_body ps q s = Next s'"
    and burst: "\<forall>p\<in>set ps. 1 \<le> burstTime p" and i: "i < length ps"
    and short: "burstTime (ps ! i) \<le> q"
  shows "once_inv ps i s'"
proof -
  note D = queue_level_invD [OF L]
  define s0 where "s0 = foldl (mlfq_admit ps) s [0..<length ps]"
  have core: "remainingTime s0 = remainingTime s" "results s0 = results s" by (simp_all add: s0_def)
  have K0: "once_inv ps i s0" using K by (simp add: once_inv_def core)
  have J0: "short_inv ps i s0" unfolding s0_def by (rule short_inv_admit [OF J])
  then have n1: "i \<notin> set (q1 s0)" and n2: "i \<notin> set (q2 s0)"
    and rem0: "remainingTime s0 ! i = burstTime (ps ! i) \<or> remainingTime s0 ! i = 0"
    by (simp_all add: short_inv_def)
  have qinv0: "queued_inv ps s0 (q0 s0 @ q1 s0 @ q2 s0)"
    using mlfq_admitted(1) [OF D(2) burst] by (simp add: s0_def)
  from burst i have pos: "0 < burstTime (ps ! i)" by (metis nth_mem zero_less_one_class.zero_less_one less_le_trans)
  consider (a) "q0 s0 \<noteq> []" | (b) "q0 s0 = []" "q1 s0 \<noteq> []"
    | (c) "q0 s0 = []" "q1 s0 = []" "q2 s0 \<noteq> []" | (d) "q0 s0 = []" "q1 s0 = []" "q2 s0 = []"
    by blast
  then show ?thesis
  proof cases
    case a
    let ?sx = "s0\<lparr>q0 := tl (q0 s0)\<rparr>"
    from a b have s': "s' = mlfq_dispatch ps (hd (q0 s0)) 0 q ?sx"
      by (simp add: mlfq_body_def Let_def s0_def)
    have Kx: "once_inv ps i ?sx" using K0 by (simp add: once_inv_def)
    show ?thesis
    proof (cases "hd (q0 s0) = i")
      case False
      then show ?thesis unfolding s' using Kx by (rule once_inv_dispatch_other)
    next
      case True
      with a have "i \<in> set (q0 s0 @ q1 s0 @ q2 s0)" by (metis hd_in_set UnCI set_append)
      with queued_invD(3) [OF qinv0] have "0 < remainingTime s0 ! i" by blast
      with rem0 have r: "remainingTime ?sx ! i = burstTime (ps ! i)" by auto
      have len: "i < length (results ?sx)" "i < length (remainingTime ?sx)"
        using i wait_invD(1) [OF D(3)] count_invD(1) [OF D(1)] by (simp_all add: core)
      show ?thesis unfolding s' True
        by (rule once_inv_dispatch_self [OF Kx len r pos short])
    qed
  next
    case b': b
    with b have s': "s' = mlfq_dispatch ps (hd (q1 s0)) 1 (q * 2) (s0\<lparr>q1 := tl (q1 s0)\<rparr>)"
      by (simp add: mlfq_body_def Let_def s0_def)
    have Kx: "once_inv ps i (s0\<lparr>q1 := tl (q1 s0)\<rparr>)" using K0 by (simp add: once_inv_def)
    from b' n1 have "hd (q1 s0) \<noteq> i" by (metis hd_in_set)
    then show ?thesis unfolding s' using Kx by (rule once_inv_dispatch_other)
  next
    case c
    with b have s': "s' = mlfq_dispatch ps (hd (q2 s0)) 2 0 s0"
      by (simp add: mlfq_body_def Let_def s0_def)
    from c n2 have "hd (q2 s0) \<noteq> i" by (metis hd_in_set)
    then show ?thesis unfolding s' using K0 by (rule once_inv_dispatch_other)
  next
    case d
    with b have s': "s' = s0\<lparr>currentTime := currentTime s0 + 1\<rparr>"
      by (simp add: mlfq_body_def Let_def s0_def)
    from K0 show ?thesis unfolding s' by (simp add: once_inv_def)
  qed
qed

lemma once_inv_run:
  assumes run: "mlfq_run ps q k = Some s" and i: "i < length ps"
    and q: "1 \<le> q" and short: "burstTime (ps ! i) \<le> q"
    and burst: "\<forall>p\<in>set ps. 1 \<le> burstTime p"
  shows "once_inv ps i s"
  using run
proof (induction k arbitrary: s)
  case 0
  then have s: "s = init_visit ps" by simp
  from burst i have "1 \<le> burstTime (ps ! i)" by simp
  then show ?case using i unfolding s by (simp add: once_inv_def mkResult_def)
next
  case (Suc k)
  from Suc.prems obtain u where u: "mlfq_run ps q k = Some u" "mlfq_body ps q u = Next s"
    by (rule mlfq_run_Suc)
  from once_inv_body [OF mlfq_run_level_inv [OF burst q u(1)] short_inv_run [OF u(1) i q short]
      Suc.IH [OF u(1)] u(2) burst i short]
  show ?case .
qed

lemma mlfq_loop_finishes:
  assumes burst: "\<forall>p\<in>set ps. 1 \<le> burstTime p" and q: "1 \<le> q" and i: "i < length ps"
  shows "\<exists>n t. mlfq_loop ps q = Some (Inr t) \<and> mlfq_run ps q n = Some t \<and> remainingTime t ! i = 0"
proof -
  from mlfq_loop_total [OF burst q] obtain t where t: "mlfq_loop ps q = Some (Inr t)"
    "queue_level_inv ps (\<lambda>s. q0 s @ q1 s @ q2 s) t" "\<not> completed t < length ps" by blast
  from count_inv_finished [OF queue_level_invD(1) [OF t(2)] t(3) i] have "remainingTime t ! i = 0" .
  with t(1) mlfq_loop_run [OF t(1)] show ?thesis by blast
qed

text \<open>
  C8. Take a state at the head of the loop of \<^verbatim>\<open>solveMLFQ\<close>, a quantum of at least 1 and
  a process whose burst time is at most the quantum. The process is neither in
  \<^verbatim>\<open>q1\<close> nor in \<^verbatim>\<open>q2\<close>, and its remaining time is its whole burst time or 0: no slice
  leaves it partly run. When all burst times are at least 1, its completion time is
  its start time plus its burst time, so that it ran once, from level 0, and the loop
  ends in such a state with the process finished.
\<close>

theorem mlfq_short_process_stays_in_q0:
  assumes run: "mlfq_run ps q k = Some s" and q: "1 \<le> q" and i: "i < length ps"
    and short: "burstTime (ps ! i) \<le> q"
  shows "i \<notin> set (q1 s) \<and> i \<notin> set (q2 s) \<and>
         (remainingTime s ! i = burstTime (ps ! i) \<or> remainingTime s ! i = 0) \<and>
         ((\<forall>p\<in>set ps. 1 \<le> burstTime p) \<longrightarrow>
            (remainingTime s ! i = 0 \<longrightarrow>
               endTime (results s ! i) = startTime (results s ! i) + burstTime (ps ! i)) \<and>
            (\<exists>n t. mlfq_loop ps q = Some (Inr t) \<and> mlfq_run ps q n = Some t \<and>
               remainingTime t ! i = 0))"
proof -
  from short_inv_run [OF run i q short]
  have "i \<notin> set (q1 s)" "i \<notin> set (q2 s)"
    "remainingTime s ! i = burstTime (ps ! i) \<or> remainingTime s ! i = 0"
    by (simp_all add: short_inv_def)
  moreover have "(remainingTime s ! i = 0 \<longrightarrow>
         endTime (results s ! i) = startTime (results s ! i) + burstTime (ps ! i)) \<and>
      (\<exists>n t. mlfq_loop ps q = Some (Inr t) \<and> mlfq_run ps q n = Some t \<and> remainingTime t ! i = 0)"
    if burst: "\<forall>p\<in>set ps. 1 \<le> burstTime p"
    using once_inv_run [OF run i q short burst] mlfq_loop_finishes [OF burst q i]
    by (simp add: once_inv_def)
  ultimately show ?thesis by (intro conjI impI) blast+
qed

theorem mlfq_short_process_stays_in_q0_witness:
  "map_option (\<lambda>s. (q1 s, q2 s, remainingTime s)) (mlfq_run spec_example 2 3) =
     Some ([0, 1], [], [3, 1, 0, 4]) \<and>
   2 \<notin> set (q1 (the (mlfq_run spec_example 2 3))) \<and>
   2 \<notin> set (q2 (the (mlfq_run spec_example 2 3))) \<and>
   endTime (results (the (mlfq_run spec_example 2 3)) ! 2) =
     startTime (results (the (mlfq_run spec_example 2 3)) ! 2) + burstTime (spec_example ! 2) \<and>
   (\<exists>n t. mlfq_loop spec_example 2 = Some (Inr t) \<and> mlfq_run spec_example 2 n = Some t \<and>
      remainingTime t ! 2 = 0)"
proof -
  have r: "mlfq_run spec_example 2 3 = Some (the (mlfq_run spec_example 2 3))" by code_simp
  have q: "(1::int) \<le> 2" by simp
  have i: "2 < length spec_example" by (simp add: spec_example_def)
  have short: "burstTime (spec_example ! 2) \<le> 2" by (simp add: spec_example_def mkProcess_def)
  have burst: "\<forall>p\<in>set spec_example. 1 \<le> burstTime p" by (simp add: spec_example_def mkProcess_def)
  have z: "remainingTime (the (mlfq_run spec_example 2 3)) ! 2 = 0" by code_simp
  have m: "map_option (\<lambda>s. (q1 s, q2 s, remainingTime s)) (mlfq_run spec_example 2 3) =
     Some ([0, 1], [], [3, 1, 0, 4])" by code_simp
  note T = mlfq_short_process_stays_in_q0 [OF r q i short]
  from T have a: "2 \<notin> set (q1 (the (mlfq_run spec_example 2 3)))"
    and b: "2 \<notin> set (q2 (the (mlfq_run spec_example 2 3)))" by blast+
  from T burst have c: "(remainingTime (the (mlfq_run spec_example 2 3)) ! 2 = 0 \<longrightarrow>
       endTime (results (the (mlfq_run spec_example 2 3)) ! 2) =
         startTime (results (the (mlfq_run spec_example 2 3)) ! 2) + burstTime (spec_example ! 2)) \<and>
     (\<exists>n t. mlfq_loop spec_example 2 = Some (Inr t) \<and> mlfq_run spec_example 2 n = Some t \<and>
        remainingTime t ! 2 = 0)" by blast
  from conjunct1 [OF c] z have d: "endTime (results (the (mlfq_run spec_example 2 3)) ! 2) =
         startTime (results (the (mlfq_run spec_example 2 3)) ! 2) + burstTime (spec_example ! 2)"
    by (rule mp)
  from m a b d conjunct2 [OF c] show ?thesis by (intro conjI)
qed

section \<open>The module without the decision log\<close>

lemma pre_tick_no_reset:
  "pre_tick False ps idx s = (pre_tick True ps idx s)\<lparr>lastProcessId := id' (ps ! idx)\<rparr>"
  by (simp add: pre_tick_def Let_def mark_start_def)

lemma pre_tick_ignores_last:
  assumes "lastProcessId s \<noteq> id' (ps ! idx)" "l \<noteq> id' (ps ! idx)"
  shows "pre_tick r ps idx (s\<lparr>lastProcessId := l\<rparr>) = pre_tick r ps idx s"
  using assms by (simp add: pre_tick_def Let_def mark_start_def)

lemma log_rel_tick:
  assumes "idx < length ps"
  shows "log_rel ps (pre_tick True ps idx s) (pre_tick False ps idx s)"
proof -
  have "lastProcessId (pre_tick True ps idx s) = id' (ps ! idx) \<or>
        (lastProcessId (pre_tick True ps idx s) = [] \<and> remainingTime (pre_tick True ps idx s) ! idx = 0)"
    by (auto simp add: pre_tick_fields)
  with assms show ?thesis unfolding log_rel_def pre_tick_no_reset by blast
qed

lemma log_relE:
  assumes "log_rel ps s t"
  obtains l where "t = s\<lparr>lastProcessId := l\<rparr>"
    and "lastProcessId s = l \<or>
         (lastProcessId s = [] \<and> (\<exists>j<length ps. l = id' (ps ! j) \<and> remainingTime s ! j = 0))"
  using assms unfolding log_rel_def by blast

lemma pre_body_sim:
  assumes R: "log_rel ps s t" and sel: "pre_select_ok select"
    and same: "\<And>u l. select ps (u\<lparr>lastProcessId := l\<rparr>) = select ps u"
    and dist: "distinct (map id' ps)" and ids: "\<forall>p\<in>set ps. id' p \<noteq> []"
  shows "rel_outcome (log_rel ps) (pre_body True select ps s) (pre_body False select ps t)"
proof -
  from R obtain l where t: "t = s\<lparr>lastProcessId := l\<rparr>"
    and l: "lastProcessId s = l \<or>
         (lastProcessId s = [] \<and> (\<exists>j<length ps. l = id' (ps ! j) \<and> remainingTime s ! j = 0))"
    by (rule log_relE)
  have st: "select ps t = select ps s" unfolding t by (rule same)
  from pre_select_disj [OF sel, of ps s] show ?thesis
  proof (elim disjE exE conjE)
    assume n: "select ps s = Inr None"
    have "t\<lparr>currentTime := currentTime t + 1\<rparr> = (s\<lparr>currentTime := currentTime s + 1\<rparr>)\<lparr>lastProcessId := l\<rparr>"
      unfolding t by simp
    with l have "log_rel ps (s\<lparr>currentTime := currentTime s + 1\<rparr>) (t\<lparr>currentTime := currentTime t + 1\<rparr>)"
      unfolding log_rel_def by auto
    with n st show ?thesis by (simp add: pre_body_def)
  next
    fix idx assume some: "select ps s = Inr (Some idx)" and idx: "idx < length ps"
      and ready: "pre_ready ps s idx"
    from ready have pos: "0 < remainingTime s ! idx" by (simp add: pre_ready_def)
    from ids idx have ne: "id' (ps ! idx) \<noteq> []" by simp
    from l consider (eq) "lastProcessId s = l"
      | (diff) j where "lastProcessId s = []" "j < length ps" "l = id' (ps ! j)"
          "remainingTime s ! j = 0"
      by blast
    then show ?thesis
    proof cases
      case eq
      with t have ts: "t = s" by simp
      show ?thesis using some log_rel_tick [OF idx, of s] by (simp add: pre_body_def ts)
    next
      case diff
      from diff(4) pos have "j \<noteq> idx" by auto
      with dist diff(2) idx have "id' (ps ! j) \<noteq> id' (ps ! idx)"
        by (simp add: distinct_conv_nth)
      with diff(3) have lt: "l \<noteq> id' (ps ! idx)" by simp
      from diff(1) ne have ls: "lastProcessId s \<noteq> id' (ps ! idx)" by simp
      have tick: "pre_tick False ps idx t = pre_tick False ps idx s"
        unfolding t by (rule pre_tick_ignores_last [OF ls lt])
      have "lastProcessId t \<noteq> id' (ps ! idx)" unfolding t using lt by simp
      with some st ls tick log_rel_tick [OF idx, of s] show ?thesis by (simp add: pre_body_def)
    qed
  qed
qed

lemma pre_loop_reset_irrelevant:
  assumes sel: "pre_select_ok select"
    and same: "\<And>u l. select ps (u\<lparr>lastProcessId := l\<rparr>) = select ps u"
    and dist: "distinct (map id' ps)" and ids: "\<forall>p\<in>set ps. id' p \<noteq> []"
  shows "finish lc (pre_loop False select ps) = finish lc (pre_loop True select ps)"
proof -
  have "rel_option (rel_sum (=) (log_rel ps)) (pre_loop True select ps) (pre_loop False select ps)"
    unfolding pre_loop_def
  proof (rule while_loop_sim)
    have "init_run ps = (init_run ps)\<lparr>lastProcessId := lastProcessId (init_run ps)\<rparr>" by simp
    then show "log_rel ps (init_run ps) (init_run ps)" unfolding log_rel_def by blast
    show "\<And>u v. log_rel ps u v \<Longrightarrow> (completed u < length ps) = (completed v < length ps)"
      by (erule log_relE) simp
    show "\<And>u v. log_rel ps u v \<Longrightarrow> completed u < length ps \<Longrightarrow>
        rel_outcome (log_rel ps) (pre_body True select ps u) (pre_body False select ps v)"
      by (rule pre_body_sim [OF _ sel same dist ids])
  qed
  moreover have "calculateAverages lc (results u) (ganttChart u) = calculateAverages lc (results v) (ganttChart v)"
    if "log_rel ps u v" for u v
    using that by (rule log_relE) simp
  ultimately show ?thesis
    by (cases "pre_loop True select ps"; cases "pre_loop False select ps")
       (auto simp add: finish_def elim!: rel_sum.cases)
qed

text \<open>
  C10, as it is stated, fails: the SRTF and Priority (Preemptive) solvers of
  \<^verbatim>\<open>scheduler.ts\<close> set \<^verbatim>\<open>lastProcessId = ""\<close> when a process finishes, those of
  \<^verbatim>\<open>part_001\<close> do not. With two processes that share the identifier \<^verbatim>\<open>P\<close> the first
  module starts a second block at time 1, the second module extends the first block.
\<close>

theorem solve_nolog_differs_on_shared_id:
  "solve codeUnitCompare ''SRTF (Preemptive)'' [mkProcess ''P'' 0 1 0, mkProcess ''P'' 0 1 0] 1 =
     Some (Inr \<lparr>SchedulerOutput.results =
                  [mkResult (mkProcess ''P'' 0 1 0) 0 1 1 0, mkResult (mkProcess ''P'' 0 1 0) 1 2 2 1],
                SchedulerOutput.ganttChart = [mkBlock ''P'' 0 1, mkBlock ''P'' 1 2],
                averageTurnaroundTime = 3 / 2, averageWaitingTime = 1 / 2\<rparr>) \<and>
   solve_nolog codeUnitCompare ''SRTF (Preemptive)'' [mkProcess ''P'' 0 1 0, mkProcess ''P'' 0 1 0] 1 =
     Some (Inr \<lparr>SchedulerOutput.results =
                  [mkResult (mkProcess ''P'' 0 1 0) 0 1 1 0, mkResult (mkProcess ''P'' 0 1 0) 1 2 2 1],
                SchedulerOutput.ganttChart = [mkBlock ''P'' 0 2],
                averageTurnaroundTime = 3 / 2, averageWaitingTime = 1 / 2\<rparr>)"
  by code_simp

text \<open>
  C10, as the code has it. When the identifiers of the processes are distinct and not
  empty, the two modules return the same value for every algorithm name and every
  quantum: the same output, the same error, or neither returns.
\<close>

theorem solve_nolog_same_output:
  assumes dist: "distinct (map id' ps)" and ids: "\<forall>p\<in>set ps. id' p \<noteq> []"
  shows "solve_nolog lc algorithm ps q = solve lc algorithm ps q"
proof -
  have "solveSRTF_nolog lc ps = solveSRTF lc ps"
    unfolding solveSRTF_nolog_def solveSRTF_def
    by (rule pre_loop_reset_irrelevant [OF selectSRTF_ok _ dist ids]) (simp add: selectSRTF_def)
  moreover have "solvePriorityP_nolog lc ps = solvePriorityP lc ps"
    unfolding solvePriorityP_nolog_def solvePriorityP_def
    by (rule pre_loop_reset_irrelevant [OF selectPriorityP_ok _ dist ids]) (simp add: selectPriorityP_def)
  ultimately show ?thesis by (simp add: solve_nolog_def solve_def)
qed

theorem solve_nolog_same_output_witness:
  "solve codeUnitCompare ''Priority (Preemptive)'' spec_example 2 = Some (Inr priority_example_output) \<and>
   solve_nolog codeUnitCompare ''Priority (Preemptive)'' spec_example 2 = Some (Inr priority_example_output)"
proof -
  have dist: "distinct (map id' spec_example)" by (simp add: spec_example_def mkProcess_def)
  have ids: "\<forall>p\<in>set spec_example. id' p \<noteq> []" by (simp add: spec_example_def mkProcess_def)
  have run: "solve codeUnitCompare ''Priority (Preemptive)'' spec_example 2 = Some (Inr priority_example_output)"
    by code_simp
  from run solve_nolog_same_output [OF dist ids, of codeUnitCompare "''Priority (Preemptive)''" 2]
  show ?thesis by simp
qed

section \<open>The clock is bounded\<close>

lemma max_arrival_nonneg: "0 \<le> max_arrival ps"
  unfolding max_arrival_def by (induction ps) auto

lemma time_inv_cong: "same_run s s' \<Longrightarrow> time_inv ps s = time_inv ps s'"
  by (simp add: same_run_def time_inv_def)

lemma sum_list_pointwise_le:
  fixes xs ys :: "int list"
  assumes "length xs = length ys" "\<forall>i<length xs. xs ! i \<le> ys ! i"
  shows "sum_list xs \<le> sum_list ys"
  using assms
proof (induction xs ys rule: list_induct2)
  case Nil
  then show ?case by simp
next
  case (Cons x xs y ys)
  from Cons.prems have "x \<le> y" by (metis length_Cons nth_Cons_0 zero_less_Suc)
  moreover from Cons.prems have "\<forall>i<length xs. xs ! i \<le> ys ! i" by fastforce
  ultimately show ?case using Cons.IH by simp
qed

lemma sum_remaining_le:
  assumes "count_inv ps s"
  shows "sum_list (remainingTime s) \<le> sum_list (map burstTime ps)"
  by (rule sum_list_pointwise_le) (use count_invD(1,3) [OF assms] in simp_all)

lemma time_inv_init:
  assumes "\<forall>p\<in>set ps. 1 \<le> burstTime p"
    and "remainingTime s = map burstTime ps" "length (results s) = length ps" "currentTime s = 0"
  shows "time_inv ps s"
proof -
  have "remainingTime s ! i \<noteq> 0" if "i < length ps" for i
  proof -
    from assms(1) that have "1 \<le> burstTime (ps ! i)" by simp
    with that show ?thesis by (simp add: assms(2))
  qed
  with assms(2,3,4) max_arrival_nonneg [of ps] show ?thesis
    by (simp add: time_inv_def time_bound_def)
qed

lemma time_inv_idle:
  assumes tinv: "time_inv ps s" and cinv: "count_inv ps s"
    and same: "remainingTime s' = remainingTime s" "results s' = results s"
    and t': "currentTime s' \<le> max_arrival ps"
  shows "time_inv ps s'"
  using tinv sum_remaining_le [OF cinv] t' by (simp add: time_inv_def same time_bound_def)

lemma time_inv_after_slice:
  assumes tinv: "time_inv ps s" and cinv: "count_inv ps s" and idx: "idx < length ps"
    and d: "0 < d" "d \<le> remainingTime s ! idx"
  shows "time_inv ps (after_slice ps idx d s)"
proof -
  let ?s' = "after_slice ps idx d s"
  from tinv have len: "length (results s) = length ps"
    and clock: "currentTime s + sum_list (remainingTime s) \<le> time_bound ps"
    and ended: "\<And>i. i < length ps \<Longrightarrow> remainingTime s ! i = 0 \<Longrightarrow> endTime (results s ! i) \<le> time_bound ps"
    by (simp_all add: time_inv_def)
  note lenr = count_invD(1) [OF cinv]
  have sum: "sum_list ((remainingTime s)[idx := remainingTime s ! idx - d]) = sum_list (remainingTime s) - d"
    using idx lenr by (simp add: sum_list_update_int)
  have clock': "currentTime ?s' + sum_list (remainingTime ?s') \<le> time_bound ps"
    using clock by (simp add: after_slice_fields sum)
  have nonneg: "0 \<le> sum_list (remainingTime ?s')"
    by (rule count_inv_sum_nonneg [OF count_inv_after_slice [OF cinv idx d]])
  have "endTime (results ?s' ! i) \<le> time_bound ps"
    if i: "i < length ps" and z: "remainingTime ?s' ! i = 0" for i
  proof (cases "i = idx")
    case False
    with z have "remainingTime s ! i = 0" by (simp add: after_slice_fields)
    from ended [OF i this] False show ?thesis by (simp add: results_after_slice_other)
  next
    case True
    with z idx lenr have "remainingTime s ! idx = d" by (simp add: after_slice_fields)
    from results_after_slice_idx(4) [OF _ _ this, of ps] idx len lenr
    have "endTime (results ?s' ! idx) = currentTime s + d" by simp
    with clock' nonneg True show ?thesis by (simp add: after_slice_fields(2))
  qed
  with clock' len show ?thesis by (simp add: time_inv_def after_slice_fields)
qed

lemma time_inv_slice:
  assumes tinv: "time_inv ps s" and cinv: "count_inv ps s" and idx: "idx < length ps"
    and d: "0 < d" "d \<le> remainingTime s ! idx"
    and sr: "same_run s' (after_slice ps idx d s)"
  shows "time_inv ps s'"
  using time_inv_after_slice [OF tinv cinv idx d] time_inv_cong [OF sr] by simp

lemma time_inv_final:
  assumes tinv: "time_inv ps t" and cinv: "count_inv ps t" and fin: "\<not> completed t < length ps"
  shows "currentTime t \<le> time_bound ps" and "\<forall>r\<in>set (results t). endTime r \<le> time_bound ps"
proof -
  from tinv count_inv_sum_nonneg [OF cinv] show "currentTime t \<le> time_bound ps"
    by (simp add: time_inv_def)
  show "\<forall>r\<in>set (results t). endTime r \<le> time_bound ps"
  proof
    fix r assume "r \<in> set (results t)"
    then obtain i where i: "i < length (results t)" "r = results t ! i"
      unfolding in_set_conv_nth by blast
    with tinv have il: "i < length ps" by (simp add: time_inv_def)
    from count_inv_finished [OF cinv fin il] tinv il i show "endTime r \<le> time_bound ps"
      by (simp add: time_inv_def)
  qed
qed

subsection \<open>Round Robin\<close>

lemma rr_body_time:
  assumes cinv: "count_inv ps s" and qinv: "rr_queue_inv ps s" and lt: "completed s < length ps"
    and burst: "\<forall>p\<in>set ps. 1 \<le> burstTime p" and q: "1 \<le> q"
    and tinv: "time_inv ps s" and b: "rr_body ps q s = Next s'"
  shows "time_inv ps s'"
proof -
  from rr_body_shape [OF cinv qinv lt burst, of q] b obtain s0 where
    s': "s' = rr_slice ps q s0" and ne: "queue s0 \<noteq> []" and q0: "rr_queue_inv ps s0"
    and r0: "remainingTime s0 = remainingTime s" and res0: "results s0 = results s"
    and c0: "completed s0 = completed s"
    and shape: "s0 = s \<or> (\<exists>k<length ps. s0 = rr_forward s (arrivalTime (ps ! k)) k)"
    by auto
  have cinv0: "count_inv ps s0" by (rule count_inv_idle [OF cinv r0 c0])
  from shape have tinv0: "time_inv ps s0"
  proof
    assume "s0 = s"
    with tinv show ?thesis by simp
  next
    assume "\<exists>k<length ps. s0 = rr_forward s (arrivalTime (ps ! k)) k"
    then obtain k where k: "k < length ps" "s0 = rr_forward s (arrivalTime (ps ! k)) k" by blast
    from k(1) have "arrivalTime (ps ! k) \<le> max_arrival ps" by (intro max_arrival_ge) simp
    with k(2) have "currentTime s0 \<le> max_arrival ps" by simp
    from time_inv_idle [OF tinv cinv r0 res0 this] show ?thesis .
  qed
  define idx where "idx = hd (queue s0)"
  define d where "d = min q (remainingTime s0 ! idx)"
  from ne have "idx \<in> set (queue s0)" by (simp add: idx_def)
  with rr_queue_invD(3) [OF q0] have idx: "idx < length ps" "0 < remainingTime s0 ! idx" by blast+
  have d: "0 < d" "d \<le> remainingTime s0 ! idx" using idx q by (simp_all add: d_def)
  have "hd (queue s0) < length (remainingTime s0)" using idx count_invD(1) [OF cinv0] by (simp add: idx_def)
  from rr_slice_same_run(1) [OF this, of q ps]
  have sr: "same_run s' (after_slice ps idx d s0)" by (simp add: s' idx_def d_def)
  from time_inv_slice [OF tinv0 cinv0 idx(1) d sr] show ?thesis .
qed

lemma rr_time_bound:
  assumes burst: "\<forall>p\<in>set ps. 1 \<le> burstTime p" and q: "1 \<le> q"
    and run: "rr_loop ps q = Some (Inr t)"
  shows "time_inv ps t"
proof -
  let ?I = "\<lambda>s. rr_inv1 ps s \<and> time_inv ps s"
  have "?I t"
  proof (rule while_loop_invariant [OF run [unfolded rr_loop_def], where I = ?I])
    have "time_inv ps (rr_init ps)" by (rule time_inv_init [OF burst]) simp_all
    with rr_init_inv1 [OF burst] show "?I (rr_init ps)" by simp
  next
    fix u u' assume I: "?I u" and lt: "completed u < length ps" and b: "rr_body ps q u = Next u'"
    from I have cinv: "count_inv ps u" and qinv: "rr_queue_inv ps u" and tinv: "time_inv ps u"
      by (simp_all add: rr_inv1_def)
    from rr_body_inv1 [OF conjunct1 [OF I] lt burst q] b have "rr_inv1 ps u'" by auto
    with rr_body_time [OF cinv qinv lt burst q tinv b] show "?I u'" by simp
  next
    fix u u' assume "?I u" "rr_body ps q u = Break u'"
    then show "?I u'" by (auto simp add: rr_body_def split: if_splits option.splits)
  qed simp
  then show ?thesis by simp
qed

subsection \<open>The queue levels\<close>

lemma time_inv_same:
  assumes "time_inv ps s" "remainingTime s' = remainingTime s" "results s' = results s"
    "currentTime s' = currentTime s"
  shows "time_inv ps s'"
  using assms by (simp add: time_inv_def)

lemma mlq_body_time:
  assumes cinv: "count_inv ps s" and qinv: "queued_inv ps s (q1 s @ q2 s)"
    and lt: "completed s < length ps"
    and burst: "\<forall>p\<in>set ps. 1 \<le> burstTime p" and q: "1 \<le> q"
    and tinv: "time_inv ps s" and b: "mlq_body ps q s = Next s'"
  shows "time_inv ps s'"
proof -
  define s0 where "s0 = foldl (mlq_admit ps) s [0..<length ps]"
  have core: "remainingTime s0 = remainingTime s" "completed s0 = completed s"
    "results s0 = results s" "currentTime s0 = currentTime s"
    by (simp_all add: s0_def)
  have cinv0: "count_inv ps s0" by (rule count_inv_idle [OF cinv core(1,2)])
  have qinv0: "queued_inv ps s0 (q1 s0 @ q2 s0)" and adm: "all_admitted ps s0"
    using mlq_admitted(1,2) [OF qinv burst] by (simp_all add: s0_def)
  have tinv0: "time_inv ps s0" by (rule time_inv_same [OF tinv core(1,3,4)])
  note mem0 = queued_invD(3) [OF qinv0]
  consider (a) "q1 s0 \<noteq> []" | (b) "q1 s0 = []" "q2 s0 \<noteq> []" | (c) "q1 s0 = []" "q2 s0 = []"
    by blast
  then show ?thesis
  proof cases
    case a
    define idx where "idx = hd (q1 s0)"
    define d where "d = min q (remainingTime s0 ! idx)"
    from a b have s': "s' = mlq_high ps q s0" by (simp add: mlq_body_def s0_def Let_def)
    have "idx \<in> set (q1 s0 @ q2 s0)" using a by (simp add: idx_def)
    with mem0 have idx: "idx < length ps" "0 < remainingTime s0 ! idx" by blast+
    have d: "0 < d" "d \<le> remainingTime s0 ! idx" using idx q by (simp_all add: d_def)
    have len: "idx < length (remainingTime s0)" using idx count_invD(1) [OF cinv0] by simp
    have sr: "same_run s' (after_slice ps idx d s0)"
      unfolding idx_def d_def s'
      by (rule mlq_high_same_run; use len d in \<open>simp add: idx_def d_def\<close>)
    from time_inv_slice [OF tinv0 cinv0 idx(1) d sr] show ?thesis .
  next
    case b': b
    define idx where "idx = hd (q2 s0)"
    from b' b have s': "s' = mlq_low ps s0" by (simp add: mlq_body_def s0_def Let_def)
    have "idx \<in> set (q1 s0 @ q2 s0)" using b' by (simp add: idx_def)
    with mem0 have idx: "idx < length ps" "0 < remainingTime s0 ! idx" by blast+
    have d: "(0::int) < 1" "1 \<le> remainingTime s0 ! idx" using idx by simp_all
    have sr: "same_run s' (after_slice ps idx 1 s0)"
      unfolding idx_def s' by (rule mlq_low_same_run)
    from time_inv_slice [OF tinv0 cinv0 idx(1) d sr] show ?thesis .
  next
    case c
    from c b have s': "s' = s0\<lparr>currentTime := currentTime s0 + 1\<rparr>"
      by (simp add: mlq_body_def s0_def Let_def)
    have lt0: "completed s0 < length ps" using lt core by simp
    from count_inv_unfinished [OF cinv0 lt0] obtain i where i: "i < length ps" "0 < remainingTime s0 ! i"
      by blast
    have "\<not> visited s0 ! i"
    proof
      assume "visited s0 ! i"
      with i mem0 [of i] c show False by simp
    qed
    with adm i have "currentTime s0 < arrivalTime (ps ! i)" by (simp add: all_admitted_def)
    moreover have "arrivalTime (ps ! i) \<le> max_arrival ps" using i by (intro max_arrival_ge) simp
    ultimately have "currentTime s' \<le> max_arrival ps" by (simp add: s')
    then show ?thesis by (intro time_inv_idle [OF tinv0 cinv0]) (simp_all add: s')
  qed
qed

lemma mlq_time_bound:
  assumes burst: "\<forall>p\<in>set ps. 1 \<le> burstTime p" and q: "1 \<le> q"
    and run: "mlq_loop ps q = Some (Inr t)"
  shows "time_inv ps t"
proof -
  let ?I = "\<lambda>s. queue_level_inv ps (\<lambda>s. q1 s @ q2 s) s \<and> time_inv ps s"
  have "?I t"
  proof (rule while_loop_invariant [OF run [unfolded mlq_loop_def], where I = ?I])
    have "time_inv ps (init_visit ps)" by (rule time_inv_init [OF burst]) simp_all
    with init_visit_level_inv [OF burst, of "\<lambda>s. q1 s @ q2 s"] show "?I (init_visit ps)" by simp
  next
    fix u u' assume I: "?I u" and lt: "completed u < length ps" and b: "mlq_body ps q u = Next u'"
    note D = queue_level_invD [OF conjunct1 [OF I]]
    from mlq_body_step [OF D(1,2) lt burst q] b D(3,4,5)
    have "queue_level_inv ps (\<lambda>s. q1 s @ q2 s) u'" by (auto simp add: queue_level_inv_def)
    with mlq_body_time [OF D(1,2) lt burst q conjunct2 [OF I] b] show "?I u'" by simp
  next
    fix u u' assume "?I u" "completed u < length ps" "mlq_body ps q u = Break u'"
    then show "?I u'" by (simp add: mlq_body_def Let_def split: if_splits)
  qed simp
  then show ?thesis by simp
qed

lemma mlfq_dispatch_time:
  assumes cinv0: "count_inv ps s0" and qinv0: "queued_inv ps s0 (q0 s0 @ q1 s0 @ q2 s0)"
    and core: "remainingTime s = remainingTime s0" "results s = results s0"
      "currentTime s = currentTime s0" "completed s = completed s0"
    and mem: "idx \<in> set (q0 s0 @ q1 s0 @ q2 s0)"
    and qt: "lvl \<noteq> 2 \<longrightarrow> 1 \<le> qt"
    and tinv0: "time_inv ps s0"
  shows "time_inv ps (mlfq_dispatch ps idx lvl qt s)"
proof -
  define d where "d = mlfq_runTime lvl qt idx s"
  from mem queued_invD(3) [OF qinv0] have idx: "idx < length ps" "0 < remainingTime s0 ! idx" by blast+
  have d: "0 < d" "d \<le> remainingTime s ! idx"
    using idx qt by (auto simp add: d_def mlfq_runTime_def core)
  have cinv: "count_inv ps s" by (rule count_inv_idle [OF cinv0 core(1,4)])
  have tinv: "time_inv ps s" by (rule time_inv_same [OF tinv0 core(1,2,3)])
  have sr: "same_run (mlfq_dispatch ps idx lvl qt s) (after_slice ps idx d s)"
    unfolding d_def by (rule mlfq_dispatch_same_run)
  from time_inv_slice [OF tinv cinv idx(1) d sr] show ?thesis .
qed

lemma mlfq_body_time:
  assumes cinv: "count_inv ps s" and qinv: "queued_inv ps s (q0 s @ q1 s @ q2 s)"
    and lt: "completed s < length ps"
    and burst: "\<forall>p\<in>set ps. 1 \<le> burstTime p" and q: "1 \<le> q"
    and tinv: "time_inv ps s" and b: "mlfq_body ps q s = Next s'"
  shows "time_inv ps s'"
proof -
  define s0 where "s0 = foldl (mlfq_admit ps) s [0..<length ps]"
  have core: "remainingTime s0 = remainingTime s" "completed s0 = completed s"
    "results s0 = results s" "currentTime s0 = currentTime s"
    by (simp_all add: s0_def)
  have cinv0: "count_inv ps s0" by (rule count_inv_idle [OF cinv core(1,2)])
  have qinv0: "queued_inv ps s0 (q0 s0 @ q1 s0 @ q2 s0)" and adm: "all_admitted ps s0"
    using mlfq_admitted(1,2) [OF qinv burst] by (simp_all add: s0_def)
  have tinv0: "time_inv ps s0" by (rule time_inv_same [OF tinv core(1,3,4)])
  note mem0 = queued_invD(3) [OF qinv0]
  consider (a) "q0 s0 \<noteq> []" | (b) "q0 s0 = []" "q1 s0 \<noteq> []"
    | (c) "q0 s0 = []" "q1 s0 = []" "q2 s0 \<noteq> []" | (d) "q0 s0 = []" "q1 s0 = []" "q2 s0 = []"
    by blast
  then show ?thesis
  proof cases
    case a
    with b have s': "s' = mlfq_dispatch ps (hd (q0 s0)) 0 q (s0\<lparr>q0 := tl (q0 s0)\<rparr>)"
      by (simp add: mlfq_body_def Let_def s0_def)
    show ?thesis unfolding s'
      by (rule mlfq_dispatch_time [OF cinv0 qinv0 _ _ _ _ _ _ tinv0]) (use a q in simp_all)
  next
    case b': b
    with b have s': "s' = mlfq_dispatch ps (hd (q1 s0)) 1 (q * 2) (s0\<lparr>q1 := tl (q1 s0)\<rparr>)"
      by (simp add: mlfq_body_def Let_def s0_def)
    show ?thesis unfolding s'
      by (rule mlfq_dispatch_time [OF cinv0 qinv0 _ _ _ _ _ _ tinv0]) (use b' q in simp_all)
  next
    case c
    with b have s': "s' = mlfq_dispatch ps (hd (q2 s0)) 2 0 s0"
      by (simp add: mlfq_body_def Let_def s0_def)
    show ?thesis unfolding s'
      by (rule mlfq_dispatch_time [OF cinv0 qinv0 _ _ _ _ _ _ tinv0]) (use c in simp_all)
  next
    case d
    from d b have s': "s' = s0\<lparr>currentTime := currentTime s0 + 1\<rparr>"
      by (simp add: mlfq_body_def s0_def Let_def)
    have lt0: "completed s0 < length ps" using lt core by simp
    from count_inv_unfinished [OF cinv0 lt0] obtain i where i: "i < length ps" "0 < remainingTime s0 ! i"
      by blast
    have "\<not> visited s0 ! i"
    proof
      assume "visited s0 ! i"
      with i mem0 [of i] d show False by simp
    qed
    with adm i have "currentTime s0 < arrivalTime (ps ! i)" by (simp add: all_admitted_def)
    moreover have "arrivalTime (ps ! i) \<le> max_arrival ps" using i by (intro max_arrival_ge) simp
    ultimately have "currentTime s' \<le> max_arrival ps" by (simp add: s')
    then show ?thesis by (intro time_inv_idle [OF tinv0 cinv0]) (simp_all add: s')
  qed
qed

lemma mlfq_time_bound:
  assumes burst: "\<forall>p\<in>set ps. 1 \<le> burstTime p" and q: "1 \<le> q"
    and run: "mlfq_loop ps q = Some (Inr t)"
  shows "time_inv ps t"
proof -
  let ?I = "\<lambda>s. queue_level_inv ps (\<lambda>s. q0 s @ q1 s @ q2 s) s \<and> time_inv ps s"
  have "?I t"
  proof (rule while_loop_invariant [OF run [unfolded mlfq_loop_def], where I = ?I])
    have "time_inv ps (init_visit ps)" by (rule time_inv_init [OF burst]) simp_all
    with init_visit_level_inv [OF burst, of "\<lambda>s. q0 s @ q1 s @ q2 s"] show "?I (init_visit ps)" by simp
  next
    fix u u' assume I: "?I u" and lt: "completed u < length ps" and b: "mlfq_body ps q u = Next u'"
    note D = queue_level_invD [OF conjunct1 [OF I]]
    from mlfq_body_step [OF D(1,2) lt burst q] b D(3,4,5)
    have "queue_level_inv ps (\<lambda>s. q0 s @ q1 s @ q2 s) u'" by (auto simp add: queue_level_inv_def)
    with mlfq_body_time [OF D(1,2) lt burst q conjunct2 [OF I] b] show "?I u'" by simp
  next
    fix u u' assume "mlfq_body ps q u = Break u'"
    with mlfq_body_Next [of ps q u] show "?I u'" by simp
  qed simp
  then show ?thesis by simp
qed

subsection \<open>The preemptive solvers\<close>

lemma pre_body_time:
  assumes sel: "pre_select_ok select" and inv: "pre_inv ps s" and lt: "completed s < length ps"
    and tinv: "time_inv ps s" and b: "pre_body reset select ps s = Next s'"
  shows "time_inv ps s'"
proof -
  from inv have cinv: "count_inv ps s" and winv: "wait_inv ps s" by (simp_all add: pre_inv_def)
  from pre_select_disj [OF sel, of ps s] show ?thesis
  proof (elim disjE exE conjE)
    assume idle: "select ps s = Inr None" "\<forall>j<length ps. \<not> pre_ready ps s j"
    with b have s': "s' = s\<lparr>currentTime := currentTime s + 1\<rparr>" by (simp add: pre_body_def)
    from count_inv_unfinished [OF cinv lt] obtain i where i: "i < length ps" "0 < remainingTime s ! i"
      by blast
    with idle(2) have "currentTime s < arrivalTime (ps ! i)" by (auto simp add: pre_ready_def not_le)
    moreover have "arrivalTime (ps ! i) \<le> max_arrival ps" using i by (intro max_arrival_ge) simp
    ultimately have "currentTime s' \<le> max_arrival ps" by (simp add: s')
    then show ?thesis by (intro time_inv_idle [OF tinv cinv]) (simp_all add: s')
  next
    fix idx assume tick: "select ps s = Inr (Some idx)" "idx < length ps" "pre_ready ps s idx"
    with b have s': "s' = pre_tick reset ps idx s" by (simp add: pre_body_def split: if_splits)
    from tick(3) have d: "(0::int) < 1" "1 \<le> remainingTime s ! idx" by (simp_all add: pre_ready_def)
    have "idx < length (results s)" using tick(2) wait_invD(1) [OF winv] by simp
    from pre_tick_same_run [OF this wait_invD(2,3) [OF winv tick(2)], of reset]
    have sr: "same_run s' (after_slice ps idx 1 s)" by (simp add: s')
    from time_inv_slice [OF tinv cinv tick(2) d sr] show ?thesis .
  qed
qed

lemma pre_time_bound:
  assumes sel: "pre_select_ok select" and burst: "\<forall>p\<in>set ps. 1 \<le> burstTime p"
    and run: "pre_loop reset select ps = Some (Inr t)"
  shows "time_inv ps t"
proof -
  let ?I = "\<lambda>s. pre_inv ps s \<and> time_inv ps s"
  have "?I t"
  proof (rule while_loop_invariant [OF run [unfolded pre_loop_def], where I = ?I])
    have "time_inv ps (init_run ps)" by (rule time_inv_init [OF burst]) simp_all
    with pre_init_inv [OF burst] show "?I (init_run ps)" by simp
  next
    fix u u' assume I: "?I u" and lt: "completed u < length ps" and b: "pre_body reset select ps u = Next u'"
    from pre_body_inv [OF sel conjunct1 [OF I] b]
      pre_body_time [OF sel conjunct1 [OF I] lt conjunct2 [OF I] b]
    show "?I u'" by simp
  next
    fix u u' assume "?I u" "pre_body reset select ps u = Break u'"
    then show "?I u'" by (auto simp add: pre_body_def split: sum.splits option.splits if_splits)
  qed simp
  then show ?thesis by simp
qed

subsection \<open>The non-preemptive solvers\<close>

lemma max_arrival_Max: "max_arrival ps = Max (insert 0 (arrivalTime ` set ps))"
proof (induction ps)
  case Nil
  then show ?case by (simp add: max_arrival_def)
next
  case (Cons p ps)
  have "max_arrival (p # ps) = max (arrivalTime p) (max_arrival ps)" by (simp add: max_arrival_def)
  also have "\<dots> = max (arrivalTime p) (Max (insert 0 (arrivalTime ` set ps)))" by (simp add: Cons.IH)
  also have "\<dots> = Max (insert (arrivalTime p) (insert 0 (arrivalTime ` set ps)))" by simp
  also have "insert (arrivalTime p) (insert 0 (arrivalTime ` set ps)) =
      insert 0 (arrivalTime ` set (p # ps))" by auto
  finally show ?case .
qed

lemma time_bound_sortJS [simp]: "time_bound (sortJS cmp ps) = time_bound ps"
proof -
  have "mset (map burstTime (sortJS cmp ps)) = mset (map burstTime ps)" by simp
  then have "sum_mset (mset (map burstTime (sortJS cmp ps))) = sum_mset (mset (map burstTime ps))"
    by (rule arg_cong)
  then have "sum_list (map burstTime (sortJS cmp ps)) = sum_list (map burstTime ps)"
    by (simp only: sum_mset_sum_list)
  then show ?thesis by (simp add: time_bound_def max_arrival_Max)
qed

lemma sum_list_map_nth: "sum_list (map f xs) = (\<Sum>i<length xs. f (xs ! i))"
proof -
  have "sum_list (map f xs) = (\<Sum>i = 0..<length (map f xs). map f xs ! i)" by (rule sum_list_sum_nth)
  also have "\<dots> = (\<Sum>i<length xs. f (xs ! i))" by (simp add: atLeast0LessThan)
  finally show ?thesis .
qed

lemma pending_bounds:
  assumes burst: "\<forall>p\<in>set sortedP. 1 \<le> burstTime p"
  shows "0 \<le> pending sortedP s" and "pending sortedP s \<le> sum_list (map burstTime sortedP)"
proof -
  have nn: "0 \<le> burstTime (sortedP ! i)" if "i < length sortedP" for i
  proof -
    from burst that have "1 \<le> burstTime (sortedP ! i)" by simp
    then show ?thesis by simp
  qed
  show "0 \<le> pending sortedP s" unfolding pending_def by (rule sum_nonneg) (simp add: nn)
  have "pending sortedP s \<le> (\<Sum>i<length sortedP. burstTime (sortedP ! i))"
    unfolding pending_def by (rule sum_mono2) (auto simp add: nn)
  then show "pending sortedP s \<le> sum_list (map burstTime sortedP)" by (simp add: sum_list_map_nth)
qed

lemma pending_run:
  assumes idx: "idx < length sortedP" and len: "length (isCompleted s) = length sortedP"
    and nc: "\<not> isCompleted s ! idx"
  shows "pending sortedP (np_run sortedP idx s) = pending sortedP s - burstTime (sortedP ! idx)"
proof -
  let ?A = "{i. i < length sortedP \<and> \<not> isCompleted s ! i}"
  have "{i. i < length sortedP \<and> \<not> (isCompleted s)[idx := True] ! i} = ?A - {idx}"
    using idx len by (auto simp add: nth_list_update)
  moreover have "finite ?A" "idx \<in> ?A" using idx nc by simp_all
  ultimately show ?thesis by (simp add: pending_def sum_diff1)
qed

lemma np_body_time:
  assumes sel: "np_select_ok select sortedP" and inv: "np_inv sortedP s"
    and lt: "completed s < length sortedP" and burst: "\<forall>p\<in>set sortedP. 1 \<le> burstTime p"
    and tinv: "np_time_inv sortedP s" and b: "np_body select sortedP s = Next s'"
  shows "np_time_inv sortedP s'"
proof -
  from tinv have clock: "currentTime s + pending sortedP s \<le> time_bound sortedP"
    and ended: "\<forall>r\<in>set (results s). endTime r \<le> time_bound sortedP"
    by (simp_all add: np_time_inv_def)
  from sel have "(select sortedP s = Inr None \<and> (\<forall>j<length sortedP. \<not> np_ready sortedP s j)) \<or>
      (\<exists>idx. select sortedP s = Inr (Some idx) \<and> idx < length sortedP \<and> np_ready sortedP s idx)"
    by (simp add: np_select_ok_def)
  then show ?thesis
  proof (elim disjE exE conjE)
    assume idle: "select sortedP s = Inr None" "\<forall>j<length sortedP. \<not> np_ready sortedP s j"
    with b have s': "s' = s\<lparr>currentTime := currentTime s + 1\<rparr>" by (simp add: np_body_def)
    from np_unfinished [OF inv lt] obtain i where i: "i < length sortedP" "\<not> isCompleted s ! i" by blast
    with idle(2) have "currentTime s < arrivalTime (sortedP ! i)" by (auto simp add: np_ready_def not_le)
    moreover have "arrivalTime (sortedP ! i) \<le> max_arrival sortedP" using i by (intro max_arrival_ge) simp
    ultimately have "currentTime s' \<le> max_arrival sortedP" by (simp add: s')
    moreover have "pending sortedP s' = pending sortedP s" by (simp add: pending_def s')
    ultimately have "currentTime s' + pending sortedP s' \<le> time_bound sortedP"
      using pending_bounds(2) [OF burst, of s] by (simp add: time_bound_def)
    with ended show ?thesis by (simp add: np_time_inv_def s')
  next
    fix idx assume tick: "select sortedP s = Inr (Some idx)" "idx < length sortedP" "np_ready sortedP s idx"
    with b have s': "s' = np_run sortedP idx s" by (simp add: np_body_def)
    from tick(3) have nc: "\<not> isCompleted s ! idx" by (simp add: np_ready_def)
    from pending_run [OF tick(2) np_invD(1) [OF inv] nc]
    have p': "pending sortedP s' = pending sortedP s - burstTime (sortedP ! idx)" by (simp add: s')
    have clock': "currentTime s' + pending sortedP s' \<le> time_bound sortedP"
      using clock by (simp add: p') (simp add: s')
    from clock' pending_bounds(1) [OF burst, of s'] have "currentTime s' \<le> time_bound sortedP" by simp
    then have "currentTime s + burstTime (sortedP ! idx) \<le> time_bound sortedP" by (simp add: s')
    with ended have "\<forall>r\<in>set (results s'). endTime r \<le> time_bound sortedP"
      by (simp add: s' mkResult_def)
    with clock' show ?thesis by (simp add: np_time_inv_def)
  qed
qed

lemma np_time_bound:
  assumes sel: "np_select_ok select (sortJS byArrival ps)" and burst: "\<forall>p\<in>set ps. 1 \<le> burstTime p"
    and run: "np_loop select ps = Some (Inr t)"
  shows "currentTime t \<le> time_bound ps" and "\<forall>r\<in>set (results t). endTime r \<le> time_bound ps"
proof -
  let ?srt = "sortJS byArrival ps"
  let ?I = "\<lambda>s. np_inv_total ?srt s \<and> np_time_inv ?srt s"
  have b: "\<forall>p\<in>set ?srt. 1 \<le> burstTime p" using burst by simp
  from run have run': "while_loop (\<lambda>s. completed s < length ?srt) (np_body select ?srt)
      (init_state\<lparr>isCompleted := replicate (length ?srt) False\<rparr>) = Some (Inr t)"
    by (simp add: np_loop_def Let_def)
  have "?I t"
  proof (rule while_loop_invariant [OF run', where I = ?I])
    have "pending ?srt (init_state\<lparr>isCompleted := replicate (length ?srt) False\<rparr>) =
        (\<Sum>i<length ?srt. burstTime (?srt ! i))"
      unfolding pending_def by (rule sum.cong) (auto simp add: init_state_def)
    then have "np_time_inv ?srt (init_state\<lparr>isCompleted := replicate (length ?srt) False\<rparr>)"
      using max_arrival_nonneg [of ?srt]
      by (simp add: np_time_inv_def time_bound_def sum_list_map_nth init_state_def
          del: time_bound_sortJS length_sortJS)
    with np_init_inv [of ?srt] show "?I (init_state\<lparr>isCompleted := replicate (length ?srt) False\<rparr>)"
      by (intro conjI)
  next
    fix u u' assume I: "?I u" and lt: "completed u < length ?srt" and c: "np_body select ?srt u = Next u'"
    from I have ninv: "np_inv ?srt u" by (simp add: np_inv_total_def)
    from np_body_total [OF sel conjunct1 [OF I] lt b] c have "np_inv_total ?srt u'" by auto
    with np_body_time [OF sel ninv lt b conjunct2 [OF I] c] show "?I u'" by simp
  next
    fix u u' assume I: "?I u" and lt: "completed u < length ?srt" and c: "np_body select ?srt u = Break u'"
    from np_body_total [OF sel conjunct1 [OF I] lt b] c show "?I u'" by auto
  qed simp
  then have T: "np_time_inv ?srt t" by simp
  from T pending_bounds(1) [OF b, of t] show "currentTime t \<le> time_bound ps"
    by (simp add: np_time_inv_def)
  from T show "\<forall>r\<in>set (results t). endTime r \<le> time_bound ps" by (simp add: np_time_inv_def)
qed

subsection \<open>First come, first served\<close>

lemma fcfs_fold_time:
  assumes "\<forall>p\<in>set xs. 1 \<le> burstTime p" and "\<forall>p\<in>set xs. arrivalTime p \<le> m" and "0 \<le> m"
  shows "currentTime (foldl fcfs_step init_state xs) \<le> m + sum_list (map burstTime xs) \<and>
         (\<forall>r\<in>set (results (foldl fcfs_step init_state xs)). endTime r \<le> m + sum_list (map burstTime xs))"
  using assms
proof (induction xs rule: rev_induct)
  case Nil
  then show ?case by (simp add: init_state_def)
next
  case (snoc x xs)
  let ?s = "foldl fcfs_step init_state xs"
  from snoc have IH: "currentTime ?s \<le> m + sum_list (map burstTime xs)"
    "\<forall>r\<in>set (results ?s). endTime r \<le> m + sum_list (map burstTime xs)"
    and x: "1 \<le> burstTime x" "arrivalTime x \<le> m"
    by simp_all
  have nn: "0 \<le> sum_list (map burstTime xs)"
    by (rule sum_list_nonneg) (use snoc.prems(1) in fastforce)
  from IH(1) x(2) nn have "max (currentTime ?s) (arrivalTime x) \<le> m + sum_list (map burstTime xs)" by simp
  with IH(2) x(1) show ?case by (fastforce simp add: mkResult_def)
qed

lemma fcfs_time_bound:
  assumes burst: "\<forall>p\<in>set ps. 1 \<le> burstTime p"
  shows "\<forall>r\<in>set (SchedulerOutput.results (solveFCFS lc ps)). endTime r \<le> time_bound ps"
proof -
  let ?srt = "sortJS byArrival ps"
  have "\<forall>r\<in>set (results (foldl fcfs_step init_state ?srt)).
      endTime r \<le> max_arrival ?srt + sum_list (map burstTime ?srt)"
    by (rule conjunct2 [OF fcfs_fold_time])
      (use burst max_arrival_ge [of _ ?srt] max_arrival_nonneg [of ?srt] in simp_all)
  moreover have "max_arrival ?srt + sum_list (map burstTime ?srt) = time_bound ps"
    using time_bound_sortJS [of byArrival ps] by (simp add: time_bound_def del: time_bound_sortJS)
  ultimately show ?thesis by (simp add: solveFCFS_def Let_def)
qed

section \<open>Termination\<close>

lemma rr_final_time:
  assumes burst: "\<forall>p\<in>set ps. 1 \<le> burstTime p" and q: "1 \<le> q"
  shows "\<exists>t. rr_loop ps q = Some (Inr t) \<and> completed t = length ps \<and> length (results t) = length ps \<and>
           currentTime t \<le> time_bound ps \<and> (\<forall>r\<in>set (results t). endTime r \<le> time_bound ps)"
proof -
  from rr_loop_total1 [OF burst q] obtain t where t: "rr_loop ps q = Some (Inr t)"
    "rr_inv1 ps t" "\<not> completed t < length ps" by blast
  from t(2) have c: "count_inv ps t" by (simp add: rr_inv1_def)
  note T = time_inv_final [OF rr_time_bound [OF burst q t(1)] c t(3)]
  from t(1) count_inv_completed [OF c t(3)] rr_results_length [OF burst q t(1)] T
  show ?thesis by blast
qed

lemma level_final_time:
  assumes inv: "queue_level_inv ps Q t" and fin: "\<not> completed t < length ps" and tinv: "time_inv ps t"
  shows "completed t = length ps \<and> length (results t) = length ps \<and>
         currentTime t \<le> time_bound ps \<and> (\<forall>r\<in>set (results t). endTime r \<le> time_bound ps)"
proof -
  note D = queue_level_invD [OF inv]
  from count_inv_completed [OF D(1) fin] wait_invD(1) [OF D(3)] time_inv_final [OF tinv D(1) fin]
  show ?thesis by blast
qed

lemma mlq_final_time:
  assumes burst: "\<forall>p\<in>set ps. 1 \<le> burstTime p" and q: "1 \<le> q"
  shows "\<exists>t. mlq_loop ps q = Some (Inr t) \<and> completed t = length ps \<and> length (results t) = length ps \<and>
           currentTime t \<le> time_bound ps \<and> (\<forall>r\<in>set (results t). endTime r \<le> time_bound ps)"
proof -
  from mlq_loop_total [OF burst q] obtain t where t: "mlq_loop ps q = Some (Inr t)"
    "queue_level_inv ps (\<lambda>s. q1 s @ q2 s) t" "\<not> completed t < length ps" by blast
  from t(1) level_final_time [OF t(2,3) mlq_time_bound [OF burst q t(1)]] show ?thesis by blast
qed

lemma mlfq_final_time:
  assumes burst: "\<forall>p\<in>set ps. 1 \<le> burstTime p" and q: "1 \<le> q"
  shows "\<exists>t. mlfq_loop ps q = Some (Inr t) \<and> completed t = length ps \<and> length (results t) = length ps \<and>
           currentTime t \<le> time_bound ps \<and> (\<forall>r\<in>set (results t). endTime r \<le> time_bound ps)"
proof -
  from mlfq_loop_total [OF burst q] obtain t where t: "mlfq_loop ps q = Some (Inr t)"
    "queue_level_inv ps (\<lambda>s. q0 s @ q1 s @ q2 s) t" "\<not> completed t < length ps" by blast
  from t(1) level_final_time [OF t(2,3) mlfq_time_bound [OF burst q t(1)]] show ?thesis by blast
qed

lemma pre_final_time:
  assumes sel: "pre_select_ok select" and burst: "\<forall>p\<in>set ps. 1 \<le> burstTime p"
    and nonempty: "\<forall>p\<in>set ps. id' p \<noteq> []"
  shows "\<exists>t. pre_loop reset select ps = Some (Inr t) \<and> completed t = length ps \<and>
           length (results t) = length ps \<and>
           currentTime t \<le> time_bound ps \<and> (\<forall>r\<in>set (results t). endTime r \<le> time_bound ps)"
proof -
  from pre_loop_total [OF sel burst nonempty, of reset] obtain t where
    t: "pre_loop reset select ps = Some (Inr t)" "pre_inv_total ps t" "\<not> completed t < length ps" by blast
  from t(2) have c: "count_inv ps t" and w: "wait_inv ps t"
    by (simp_all add: pre_inv_total_def pre_inv_def)
  note T = time_inv_final [OF pre_time_bound [OF sel burst t(1)] c t(3)]
  from t(1) count_inv_completed [OF c t(3)] wait_invD(1) [OF w] T show ?thesis by blast
qed

lemma np_final_time:
  assumes sel: "np_select_ok select (sortJS byArrival ps)" and burst: "\<forall>p\<in>set ps. 1 \<le> burstTime p"
  shows "\<exists>t. np_loop select ps = Some (Inr t) \<and> completed t = length ps \<and>
           length (results t) = length ps \<and>
           currentTime t \<le> time_bound ps \<and> (\<forall>r\<in>set (results t). endTime r \<le> time_bound ps)"
proof -
  from np_final [OF sel burst] obtain t where t: "np_loop select ps = Some (Inr t)"
    "completed t = length ps" "length (results t) = length ps" by blast
  from t np_time_bound [OF sel burst t(1)] show ?thesis by blast
qed

lemma finish_final_time:
  assumes "\<exists>t. r = Some (Inr t) \<and> completed t = length ps \<and> length (results t) = length ps \<and>
           currentTime t \<le> time_bound ps \<and> (\<forall>x\<in>set (results t). endTime x \<le> time_bound ps)"
  shows "\<exists>out. finish lc r = Some (Inr out) \<and> length (SchedulerOutput.results out) = length ps \<and>
           (\<forall>x\<in>set (SchedulerOutput.results out). endTime x \<le> time_bound ps)"
  using assms by auto

lemma loop_final_time:
  assumes "\<exists>t. r = Some (Inr t) \<and> completed t = length ps \<and> length (results t) = length ps \<and>
           currentTime t \<le> time_bound ps \<and> (\<forall>x\<in>set (results t). endTime x \<le> time_bound ps)"
  shows "\<exists>t. r = Some (Inr t) \<and> completed t = length ps \<and> currentTime t \<le> time_bound ps"
  using assms by blast

text \<open>
  C3, as the specification states it, fails twice. A process whose identifier is the
  empty string has a burst time of 1, and SRTF stops with the \<^verbatim>\<open>TypeError\<close> of
  \<^verbatim>\<open>ganttChart[-1].endTime++\<close>: the identifier equals the initial \<^verbatim>\<open>lastProcessId\<close>, so
  the first tick extends the last block of an empty chart. With the quantum 0, Round
  Robin runs slices of length 0 for ever: \<open>solve\<close> has no value.
\<close>

theorem solve_burst_alone_is_not_enough:
  "solve codeUnitCompare ''SRTF (Preemptive)'' [mkProcess [] 0 1 0] 1 = Some (Inl TypeError) \<and>
   solve codeUnitCompare ''Round Robin'' [mkProcess ''P1'' 0 1 0] 0 = None"
proof
  show "solve codeUnitCompare ''SRTF (Preemptive)'' [mkProcess [] 0 1 0] 1 = Some (Inl TypeError)"
    by code_simp
  let ?ps = "[mkProcess ''P1'' 0 1 0]"
  let ?I = "\<lambda>s::state. queue s = [0] \<and> remainingTime s = [1] \<and> completed s = 0 \<and> visited s = [True]"
  have "while_loop (\<lambda>s. completed s < length ?ps) (rr_body ?ps 0) (rr_init ?ps) = None"
  proof (rule while_loop_diverges [where I = ?I])
    show "?I (rr_init ?ps)"
      by (simp add: rr_init_def rr_seed_def init_run_def init_state_def mkProcess_def)
    fix u assume "?I u"
    then show "completed u < length ?ps \<and> (\<exists>u'. rr_body ?ps 0 u = Next u' \<and> ?I u')"
      by (simp add: rr_body_def rr_slice_def Let_def mark_start_def run_def rr_admit_def)
  qed
  then show "solve codeUnitCompare ''Round Robin'' ?ps 0 = None"
    by (simp add: solve_def solveRR_def rr_loop_def finish_def)
qed

text \<open>
  C3, as the code has it. On a process list with integer fields, when every process
  has a burst time of at least 1, an arrival time of at least 0 and a non-empty
  identifier, the latest arrival time plus the sum of the burst times (\<open>time_bound\<close>) is
  below \<open>2 ^ 26\<close>, and the quantum is an integer of at least 1, \<open>solve\<close> returns an output
  with one result for each process, whatever the algorithm name and the priorities, and
  no completion time exceeds \<open>time_bound\<close>. The loop of each of the ten solvers that
  have one ends with \<open>completed\<close> equal to the number of processes and with the clock
  within the same bound. The integers and the range are those in which the model
  computes what the doubles of the code compute: a fractional remaining time never
  equals 0 in the tick loops and in the last queue of MLFQ, and beyond \<open>2 ^ 53\<close> the
  rounded clock can pass the bound.
\<close>

theorem solve_terminates:
  assumes valid: "\<forall>p\<in>set ps. 1 \<le> burstTime p \<and> 0 \<le> arrivalTime p \<and> id' p \<noteq> []"
    and range: "time_bound ps < 2 ^ 26" and q: "1 \<le> q"
  shows "(\<exists>out. solve lc algorithm ps q = Some (Inr out) \<and>
            length (SchedulerOutput.results out) = length ps \<and>
            (\<forall>r\<in>set (SchedulerOutput.results out). endTime r \<le> time_bound ps)) \<and>
         (\<forall>select\<in>{selectSJF, selectPriorityNP, selectLJF, selectHRRN}.
            \<exists>t. np_loop select ps = Some (Inr t) \<and> completed t = length ps \<and>
                currentTime t \<le> time_bound ps) \<and>
         (\<forall>select\<in>{selectSRTF, selectPriorityP, selectLRTF}.
            \<exists>t. pre_loop reset select ps = Some (Inr t) \<and> completed t = length ps \<and>
                currentTime t \<le> time_bound ps) \<and>
         (\<exists>t. rr_loop ps q = Some (Inr t) \<and> completed t = length ps \<and> currentTime t \<le> time_bound ps) \<and>
         (\<exists>t. mlq_loop ps q = Some (Inr t) \<and> completed t = length ps \<and> currentTime t \<le> time_bound ps) \<and>
         (\<exists>t. mlfq_loop ps q = Some (Inr t) \<and> completed t = length ps \<and> currentTime t \<le> time_bound ps)"
proof -
  from valid have burst: "\<forall>p\<in>set ps. 1 \<le> burstTime p" and ids: "\<forall>p\<in>set ps. id' p \<noteq> []"
    by simp_all
  note S = np_selects_ok [OF burst]
  note np = np_final_time [OF _ burst]
  note pre = pre_final_time [OF _ burst ids]
  note rr = rr_final_time [OF burst q]
  note mlq = mlq_final_time [OF burst q]
  note mlfq = mlfq_final_time [OF burst q]
  let ?P = "\<lambda>r. \<exists>out. r = Some (Inr out) \<and> length (SchedulerOutput.results out) = length ps \<and>
      (\<forall>x\<in>set (SchedulerOutput.results out). endTime x \<le> time_bound ps)"
  have "?P (solve lc algorithm ps q)"
  proof (rule solve_cases)
    show "?P (Some (Inr (solveFCFS lc ps)))"
      using fcfs_final [OF burst, of lc] fcfs_time_bound [OF burst, of lc] by simp
    show "?P (solveSJF lc ps)" unfolding solveSJF_def by (rule finish_final_time [OF np [OF S(1)]])
    show "?P (solvePriorityNP lc ps)" unfolding solvePriorityNP_def
      by (rule finish_final_time [OF np [OF S(2)]])
    show "?P (solveLJF lc ps)" unfolding solveLJF_def by (rule finish_final_time [OF np [OF S(3)]])
    show "?P (solveHRRN lc ps)" unfolding solveHRRN_def by (rule finish_final_time [OF np [OF S(4)]])
    show "?P (solveSRTF lc ps)" unfolding solveSRTF_def
      by (rule finish_final_time [OF pre [OF selectSRTF_ok]])
    show "?P (solvePriorityP lc ps)" unfolding solvePriorityP_def
      by (rule finish_final_time [OF pre [OF selectPriorityP_ok]])
    show "?P (solveLRTF lc ps)" unfolding solveLRTF_def
      by (rule finish_final_time [OF pre [OF selectLRTF_ok]])
    show "?P (solveRR lc ps q)" unfolding solveRR_def by (rule finish_final_time [OF rr])
    show "?P (solveMLQ lc ps q)" unfolding solveMLQ_def by (rule finish_final_time [OF mlq])
    show "?P (solveMLFQ lc ps q)" unfolding solveMLFQ_def by (rule finish_final_time [OF mlfq])
  qed
  moreover have "\<forall>select\<in>{selectSJF, selectPriorityNP, selectLJF, selectHRRN}.
      \<exists>t. np_loop select ps = Some (Inr t) \<and> completed t = length ps \<and> currentTime t \<le> time_bound ps"
    using loop_final_time [OF np [OF S(1)]] loop_final_time [OF np [OF S(2)]]
      loop_final_time [OF np [OF S(3)]] loop_final_time [OF np [OF S(4)]] by simp
  moreover have "\<forall>select\<in>{selectSRTF, selectPriorityP, selectLRTF}.
      \<exists>t. pre_loop reset select ps = Some (Inr t) \<and> completed t = length ps \<and> currentTime t \<le> time_bound ps"
    using loop_final_time [OF pre [OF selectSRTF_ok, of reset]]
      loop_final_time [OF pre [OF selectPriorityP_ok, of reset]]
      loop_final_time [OF pre [OF selectLRTF_ok, of reset]] by simp
  moreover note loop_final_time [OF rr] loop_final_time [OF mlq] loop_final_time [OF mlfq]
  ultimately show ?thesis by (intro conjI)
qed

theorem solve_terminates_witness:
  "time_bound spec_example = 19 \<and>
   (\<exists>out. solve codeUnitCompare ''Priority (Preemptive)'' spec_example 2 = Some (Inr out) \<and>
      length (SchedulerOutput.results out) = length spec_example \<and>
      list_all (\<lambda>r. endTime r \<le> 19) (SchedulerOutput.results out)) \<and>
   (\<exists>t. rr_loop spec_example 2 = Some (Inr t) \<and> completed t = length spec_example \<and>
      currentTime t \<le> 19)"
proof -
  have valid: "\<forall>p\<in>set spec_example. 1 \<le> burstTime p \<and> 0 \<le> arrivalTime p \<and> id' p \<noteq> []"
    by (simp add: spec_example_def mkProcess_def)
  have q: "(1::int) \<le> 2" by simp
  have B: "time_bound spec_example = 19"
    by (simp add: time_bound_def max_arrival_def spec_example_def mkProcess_def)
  have range: "time_bound spec_example < 2 ^ 26" unfolding B by simp
  note T = solve_terminates [OF valid range q, of codeUnitCompare "''Priority (Preemptive)''" True]
  from conjunct1 [OF T]
  have a: "\<exists>out. solve codeUnitCompare ''Priority (Preemptive)'' spec_example 2 = Some (Inr out) \<and>
      length (SchedulerOutput.results out) = length spec_example \<and>
      list_all (\<lambda>r. endTime r \<le> 19) (SchedulerOutput.results out)"
    unfolding B list_all_iff .
  from conjunct1 [OF conjunct2 [OF conjunct2 [OF conjunct2 [OF T]]]]
  have b: "\<exists>t. rr_loop spec_example 2 = Some (Inr t) \<and> completed t = length spec_example \<and>
      currentTime t \<le> 19"
    unfolding B .
  from B a b show ?thesis by (intro conjI)
qed

end
